(* ===== verification/Zc_Prelude.thy ===== *)
theory Zc_Prelude
  imports Main "HOL-Library.Word" "HOL-Library.Monad_Syntax"
begin

text \<open>
  The prelude of the ZeroChannel development: the machine types of the Rust code, the
  little-endian codec of a 64-bit word, and the lemmas on lists, words and ring indices that
  the component theories share.

  Rust's \<open>u64\<close>, \<open>i64\<close> and \<open>usize\<close> are all \<open>64 word\<close>s (the supported targets, x86_64 and
  aarch64, are 64-bit): \<open>+\<close>, \<open>*\<close> and unary minus wrap around as in a release build, \<open><\<close> and
  \<open>mod\<close> are the unsigned operations, and a signed value is read through \<open>sint\<close>. An \<open>as\<close> cast
  between the three types does not change the bits, so it leaves no trace in the model.
\<close>

named_theorems conn_defs \<open>the connection logic of the endpoints, unfolded when the endpoint is connected\<close>
named_theorems open_defs \<open>the paths by which a segment is opened\<close>

type_synonym byte = "8 word"
type_synonym u32 = "32 word"
type_synonym u64 = "64 word"
type_synonym i64 = "64 word"
type_synonym usize = "64 word"

subsection \<open>Bounds of machine words\<close>

lemma unat_u64_lt [simp]: "unat (w :: u64) < 18446744073709551616"
  using unsigned_less [of w] by simp

lemma unat_byte_lt [simp]: "unat (b :: byte) < 256"
  using unsigned_less [of b] by simp

lemma unat_of_nat_u64 [simp]:
  "n < 18446744073709551616 \<Longrightarrow> unat (word_of_nat n :: u64) = n"
  by (simp add: unsigned_of_nat take_bit_nat_eq_self_iff)

lemma unat_of_nat_below: "k < unat (n :: u64) \<Longrightarrow> unat (word_of_nat k :: u64) = k"
  using unat_u64_lt [of n] by (intro unat_of_nat_u64) linarith

lemma unat_of_nat_byte [simp]: "unat (word_of_nat n :: byte) = n mod 256"
  by (simp add: unsigned_of_nat take_bit_eq_mod)

lemma unat_add_no_wrap:
  "unat (a :: u64) + unat b < 18446744073709551616 \<Longrightarrow> unat (a + b) = unat a + unat b"
  by (simp add: unat_word_ariths)

lemma unat_mult_no_wrap:
  "unat (a :: u64) * unat b < 18446744073709551616 \<Longrightarrow> unat (a * b) = unat a * unat b"
  by (simp add: unat_word_ariths)

lemma unat_mod_u64: "unat ((a :: u64) mod b) = unat a mod unat b"
  by (simp add: unat_mod_distrib)

lemma odd_div_2_63:
  assumes "n < (18446744073709551616 :: nat)"
  shows "odd (n div 9223372036854775808) \<longleftrightarrow> 9223372036854775808 \<le> n"
proof (cases "n < 9223372036854775808")
  case True
  then show ?thesis by simp
next
  case False
  then have "n div 9223372036854775808 = 1"
    using assms by (intro div_nat_eqI) auto
  with False show ?thesis by simp
qed

lemma bit_63_u64: "bit (w :: u64) 63 \<longleftrightarrow> 9223372036854775808 \<le> unat w"
proof -
  have "bit w 63 \<longleftrightarrow> bit (unat w) 63"
    by (simp add: bit_unsigned_iff)
  also have "\<dots> \<longleftrightarrow> odd (unat w div 9223372036854775808)"
    by (simp add: bit_iff_odd)
  finally show ?thesis
    by (simp only: odd_div_2_63 [OF unat_u64_lt])
qed

lemma sint_u64_cases:
  "sint (w :: u64) =
     (if unat w < 9223372036854775808 then int (unat w)
      else int (unat w) - 18446744073709551616)"
proof -
  have b: "bit (uint w) 63 \<longleftrightarrow> \<not> unat w < 9223372036854775808"
    by (simp add: bit_63_u64 [symmetric] bit_uint_iff not_less)
  have t: "take_bit (Suc 63) (uint w) = uint w"
    using uint_lt2p [of w] by (simp add: take_bit_int_eq_self_iff)
  have "sint w = signed_take_bit 63 (uint w)"
    by (simp add: sint_uint)
  also have "\<dots> = uint w - 2 ^ Suc 63 * of_bool (\<not> unat w < 9223372036854775808)"
    by (simp only: signed_take_bit_eq_take_bit_minus t b)
  finally show ?thesis
    by (cases "unat w < 9223372036854775808") simp_all
qed

lemma sint_neg_iff: "sint (w :: u64) < 0 \<longleftrightarrow> 9223372036854775808 \<le> unat w"
  using unat_u64_lt [of w] by (simp add: sint_u64_cases del: unat_u64_lt of_nat_unat)

lemma sint_pos_iff: "0 < sint (w :: u64) \<longleftrightarrow> 0 < unat w \<and> unat w < 9223372036854775808"
  using unat_u64_lt [of w] by (simp add: sint_u64_cases del: unat_u64_lt of_nat_unat)

lemma unat_minus_u64:
  assumes "(w :: u64) \<noteq> 0"
  shows "unat (- w) = 18446744073709551616 - unat w"
proof -
  let ?n = "18446744073709551616 - unat w"
  have "w + word_of_nat ?n = word_of_nat (unat w + ?n)"
    by (simp add: of_nat_add del: of_nat_diff)
  also have "unat w + ?n = 2 ^ 64"
    using unat_u64_lt [of w] by (simp del: unat_u64_lt)
  also have "word_of_nat (2 ^ 64) = (0 :: u64)"
    by simp
  finally have "- w = word_of_nat ?n"
    by (metis add.inverse_unique)
  moreover have "?n < 18446744073709551616"
    using assms by (simp add: unat_gt_0)
  ultimately show ?thesis by (simp only: unat_of_nat_u64)
qed

lemma unat_pos_iff: "0 < unat (w :: u64) \<longleftrightarrow> w \<noteq> 0"
  by (simp add: unat_gt_0)

text \<open>Negating a committed sequence number makes it a held one, and back.\<close>

lemma sint_minus_neg: "0 < sint (w :: u64) \<Longrightarrow> sint (- w) < 0"
  by (auto simp: sint_pos_iff sint_neg_iff unat_minus_u64 unat_pos_iff)

lemma u64_eq_iff: "(a :: u64) = b \<longleftrightarrow> unat a = unat b"
  by (rule word_unat_eq_iff)

subsection \<open>Index ranges and ring indices\<close>

text \<open>The Rust range \<open>0..n\<close> of a \<open>usize\<close> loop.\<close>

definition usize_range :: "usize \<Rightarrow> usize list" where
  "usize_range n = map word_of_nat [0..<unat n]"

lemma length_usize_range [simp]: "length (usize_range n) = unat n"
  by (simp add: usize_range_def)

lemma map_usize_range_unat: "map unat (usize_range n) = [0..<unat n]"
proof -
  have "\<forall>i \<in> set [0..<unat n]. unat (word_of_nat i :: u64) = i"
    using unat_u64_lt [of n] by (auto intro!: unat_of_nat_u64 simp del: unat_u64_lt)
  then show ?thesis
    unfolding usize_range_def map_map comp_def by (intro map_idI) simp
qed

lemma set_usize_range: "set (usize_range n) = {i. i < n}"
proof -
  have "i \<in> set (usize_range n) \<longleftrightarrow> i < n" for i
  proof
    assume "i \<in> set (usize_range n)"
    then have "unat i \<in> set (map unat (usize_range n))" by simp
    then show "i < n" by (simp add: map_usize_range_unat word_less_nat_alt)
  next
    assume "i < n"
    then have "unat i < unat n" by (simp add: word_less_nat_alt)
    then show "i \<in> set (usize_range n)"
      by (auto simp: usize_range_def image_iff intro!: bexI [of _ "unat i"])
  qed
  then show ?thesis by blast
qed

lemma distinct_usize_range: "distinct (usize_range n)"
  using distinct_upt [of 0 "unat n"]
  by (simp add: map_usize_range_unat [symmetric] distinct_map)

lemma usize_mod_less: "0 < n \<Longrightarrow> (i :: usize) mod n < n"
  by (simp add: word_less_nat_alt unat_mod_u64)

subsection \<open>Little-endian words\<close>

fun le_encode :: "nat \<Rightarrow> nat \<Rightarrow> byte list" where
  "le_encode 0 n = []"
| "le_encode (Suc k) n = word_of_nat (n mod 256) # le_encode k (n div 256)"

fun le_decode :: "byte list \<Rightarrow> nat" where
  "le_decode [] = 0"
| "le_decode (b # bs) = unat b + 256 * le_decode bs"

definition u64_to_le :: "u64 \<Rightarrow> byte list" where
  "u64_to_le w = le_encode 8 (unat w)"

definition u64_of_le :: "byte list \<Rightarrow> u64" where
  "u64_of_le bs = word_of_nat (le_decode bs)"

lemma length_le_encode [simp]: "length (le_encode k n) = k"
  by (induction k arbitrary: n) auto

lemma length_u64_to_le [simp]: "length (u64_to_le w) = 8"
  by (simp add: u64_to_le_def)

lemma le_decode_bound: "le_decode bs < 256 ^ length bs"
proof (induction bs)
  case Nil
  then show ?case by simp
next
  case (Cons b bs)
  have "unat b + 256 * le_decode bs < 256 * 256 ^ length bs"
    using Cons.IH unat_byte_lt [of b] by linarith
  then show ?case by simp
qed

lemma le_decode_encode: "le_decode (le_encode k n) = n mod 256 ^ k"
proof (induction k arbitrary: n)
  case 0
  then show ?case by simp
next
  case (Suc k)
  have "n mod (256 * 256 ^ k) = 256 * (n div 256 mod 256 ^ k) + n mod 256"
    by (rule mod_mult2_eq)
  then show ?case by (simp add: Suc.IH)
qed

lemma le_encode_decode: "le_encode (length bs) (le_decode bs) = bs"
proof (induction bs)
  case Nil
  then show ?case by simp
next
  case (Cons b bs)
  have "unat b < 256" by simp
  with Cons.IH show ?case by simp
qed

lemma u64_of_to_le [simp]: "u64_of_le (u64_to_le w) = w"
proof -
  have "(256 :: nat) ^ 8 = 18446744073709551616" by simp
  then show ?thesis
    by (simp add: u64_of_le_def u64_to_le_def le_decode_encode)
qed

lemma u64_to_of_le [simp]: "length bs = 8 \<Longrightarrow> u64_to_le (u64_of_le bs) = bs"
  using le_decode_bound [of bs] le_encode_decode [of bs]
  by (simp add: u64_of_le_def u64_to_le_def)

subsection \<open>Decimal numbers in messages\<close>

fun show_nat :: "nat \<Rightarrow> string" where
  "show_nat n =
     (if n < 10 then [char_of (48 + n)]
      else show_nat (n div 10) @ [char_of (48 + n mod 10)])"

declare show_nat.simps [simp del]

definition show_u64 :: "u64 \<Rightarrow> string" where
  "show_u64 w = show_nat (unat w)"

end
