(* ===== verification/Zc_Memory.thy ===== *)
theory Zc_Memory
  imports Zc_Prelude
begin

text \<open>
  A mapped shared-memory segment, as the bytes it holds. The Rust code reaches it through a raw
  base pointer and byte offsets; here an address is the offset, and an access that Rust would
  make undefined (beyond the mapping, or a misaligned 64-bit word) is \<open>None\<close>. A mapping starts on
  a page boundary, so a word is aligned exactly when its offset is a multiple of 8.

  The atomic operations are modelled one after another in a single total order (sequential
  consistency): \<open>Acquire\<close>, \<open>Release\<close> and the fences of the source leave no trace.
\<close>

type_synonym mem = "byte list"

text \<open>
  The segment as an operation sees it that runs while others change it: at each moment, and the
  view that never changes.
\<close>

type_synonym view = "nat \<Rightarrow> mem"

abbreviation still :: "mem \<Rightarrow> view" where
  "still m \<equiv> \<lambda>_. m"

subsection \<open>Views of the bytes\<close>

definition bytes_at :: "mem \<Rightarrow> nat \<Rightarrow> nat \<Rightarrow> byte list" where
  "bytes_at m a n = take n (drop a m)"

definition word_at :: "mem \<Rightarrow> nat \<Rightarrow> u64" where
  "word_at m a = u64_of_le (bytes_at m a 8)"

definition poke :: "mem \<Rightarrow> nat \<Rightarrow> byte list \<Rightarrow> mem" where
  "poke m a bs = take a m @ bs @ drop (a + length bs) m"

subsection \<open>Checked accesses\<close>

text \<open>\<open>core::ptr::copy_nonoverlapping\<close> out of and into the mapping, and \<open>write_bytes\<close>.\<close>

definition read_bytes :: "mem \<Rightarrow> usize \<Rightarrow> usize \<Rightarrow> byte list option" where
  "read_bytes m a n =
     (if unat a + unat n \<le> length m then Some (bytes_at m (unat a) (unat n)) else None)"

definition write_bytes :: "mem \<Rightarrow> usize \<Rightarrow> byte list \<Rightarrow> mem option" where
  "write_bytes m a bs =
     (if unat a + length bs \<le> length m then Some (poke m (unat a) bs) else None)"

text \<open>A 64-bit load and store, atomic or not.\<close>

definition load_u64 :: "mem \<Rightarrow> usize \<Rightarrow> u64 option" where
  "load_u64 m a =
     (if 8 dvd unat a \<and> unat a + 8 \<le> length m then Some (word_at m (unat a)) else None)"

definition store_u64 :: "mem \<Rightarrow> usize \<Rightarrow> u64 \<Rightarrow> mem option" where
  "store_u64 m a v =
     (if 8 dvd unat a \<and> unat a + 8 \<le> length m then Some (poke m (unat a) (u64_to_le v))
      else None)"

text \<open>\<open>compare_exchange\<close>: \<open>Inr\<close> the old value on success, \<open>Inl\<close> the actual value on failure.\<close>

definition compare_exchange ::
    "mem \<Rightarrow> usize \<Rightarrow> u64 \<Rightarrow> u64 \<Rightarrow> ((u64 + u64) \<times> mem) option" where
  "compare_exchange m a old new =
     do {
       v \<leftarrow> load_u64 m a;
       if v = old
       then do { m' \<leftarrow> store_u64 m a new; Some (Inr v, m') }
       else Some (Inl v, m)
     }"

subsection \<open>Lemmas on views\<close>

lemma length_bytes_at: "a + n \<le> length m \<Longrightarrow> length (bytes_at m a n) = n"
  by (simp add: bytes_at_def)

lemma length_poke [simp]: "a + length bs \<le> length m \<Longrightarrow> length (poke m a bs) = length m"
  by (simp add: poke_def)

lemma nth_poke:
  assumes "a + length bs \<le> length m" "i < length m"
  shows "poke m a bs ! i = (if a \<le> i \<and> i < a + length bs then bs ! (i - a) else m ! i)"
  using assms by (auto simp: poke_def nth_append min_def)

lemma bytes_at_eqI:
  assumes "length m = length m'"
    and "\<And>i. a \<le> i \<Longrightarrow> i < a + n \<Longrightarrow> i < length m \<Longrightarrow> m ! i = m' ! i"
  shows "bytes_at m a n = bytes_at m' a n"
  using assms by (auto simp: bytes_at_def intro!: nth_equalityI)

lemma bytes_at_poke_same:
  "a + length bs \<le> length m \<Longrightarrow> bytes_at (poke m a bs) a (length bs) = bs"
  by (simp add: bytes_at_def poke_def)

lemma bytes_at_poke_apart:
  assumes "a + length bs \<le> length m" "b + n \<le> a \<or> a + length bs \<le> b"
  shows "bytes_at (poke m a bs) b n = bytes_at m b n"
  using assms by (intro bytes_at_eqI) (auto simp: nth_poke)

lemma word_at_poke_same: "a + 8 \<le> length m \<Longrightarrow> word_at (poke m a (u64_to_le v)) a = v"
  using bytes_at_poke_same [of a "u64_to_le v" m] by (simp add: word_at_def)

lemma word_at_poke_apart:
  "a + length bs \<le> length m \<Longrightarrow> b + 8 \<le> a \<or> a + length bs \<le> b \<Longrightarrow>
   word_at (poke m a bs) b = word_at m b"
  by (simp add: word_at_def bytes_at_poke_apart)

lemma poke_word_at_same: "a + 8 \<le> length m \<Longrightarrow> poke m a (u64_to_le (word_at m a)) = m"
proof -
  assume a: "a + 8 \<le> length m"
  then have "u64_to_le (word_at m a) = bytes_at m a 8"
    by (simp add: word_at_def length_bytes_at)
  then show ?thesis
    using a by (simp add: poke_def bytes_at_def length_bytes_at min_def)
      (metis add.commute append_take_drop_id drop_drop)
qed

lemma poke_bytes_at_same: "a + n \<le> length m \<Longrightarrow> poke m a (bytes_at m a n) = m"
  by (rule nth_equalityI) (auto simp: nth_poke length_bytes_at bytes_at_def)

lemma poke_poke_same:
  "a + length bs \<le> length m \<Longrightarrow> length cs = length bs \<Longrightarrow> poke (poke m a bs) a cs = poke m a cs"
  by (rule nth_equalityI) (auto simp: nth_poke)

text \<open>
  The interface of a store of 64-bit cells: what a load returns after a store to the same cell
  and to another one, and that the cells that exist stay the same. The compare-and-swap protocols
  (slots held by a reader, role claims) rest on nothing else.
\<close>

locale word_store =
  fixes load :: "'m \<Rightarrow> 'a \<Rightarrow> u64 option"
    and store :: "'m \<Rightarrow> 'a \<Rightarrow> u64 \<Rightarrow> 'm option"
    and cas :: "'m \<Rightarrow> 'a \<Rightarrow> u64 \<Rightarrow> u64 \<Rightarrow> ((u64 + u64) \<times> 'm) option"
    and apart :: "'a \<Rightarrow> 'a \<Rightarrow> bool"
  assumes store_defined: "load m a = Some v \<Longrightarrow> \<exists>m'. store m a w = Some m'"
    and load_same: "store m a w = Some m' \<Longrightarrow> load m' a = Some w"
    and load_apart: "store m a w = Some m' \<Longrightarrow> apart a b \<Longrightarrow> load m' b = load m b"
    and store_back: "load m a = Some v \<Longrightarrow> store m a w = Some m' \<Longrightarrow> store m' a v = Some m"
    and cas_hit: "load m a = Some old \<Longrightarrow> store m a new = Some m' \<Longrightarrow>
       cas m a old new = Some (Inr old, m')"
    and cas_miss: "load m a = Some v \<Longrightarrow> v \<noteq> old \<Longrightarrow> cas m a old new = Some (Inl v, m)"
    and cas_undefined: "load m a = None \<Longrightarrow> cas m a old new = None"
begin

lemma cas_cases:
  assumes "cas m a old new = Some (r, m')"
  obtains (hit) "load m a = Some old" "store m a new = Some m'" "r = Inr old"
    | (miss) v where "load m a = Some v" "v \<noteq> old" "m' = m" "r = Inl v"
proof (cases "load m a")
  case None
  with assms show ?thesis by (simp add: cas_undefined)
next
  case (Some v)
  show ?thesis
  proof (cases "v = old")
    case True
    with Some store_defined obtain m'' where m'': "store m a new = Some m''" by blast
    with True Some assms have "m'' = m'" "r = Inr old" by (auto simp: cas_hit)
    with m'' Some True show ?thesis by (intro hit) simp_all
  next
    case False
    with Some assms show ?thesis by (intro miss [of v]) (auto simp: cas_miss)
  qed
qed

lemma cas_won: "cas m a old new = Some (Inr v, m') \<Longrightarrow> v = old \<and> load m' a = Some new"
  by (erule cas_cases) (auto dest: load_same)

lemma cas_lost: "cas m a old new = Some (Inl v, m') \<Longrightarrow> m' = m \<and> load m a = Some v \<and> v \<noteq> old"
  by (erule cas_cases) auto

lemma cas_apart: "cas m a old new = Some (r, m') \<Longrightarrow> apart a b \<Longrightarrow> load m' b = load m b"
  by (erule cas_cases) (auto dest: load_apart)

lemma cas_defined: "load m a = Some v \<Longrightarrow> \<exists>r m'. cas m a old new = Some (r, m')"
  by (cases "v = old") (use store_defined cas_hit cas_miss in blast)+

text \<open>Of two claims of a cell that holds \<open>old\<close>, one after the other, exactly the first wins.\<close>

lemma cas_exclusive:
  assumes "load m a = Some old" "p \<noteq> old" "q \<noteq> old"
    and "cas m a old p = Some (r, m')" and "cas m' a old q = Some (r', m'')"
  shows "r = Inr old \<and> r' = Inl p \<and> load m'' a = Some p"
proof -
  from assms(1) store_defined obtain n where n: "store m a p = Some n" by blast
  with assms(1,4) have 1: "r = Inr old" "m' = n" by (auto simp: cas_hit)
  from n have "load n a = Some p" by (rule load_same)
  with 1 assms(2,5) have "r' = Inl p" "m'' = n" by (auto simp: cas_miss)
  with 1 \<open>load n a = Some p\<close> show ?thesis by simp
qed

end

definition apart_u64 :: "usize \<Rightarrow> usize \<Rightarrow> bool" where
  "apart_u64 a b \<longleftrightarrow> unat a + 8 \<le> unat b \<or> unat b + 8 \<le> unat a"

interpretation seg: word_store load_u64 store_u64 compare_exchange apart_u64
proof
  fix m :: mem and a b :: usize and v w old new :: u64 and m'
  show "load_u64 m a = Some v \<Longrightarrow> \<exists>m'. store_u64 m a w = Some m'"
    by (auto simp: load_u64_def store_u64_def split: if_splits)
  show "store_u64 m a w = Some m' \<Longrightarrow> load_u64 m' a = Some w"
    by (auto simp: load_u64_def store_u64_def word_at_poke_same split: if_splits)
  show "store_u64 m a w = Some m' \<Longrightarrow> apart_u64 a b \<Longrightarrow> load_u64 m' b = load_u64 m b"
    by (auto simp: load_u64_def store_u64_def apart_u64_def word_at_poke_apart split: if_splits)
  show "load_u64 m a = Some v \<Longrightarrow> store_u64 m a w = Some m' \<Longrightarrow> store_u64 m' a v = Some m"
    by (auto simp: load_u64_def store_u64_def poke_poke_same poke_word_at_same split: if_splits)
  show "load_u64 m a = Some old \<Longrightarrow> store_u64 m a new = Some m' \<Longrightarrow>
     compare_exchange m a old new = Some (Inr old, m')"
    by (simp add: compare_exchange_def)
  show "load_u64 m a = Some v \<Longrightarrow> v \<noteq> old \<Longrightarrow> compare_exchange m a old new = Some (Inl v, m)"
    by (simp add: compare_exchange_def)
  show "load_u64 m a = None \<Longrightarrow> compare_exchange m a old new = None"
    by (simp add: compare_exchange_def)
qed

lemma store_u64_length: "store_u64 m a v = Some m' \<Longrightarrow> length m' = length m"
  by (auto simp: store_u64_def split: if_splits)

lemma write_bytes_length: "write_bytes m a bs = Some m' \<Longrightarrow> length m' = length m"
  by (auto simp: write_bytes_def split: if_splits)

lemma compare_exchange_length: "compare_exchange m a old new = Some (r, m') \<Longrightarrow> length m' = length m"
  by (erule seg.cas_cases) (auto dest: store_u64_length)

end
