(* ===== verification/Zc_Error.thy ===== *)
theory Zc_Error
  imports Zc_Prelude
begin

text \<open>
  The error type of the crate (\<open>zerochannel-core/src/error.rs\<close>), with the message each variant
  carries, and its \<open>Display\<close> implementation. A Rust \<open>Result<T, ZeroChannelError>\<close> is
  \<open>zc_error + 'a\<close>, with \<open>Inl\<close> for \<open>Err\<close>.
\<close>

datatype zc_error =
    InvalidArgument string
  | OsError string
  | Busy string
  | RoleConflict string

fun zc_error_fmt :: "zc_error \<Rightarrow> string" where
  "zc_error_fmt (InvalidArgument msg) = msg"
| "zc_error_fmt (OsError msg) = msg"
| "zc_error_fmt (Busy msg) = msg"
| "zc_error_fmt (RoleConflict msg) = msg"

type_synonym 'a zc_result = "zc_error + 'a"

end
