(* ===== verification/Zc_Metadata.thy ===== *)
theory Zc_Metadata
  imports Zc_Memory Zc_Error
begin

text \<open>
  The layout of a segment (\<open>zerochannel-core/src/metadata.rs\<close>): header offsets, slot stride, the
  magic latch, the element type tag, geometry checks, header initialisation and decoding.

  An accessor of the source that borrows a header field or a slot's control word
  (\<open>writer_owner(base)\<close>, \<open>seq_cell(base, ..)\<close>) is the address of that word here.
\<close>

unbundle bit_operations_syntax

subsection \<open>Layout constants\<close>

definition HEADER_BYTES :: usize where "HEADER_BYTES = 72"
definition OFF_MAGIC :: usize where "OFF_MAGIC = 0"
definition OFF_PAYLOAD_BYTES :: usize where "OFF_PAYLOAD_BYTES = 8"
definition OFF_ENTRY_COUNT :: usize where "OFF_ENTRY_COUNT = 16"
definition OFF_DTYPE :: usize where "OFF_DTYPE = 24"
definition OFF_SEGMENT_OWNER :: usize where "OFF_SEGMENT_OWNER = 32"
definition OFF_WRITER_OWNER :: usize where "OFF_WRITER_OWNER = 40"
definition OFF_ZC_READER_OWNER :: usize where "OFF_ZC_READER_OWNER = 48"
definition OFF_WRITE_INDEX :: usize where "OFF_WRITE_INDEX = 56"
definition OFF_LAST_ENTRY_SEQ :: usize where "OFF_LAST_ENTRY_SEQ = 64"

definition MAGIC :: u32 where "MAGIC = 0x5A43484E"
definition VERSION :: u32 where "VERSION = 1"

definition MAGIC_VERSION :: u64 where
  "MAGIC_VERSION = (push_bit 32 (ucast MAGIC)) OR (ucast VERSION)"

definition SLOT_ALIGN :: usize where "SLOT_ALIGN = 8"
definition READ_RETRIES :: nat where "READ_RETRIES = 4"

lemmas layout_consts [simp] =
  HEADER_BYTES_def OFF_MAGIC_def OFF_PAYLOAD_BYTES_def OFF_ENTRY_COUNT_def OFF_DTYPE_def
  OFF_SEGMENT_OWNER_def OFF_WRITER_OWNER_def OFF_ZC_READER_OWNER_def OFF_WRITE_INDEX_def
  OFF_LAST_ENTRY_SEQ_def SLOT_ALIGN_def

subsection \<open>Element types\<close>

datatype dtype = U8 | I64 | F64

fun dtype_code :: "dtype \<Rightarrow> u64" where
  "dtype_code U8 = 0"
| "dtype_code I64 = 1"
| "dtype_code F64 = 2"

definition name_of_code :: "u64 \<Rightarrow> string" where
  "name_of_code code =
     (if code = 0 then ''u8''
      else if code = 1 then ''i64''
      else if code = 2 then ''f64''
      else ''unknown'')"

definition dtype_name :: "dtype \<Rightarrow> string" where
  "dtype_name d = name_of_code (dtype_code d)"

text \<open>
  The implementors of the \<open>Element\<close> trait are \<open>u8\<close>, \<open>i64\<close> and \<open>f64\<close>, one per type tag, so a
  type parameter \<open>T: Element\<close> is its tag \<open>T::DTYPE\<close>; \<open>size_of\<close> is Rust's \<open>size_of::<T>()\<close>.
\<close>

fun size_of :: "dtype \<Rightarrow> usize" where
  "size_of U8 = 1"
| "size_of I64 = 8"
| "size_of F64 = 8"

subsection \<open>Geometry\<close>

definition entry_bytes :: "usize \<Rightarrow> usize" where
  "entry_bytes payload_bytes = SLOT_ALIGN + payload_bytes"

definition required_bytes :: "usize \<Rightarrow> usize \<Rightarrow> usize" where
  "required_bytes payload_bytes entry_count =
     HEADER_BYTES + entry_count * entry_bytes payload_bytes"

definition payload_offset :: "usize \<Rightarrow> usize \<Rightarrow> usize" where
  "payload_offset payload_bytes idx =
     HEADER_BYTES + idx * entry_bytes payload_bytes + SLOT_ALIGN"

definition is_multiple_of :: "usize \<Rightarrow> usize \<Rightarrow> bool" where
  "is_multiple_of a b = (if b = 0 then a = 0 else a mod b = 0)"

definition check_geometry :: "usize \<Rightarrow> usize \<Rightarrow> unit zc_result" where
  "check_geometry payload_bytes entry_count =
     (if payload_bytes = 0 \<or> entry_count = 0
      then Inl (InvalidArgument ''entry_length and entry_count must be non-zero'')
      else if \<not> is_multiple_of payload_bytes SLOT_ALIGN
      then Inl (InvalidArgument
        (''payload must be a multiple of '' @ show_u64 SLOT_ALIGN @
         '' bytes to keep slot entry_seq words aligned, got '' @ show_u64 payload_bytes))
      else Inr ())"

subsection \<open>The header\<close>

record header =
  hdr_payload_bytes :: usize
  hdr_entry_count :: usize
  hdr_write_index :: usize
  hdr_dtype :: u64
  hdr_last_entry_seq :: u64

definition check_dtype :: "header \<Rightarrow> dtype \<Rightarrow> unit zc_result" where
  "check_dtype header requested =
     (if requested = U8 \<or> hdr_dtype header = dtype_code requested then Inr ()
      else Inl (InvalidArgument
        (''dtype mismatch: channel holds '' @ name_of_code (hdr_dtype header) @
         '', requested '' @ dtype_name requested)))"

definition validate_header :: "header \<Rightarrow> usize \<Rightarrow> usize \<Rightarrow> unit zc_result" where
  "validate_header header payload_bytes entry_count =
     (if hdr_payload_bytes header \<noteq> payload_bytes \<or> hdr_entry_count header \<noteq> entry_count
      then Inl (InvalidArgument
        (''header mismatch: expected ('' @ show_u64 payload_bytes @ '' payload bytes, '' @
         show_u64 entry_count @ '' entries), found ('' @
         show_u64 (hdr_payload_bytes header) @ '' payload bytes, '' @
         show_u64 (hdr_entry_count header) @ '' entries)''))
      else Inr ())"

text \<open>
  \<open>init_header\<close> is a sequence of writes to the segment, in program order. A process that dies
  partway has performed a prefix of them.
\<close>

fun run_stores :: "(mem \<Rightarrow> mem option) list \<Rightarrow> mem \<Rightarrow> mem option" where
  "run_stores [] m = Some m"
| "run_stores (f # fs) m = do { m' \<leftarrow> f m; run_stores fs m' }"

definition init_header_stores ::
    "usize \<Rightarrow> usize \<Rightarrow> dtype \<Rightarrow> u64 \<Rightarrow> (mem \<Rightarrow> mem option) list" where
  "init_header_stores payload_bytes entry_count dtype owner_pid =
     [\<lambda>m. write_bytes m 0 (replicate (unat (required_bytes payload_bytes entry_count)) 0),
      \<lambda>m. store_u64 m OFF_PAYLOAD_BYTES payload_bytes,
      \<lambda>m. store_u64 m OFF_ENTRY_COUNT entry_count,
      \<lambda>m. store_u64 m OFF_DTYPE (dtype_code dtype),
      \<lambda>m. store_u64 m OFF_SEGMENT_OWNER owner_pid,
      \<lambda>m. store_u64 m OFF_MAGIC MAGIC_VERSION]"

definition init_header :: "mem \<Rightarrow> usize \<Rightarrow> usize \<Rightarrow> dtype \<Rightarrow> u64 \<Rightarrow> mem option" where
  "init_header base payload_bytes entry_count dtype owner_pid =
     run_stores (init_header_stores payload_bytes entry_count dtype owner_pid) base"

definition read_header :: "mem \<Rightarrow> (header option) zc_result option" where
  "read_header base =
     do {
       magic \<leftarrow> load_u64 base OFF_MAGIC;
       if magic = 0 then Some (Inr None)
       else if magic \<noteq> MAGIC_VERSION
       then
         (if drop_bit 32 magic \<noteq> ucast MAGIC
          then Some (Inl (InvalidArgument ''shared memory segment is not a ZeroChannel ring''))
          else Some (Inl (InvalidArgument
            (''ZeroChannel layout version mismatch: segment is v'' @
             show_u64 (magic AND 0xFFFFFFFF) @ '', this build speaks v'' @
             show_nat (unat VERSION)))))
       else do {
         payload_bytes \<leftarrow> load_u64 base OFF_PAYLOAD_BYTES;
         entry_count \<leftarrow> load_u64 base OFF_ENTRY_COUNT;
         write_index \<leftarrow> load_u64 base OFF_WRITE_INDEX;
         dtype \<leftarrow> load_u64 base OFF_DTYPE;
         last_entry_seq \<leftarrow> load_u64 base OFF_LAST_ENTRY_SEQ;
         Some (Inr (Some \<lparr>hdr_payload_bytes = payload_bytes, hdr_entry_count = entry_count,
           hdr_write_index = write_index, hdr_dtype = dtype,
           hdr_last_entry_seq = last_entry_seq\<rparr>))
       }
     }"

subsection \<open>Addresses of the header's cells and of a slot's control word\<close>

definition segment_owner :: usize where "segment_owner = OFF_SEGMENT_OWNER"
definition writer_owner :: usize where "writer_owner = OFF_WRITER_OWNER"
definition zc_reader_owner :: usize where "zc_reader_owner = OFF_ZC_READER_OWNER"
definition high_watermark :: usize where "high_watermark = OFF_LAST_ENTRY_SEQ"

definition seq_cell :: "usize \<Rightarrow> usize \<Rightarrow> usize" where
  "seq_cell payload_bytes idx = HEADER_BYTES + idx * entry_bytes payload_bytes"

lemmas cell_addrs [simp] =
  segment_owner_def writer_owner_def zc_reader_owner_def high_watermark_def

end
