(* ===== verification/Zc_Segment.thy ===== *)
theory Zc_Segment
  imports Zc_Metadata
begin

text \<open>
  A segment seen as a header of nine words and an array of slots, each a control word and a
  payload. The lemmas here say which bytes every access of the ring protocol touches: on a segment
  that is large enough for its geometry each access is inside the mapping and aligned, and
  accesses to different words or payloads do not interfere. The writer and the reader use the
  segment through the interface \<open>slot_array\<close> only.
\<close>

subsection \<open>Well-formed geometry\<close>

definition seg_geom :: "usize \<Rightarrow> usize \<Rightarrow> nat \<Rightarrow> bool" where
  "seg_geom pb n len \<longleftrightarrow>
     0 < unat pb \<and> 0 < unat n \<and> 8 dvd unat pb \<and>
     72 + unat n * (8 + unat pb) \<le> len \<and> len < 2 ^ 63"

definition slot_off :: "usize \<Rightarrow> nat \<Rightarrow> nat" where
  "slot_off pb i = 72 + i * (8 + unat pb)"

lemma slot_off_end:
  "i < unat n \<Longrightarrow> slot_off pb i + (8 + unat pb) \<le> 72 + unat n * (8 + unat pb)"
proof -
  assume "i < unat n"
  then have "Suc i * (8 + unat pb) \<le> unat n * (8 + unat pb)"
    by (intro mult_le_mono1) simp
  then show ?thesis by (simp add: slot_off_def)
qed

lemma slot_off_in:
  "seg_geom pb n len \<Longrightarrow> i < unat n \<Longrightarrow> slot_off pb i + 8 + unat pb \<le> len"
  using slot_off_end [of i n pb] by (simp add: seg_geom_def)

lemma slot_off_aligned: "8 dvd unat pb \<Longrightarrow> 8 dvd slot_off pb i"
  by (auto simp: slot_off_def)

lemma slot_off_ge: "72 \<le> slot_off pb i"
  by (simp add: slot_off_def)

lemma slot_off_apart:
  assumes "i < j"
  shows "slot_off pb i + 8 + unat pb \<le> slot_off pb j"
proof -
  have "Suc i * (8 + unat pb) \<le> j * (8 + unat pb)"
    using assms by (intro mult_le_mono1) simp
  then show ?thesis by (simp add: slot_off_def)
qed

lemma slot_off_apart':
  "i \<noteq> j \<Longrightarrow>
   slot_off pb i + 8 + unat pb \<le> slot_off pb j \<or> slot_off pb j + 8 + unat pb \<le> slot_off pb i"
  using slot_off_apart [of i j pb] slot_off_apart [of j i pb] by (cases i j rule: linorder_cases) auto

text \<open>The machine arithmetic of the source computes the intended offsets.\<close>

lemma unat_entry_bytes: "unat pb + 8 < 2 ^ 64 \<Longrightarrow> unat (entry_bytes pb) = 8 + unat pb"
  by (simp add: entry_bytes_def SLOT_ALIGN_def unat_add_no_wrap)

lemma unat_seq_cell:
  assumes "seg_geom pb n len" "unat idx < unat n"
  shows "unat (seq_cell pb idx) = slot_off pb (unat idx)"
proof -
  from slot_off_in [OF assms] assms(1) have b: "slot_off pb (unat idx) + 8 + unat pb < 2 ^ 63"
    by (simp add: seg_geom_def)
  then have e: "unat (entry_bytes pb) = 8 + unat pb"
    by (intro unat_entry_bytes) simp
  with b have "unat (idx * entry_bytes pb) = unat idx * (8 + unat pb)"
    by (subst unat_mult_no_wrap) (auto simp: slot_off_def)
  with b show ?thesis
    unfolding seq_cell_def HEADER_BYTES_def
    by (subst unat_add_no_wrap) (auto simp: slot_off_def)
qed

lemma unat_payload_offset:
  assumes "seg_geom pb n len" "unat idx < unat n"
  shows "unat (payload_offset pb idx) = slot_off pb (unat idx) + 8"
proof -
  have "payload_offset pb idx = seq_cell pb idx + 8"
    by (simp add: payload_offset_def seq_cell_def SLOT_ALIGN_def)
  moreover have "slot_off pb (unat idx) + 8 + unat pb < 2 ^ 63"
    using slot_off_in [OF assms] assms(1) by (simp add: seg_geom_def)
  ultimately show ?thesis
    by (simp add: unat_add_no_wrap unat_seq_cell [OF assms])
qed

subsection \<open>Views and updates of slots and header words\<close>

definition seq_at :: "usize \<Rightarrow> mem \<Rightarrow> nat \<Rightarrow> i64" where
  "seq_at pb m i = word_at m (slot_off pb i)"

definition pay_at :: "usize \<Rightarrow> mem \<Rightarrow> nat \<Rightarrow> byte list" where
  "pay_at pb m i = bytes_at m (slot_off pb i + 8) (unat pb)"

definition set_seq :: "usize \<Rightarrow> mem \<Rightarrow> nat \<Rightarrow> i64 \<Rightarrow> mem" where
  "set_seq pb m i v = poke m (slot_off pb i) (u64_to_le v)"

definition set_pay :: "usize \<Rightarrow> mem \<Rightarrow> nat \<Rightarrow> byte list \<Rightarrow> mem" where
  "set_pay pb m i bs = poke m (slot_off pb i + 8) bs"

definition hdr_at :: "mem \<Rightarrow> usize \<Rightarrow> u64" where
  "hdr_at m off = word_at m (unat off)"

definition set_hdr :: "mem \<Rightarrow> usize \<Rightarrow> u64 \<Rightarrow> mem" where
  "set_hdr m off v = poke m (unat off) (u64_to_le v)"

definition hdr_off :: "usize \<Rightarrow> bool" where
  "hdr_off off \<longleftrightarrow> 8 dvd unat off \<and> unat off < 72"

lemma hdr_off_consts [simp]:
  "hdr_off 0" "hdr_off 8" "hdr_off 16" "hdr_off 24" "hdr_off 32" "hdr_off 40" "hdr_off 48"
  "hdr_off 56" "hdr_off 64"
  by (simp_all add: hdr_off_def)

lemma hdr_off_end: "hdr_off off \<Longrightarrow> unat off + 8 \<le> 72"
  unfolding hdr_off_def by (elim conjE dvdE) simp

lemma hdr_off_apart: "hdr_off a \<Longrightarrow> hdr_off b \<Longrightarrow> a \<noteq> b \<Longrightarrow> unat a + 8 \<le> unat b \<or> unat b + 8 \<le> unat a"
  by (auto simp: hdr_off_def u64_eq_iff elim!: dvdE)

text \<open>
  The interface of a slot array: control words and payloads are independent cells, and so are
  different slots.
\<close>

locale slot_array =
  fixes wf :: "'s \<Rightarrow> bool"
    and count :: nat
    and width :: nat
    and gseq :: "'s \<Rightarrow> nat \<Rightarrow> i64"
    and gpay :: "'s \<Rightarrow> nat \<Rightarrow> byte list"
    and sseq :: "'s \<Rightarrow> nat \<Rightarrow> i64 \<Rightarrow> 's"
    and spay :: "'s \<Rightarrow> nat \<Rightarrow> byte list \<Rightarrow> 's"
  assumes wf_sseq: "wf s \<Longrightarrow> i < count \<Longrightarrow> wf (sseq s i v)"
    and wf_spay: "wf s \<Longrightarrow> i < count \<Longrightarrow> length bs = width \<Longrightarrow> wf (spay s i bs)"
    and gseq_sseq: "wf s \<Longrightarrow> i < count \<Longrightarrow> j < count \<Longrightarrow>
       gseq (sseq s i v) j = (if i = j then v else gseq s j)"
    and gpay_sseq: "wf s \<Longrightarrow> i < count \<Longrightarrow> j < count \<Longrightarrow> gpay (sseq s i v) j = gpay s j"
    and gseq_spay: "wf s \<Longrightarrow> i < count \<Longrightarrow> j < count \<Longrightarrow> length bs = width \<Longrightarrow>
       gseq (spay s i bs) j = gseq s j"
    and gpay_spay: "wf s \<Longrightarrow> i < count \<Longrightarrow> j < count \<Longrightarrow> length bs = width \<Longrightarrow>
       gpay (spay s i bs) j = (if i = j then bs else gpay s j)"
    and gpay_width: "wf s \<Longrightarrow> i < count \<Longrightarrow> length (gpay s i) = width"
begin

text \<open>The array as a list of control words and a list of payloads.\<close>

lemma seqs_sseq:
  "wf s \<Longrightarrow> i < count \<Longrightarrow> map (gseq (sseq s i v)) [0..<count] = (map (gseq s) [0..<count])[i := v]"
  by (rule nth_equalityI) (auto simp: gseq_sseq nth_list_update)

lemma pays_sseq:
  "wf s \<Longrightarrow> i < count \<Longrightarrow> map (gpay (sseq s i v)) [0..<count] = map (gpay s) [0..<count]"
  by (simp add: gpay_sseq)

lemma seqs_spay:
  "wf s \<Longrightarrow> i < count \<Longrightarrow> length bs = width \<Longrightarrow>
   map (gseq (spay s i bs)) [0..<count] = map (gseq s) [0..<count]"
  by (simp add: gseq_spay)

lemma pays_spay:
  "wf s \<Longrightarrow> i < count \<Longrightarrow> length bs = width \<Longrightarrow>
   map (gpay (spay s i bs)) [0..<count] = (map (gpay s) [0..<count])[i := bs]"
  by (rule nth_equalityI) (auto simp: gpay_spay nth_list_update)

lemma pays_width: "wf s \<Longrightarrow> \<forall>p \<in> set (map (gpay s) [0..<count]). length p = width"
  by (simp add: gpay_width)

end

interpretation slots: slot_array
  "\<lambda>m. seg_geom pb n (length m)" "unat n" "unat pb"
  "seq_at pb" "pay_at pb" "set_seq pb" "set_pay pb"
  for pb n
proof
  fix m :: mem and i j :: nat and v :: i64 and bs :: "byte list"
  assume g: "seg_geom pb n (length m)" and i: "i < unat n"
  note in_i = slot_off_in [OF g i]
  show "seg_geom pb n (length (set_seq pb m i v))"
    using g in_i by (simp add: set_seq_def)
  show "length (pay_at pb m i) = unat pb"
    using in_i by (simp add: pay_at_def length_bytes_at)
  show "length bs = unat pb \<Longrightarrow> seg_geom pb n (length (set_pay pb m i bs))"
    using g in_i by (simp add: set_pay_def)
  assume j: "j < unat n"
  note in_j = slot_off_in [OF g j]
  show "seq_at pb (set_seq pb m i v) j = (if i = j then v else seq_at pb m j)"
    using in_i in_j slot_off_apart' [of i j pb]
    by (auto simp: seq_at_def set_seq_def word_at_poke_same intro!: word_at_poke_apart)
  show "pay_at pb (set_seq pb m i v) j = pay_at pb m j"
    using in_i in_j slot_off_apart' [of i j pb]
    by (cases "i = j") (auto simp: pay_at_def set_seq_def intro!: bytes_at_poke_apart)
  assume bs: "length bs = unat pb"
  show "seq_at pb (set_pay pb m i bs) j = seq_at pb m j"
    using in_i in_j bs slot_off_apart' [of i j pb]
    by (cases "i = j") (auto simp: seq_at_def set_pay_def intro!: word_at_poke_apart)
  show "pay_at pb (set_pay pb m i bs) j = (if i = j then bs else pay_at pb m j)"
    using in_i in_j bs slot_off_apart' [of i j pb] bytes_at_poke_same [of "slot_off pb i + 8" bs m]
    by (auto simp: pay_at_def set_pay_def intro!: bytes_at_poke_apart)
qed

subsection \<open>The header words are independent of each other and of the slots\<close>

lemma hdr_at_set_seq [simp]:
  assumes "seg_geom pb n (length m)" "i < unat n" "hdr_off off"
  shows "hdr_at (set_seq pb m i v) off = hdr_at m off"
  using slot_off_in [OF assms(1,2)] slot_off_ge [of pb i] hdr_off_end [OF assms(3)]
  by (auto simp: hdr_at_def set_seq_def intro!: word_at_poke_apart)

lemma hdr_at_set_pay [simp]:
  assumes "seg_geom pb n (length m)" "i < unat n" "hdr_off off" "length bs = unat pb"
  shows "hdr_at (set_pay pb m i bs) off = hdr_at m off"
  using slot_off_in [OF assms(1,2)] slot_off_ge [of pb i] hdr_off_end [OF assms(3)] assms(4)
  by (auto simp: hdr_at_def set_pay_def intro!: word_at_poke_apart)

lemma hdr_at_set_hdr:
  assumes "72 \<le> length m" "hdr_off a" "hdr_off b"
  shows "hdr_at (set_hdr m a v) b = (if a = b then v else hdr_at m b)"
  using assms hdr_off_end [OF assms(2)] hdr_off_apart [OF assms(2,3)]
  by (auto simp: hdr_at_def set_hdr_def word_at_poke_same intro!: word_at_poke_apart)

lemma length_set_hdr [simp]: "72 \<le> length m \<Longrightarrow> hdr_off off \<Longrightarrow> length (set_hdr m off v) = length m"
  using hdr_off_end [of off] by (simp add: set_hdr_def)

lemma seg_geom_72: "seg_geom pb n len \<Longrightarrow> 72 \<le> len"
  by (simp add: seg_geom_def)

lemma seq_at_set_hdr [simp]:
  assumes "seg_geom pb n (length m)" "i < unat n" "hdr_off off"
  shows "seq_at pb (set_hdr m off v) i = seq_at pb m i"
  using slot_off_in [OF assms(1,2)] slot_off_ge [of pb i] hdr_off_end [OF assms(3)]
  by (auto simp: seq_at_def set_hdr_def intro!: word_at_poke_apart)

lemma pay_at_set_hdr [simp]:
  assumes "seg_geom pb n (length m)" "i < unat n" "hdr_off off"
  shows "pay_at pb (set_hdr m off v) i = pay_at pb m i"
  using slot_off_in [OF assms(1,2)] slot_off_ge [of pb i] hdr_off_end [OF assms(3)]
  by (auto simp: pay_at_def set_hdr_def intro!: bytes_at_poke_apart)

subsection \<open>The checked accesses of the protocol are defined\<close>

lemma load_seq_cell [simp]:
  assumes "seg_geom pb n (length m)" "unat idx < unat n"
  shows "load_u64 m (seq_cell pb idx) = Some (seq_at pb m (unat idx))"
  using slot_off_in [OF assms] assms(1) slot_off_aligned [of pb "unat idx"]
  by (simp add: load_u64_def unat_seq_cell [OF assms] seq_at_def seg_geom_def)

lemma store_seq_cell [simp]:
  assumes "seg_geom pb n (length m)" "unat idx < unat n"
  shows "store_u64 m (seq_cell pb idx) v = Some (set_seq pb m (unat idx) v)"
  using slot_off_in [OF assms] assms(1) slot_off_aligned [of pb "unat idx"]
  by (simp add: store_u64_def unat_seq_cell [OF assms] set_seq_def seg_geom_def)

lemma cas_seq_cell [simp]:
  assumes "seg_geom pb n (length m)" "unat idx < unat n"
  shows "compare_exchange m (seq_cell pb idx) old new =
     Some (if seq_at pb m (unat idx) = old then (Inr old, set_seq pb m (unat idx) new)
           else (Inl (seq_at pb m (unat idx)), m))"
  by (simp add: compare_exchange_def load_seq_cell [OF assms] store_seq_cell [OF assms])

lemma read_payload [simp]:
  assumes "seg_geom pb n (length m)" "unat idx < unat n"
  shows "read_bytes m (payload_offset pb idx) pb = Some (pay_at pb m (unat idx))"
  using slot_off_in [OF assms]
  by (simp add: read_bytes_def unat_payload_offset [OF assms] pay_at_def)

lemma write_payload [simp]:
  assumes "seg_geom pb n (length m)" "unat idx < unat n" "length bs = unat pb"
  shows "write_bytes m (payload_offset pb idx) bs = Some (set_pay pb m (unat idx) bs)"
  using slot_off_in [OF assms(1,2)] assms(3)
  by (simp add: write_bytes_def unat_payload_offset [OF assms(1,2)] set_pay_def)

lemma load_hdr [simp]: "72 \<le> length m \<Longrightarrow> hdr_off off \<Longrightarrow> load_u64 m off = Some (hdr_at m off)"
  using hdr_off_end [of off] by (simp add: load_u64_def hdr_at_def hdr_off_def)

lemma store_hdr [simp]: "72 \<le> length m \<Longrightarrow> hdr_off off \<Longrightarrow> store_u64 m off v = Some (set_hdr m off v)"
  using hdr_off_end [of off] by (simp add: store_u64_def set_hdr_def hdr_off_def)

lemma cas_hdr [simp]:
  "72 \<le> length m \<Longrightarrow> hdr_off off \<Longrightarrow> compare_exchange m off old new =
     Some (if hdr_at m off = old then (Inr old, set_hdr m off new) else (Inl (hdr_at m off), m))"
  by (simp add: compare_exchange_def)

text \<open>One byte of a payload.\<close>

lemma poke_byte_payload:
  assumes "seg_geom pb n (length m)" "i < unat n" "k < unat pb"
  shows "poke m (slot_off pb i + 8 + k) [b] = set_pay pb m i ((pay_at pb m i)[k := b])"
proof -
  note o = slot_off_in [OF assms(1,2)]
  have l: "length ((pay_at pb m i)[k := b]) = unat pb"
    using slots.gpay_width [OF assms(1,2)] by simp
  show ?thesis
    unfolding set_pay_def
  proof (rule nth_equalityI)
    show "length (poke m (slot_off pb i + 8 + k) [b]) =
        length (poke m (slot_off pb i + 8) ((pay_at pb m i)[k := b]))"
      using o l assms(3) by simp
    fix j assume "j < length (poke m (slot_off pb i + 8 + k) [b])"
    then have "j < length m" using o assms(3) by simp
    then show "poke m (slot_off pb i + 8 + k) [b] ! j =
        poke m (slot_off pb i + 8) ((pay_at pb m i)[k := b]) ! j"
      using o l assms(3) by (auto simp: nth_poke nth_list_update pay_at_def bytes_at_def)
  qed
qed

lemma write_payload_byte:
  assumes "seg_geom pb n (length m)" "unat idx < unat n" "k < unat pb"
  shows "write_bytes m (payload_offset pb idx + word_of_nat k) [b] =
     Some (set_pay pb m (unat idx) ((pay_at pb m (unat idx))[k := b]))"
proof -
  note o = slot_off_in [OF assms(1,2)]
  have k: "unat (word_of_nat k :: usize) = k"
    using assms(3) by (rule unat_of_nat_below)
  have "unat (payload_offset pb idx + word_of_nat k) = slot_off pb (unat idx) + 8 + k"
    using o assms(1,3) unat_payload_offset [OF assms(1,2)]
    by (subst unat_add_no_wrap) (auto simp: k seg_geom_def)
  with o assms(3) poke_byte_payload [OF assms] show ?thesis
    by (simp add: write_bytes_def)
qed

lemma set_pay_same:
  assumes "seg_geom pb n (length m)" "i < unat n"
  shows "set_pay pb m i (pay_at pb m i) = m"
  using slot_off_in [OF assms] by (auto simp: set_pay_def pay_at_def intro!: poke_bytes_at_same)

end
