(* ===== verification/Zc_Layout.thy ===== *)
theory Zc_Layout
  imports Zc_Segment
begin

text \<open>
  Correctness of the segment layout: the geometry check makes every control word aligned and every
  slot disjoint from the others and inside the allocation, as long as the size computation does
  not wrap; initialisation followed by decoding returns the geometry; the magic word is a latch;
  foreign segments and other layout versions are refused.
\<close>

subsection \<open>Geometry\<close>

lemma check_geometry_ok:
  "check_geometry pb n = Inr () \<longleftrightarrow> pb \<noteq> 0 \<and> n \<noteq> 0 \<and> 8 dvd unat pb"
proof -
  have "is_multiple_of pb SLOT_ALIGN \<longleftrightarrow> 8 dvd unat pb"
    by (simp add: is_multiple_of_def SLOT_ALIGN_def u64_eq_iff unat_mod_u64 dvd_eq_mod_eq_0)
  then show ?thesis by (simp add: check_geometry_def)
qed

definition no_wrap :: "usize \<Rightarrow> usize \<Rightarrow> bool" where
  "no_wrap pb n \<longleftrightarrow> 72 + unat n * (8 + unat pb) < 2 ^ 64"

lemma unat_required_bytes:
  assumes "no_wrap pb n" "n \<noteq> 0"
  shows "unat (required_bytes pb n) = 72 + unat n * (8 + unat pb)"
proof -
  have n: "1 \<le> unat n" using assms(2) by (simp add: unat_gt_0 Suc_le_eq)
  then have "8 + unat pb \<le> unat n * (8 + unat pb)" by simp
  with assms(1) have "unat pb + 8 < 2 ^ 64"
    unfolding no_wrap_def by linarith
  then have e: "unat (entry_bytes pb) = 8 + unat pb" by (rule unat_entry_bytes)
  with assms(1) have "unat (n * entry_bytes pb) = unat n * (8 + unat pb)"
    by (subst unat_mult_no_wrap) (auto simp: no_wrap_def)
  with assms(1) show ?thesis
    unfolding required_bytes_def HEADER_BYTES_def
    by (subst unat_add_no_wrap) (auto simp: no_wrap_def)
qed

lemma seg_geom_of_check:
  assumes "check_geometry pb n = Inr ()" "no_wrap pb n"
    and "unat (required_bytes pb n) \<le> len" "len < 2 ^ 63"
  shows "seg_geom pb n len"
  using assms by (simp add: seg_geom_def check_geometry_ok unat_required_bytes unat_gt_0)

lemma seg_geom_no_wrap: "seg_geom pb n len \<Longrightarrow> no_wrap pb n \<and> n \<noteq> 0"
  by (auto simp: seg_geom_def no_wrap_def)

lemma geometry_sound_facts:
  assumes "check_geometry pb n = Inr ()" "no_wrap pb n" "unat (required_bytes pb n) < 2 ^ 63"
    and "i < n"
  shows "8 dvd unat (seq_cell pb i)"
    and "unat (payload_offset pb i) = unat (seq_cell pb i) + 8"
    and "72 \<le> unat (seq_cell pb i)"
    and "unat (payload_offset pb i) + unat pb \<le> unat (required_bytes pb n)"
    and "j < i \<Longrightarrow> unat (payload_offset pb j) + unat pb \<le> unat (seq_cell pb i)"
proof -
  have g: "seg_geom pb n (unat (required_bytes pb n))"
    using assms(1,2,3) by (intro seg_geom_of_check) auto
  have i: "unat i < unat n" using assms(4) by (simp add: word_less_nat_alt)
  note cells = unat_seq_cell [OF g i] unat_payload_offset [OF g i]
  show "8 dvd unat (seq_cell pb i)"
    using assms(1) by (simp add: cells check_geometry_ok slot_off_aligned)
  show "unat (payload_offset pb i) = unat (seq_cell pb i) + 8" by (simp add: cells)
  show "72 \<le> unat (seq_cell pb i)" by (simp add: cells slot_off_ge)
  show "unat (payload_offset pb i) + unat pb \<le> unat (required_bytes pb n)"
    using slot_off_in [OF g i] by (simp add: cells)
  show "j < i \<Longrightarrow> unat (payload_offset pb j) + unat pb \<le> unat (seq_cell pb i)"
    using slot_off_apart [of "unat j" "unat i" pb] unat_payload_offset [OF g, of j] i
    by (simp add: cells word_less_nat_alt)
qed

text \<open>
  C31: When \<open>check_geometry\<close> accepts and the size computation does not wrap, the slots tile the
  allocation: the control word of every slot is 8-aligned, its payload follows it, the slot ends
  inside \<open>required_bytes\<close>, and the slots of two different indices do not overlap.
\<close>
theorem geometry_sound:
  assumes "check_geometry pb n = Inr ()" "no_wrap pb n" "unat (required_bytes pb n) < 2 ^ 63"
    and "i < n"
  shows "8 dvd unat (seq_cell pb i) \<and>
     unat (payload_offset pb i) = unat (seq_cell pb i) + 8 \<and>
     72 \<le> unat (seq_cell pb i) \<and>
     unat (payload_offset pb i) + unat pb \<le> unat (required_bytes pb n) \<and>
     (j < i \<longrightarrow> unat (payload_offset pb j) + unat pb \<le> unat (seq_cell pb i))"
  using geometry_sound_facts [OF assms] by blast

theorem geometry_sound_witness:
  "8 dvd unat (seq_cell 16 2) \<and> unat (payload_offset 16 1) + 16 \<le> unat (seq_cell 16 2)"
  using geometry_sound [of 16 4 2 1]
  by (simp add: check_geometry_ok no_wrap_def required_bytes_def entry_bytes_def)

lemma last_below:
  fixes a b e :: nat
  assumes "0 < e" "b < a"
  obtains k where "b + k * e < a" "a \<le> b + Suc k * e"
proof
  let ?k = "(a - 1 - b) div e"
  show "b + ?k * e < a" using div_times_less_eq_dividend [of "a - 1 - b" e] assms(2) by linarith
  show "a \<le> b + Suc ?k * e" using dividend_less_times_div [OF assms(1), of "a - 1 - b"] by (simp add: mult.commute)
qed

text \<open>The size of an accepted geometry that wraps, and its first slot that is not inside.\<close>

lemma wrapping_slot:
  assumes "check_geometry pb n = Inr ()" "\<not> no_wrap pb n"
  shows "\<exists>i < n. unat (required_bytes pb n) < unat (seq_cell pb i) + 8 \<or>
     unat (required_bytes pb n) < unat (payload_offset pb i) + unat pb"
proof (cases "unat pb + 8 < 2 ^ 64")
  case False
  have n: "0 < n" using assms(1) by (simp add: check_geometry_ok word_gt_0)
  have "unat (payload_offset pb 0) = 80" by (simp add: payload_offset_def HEADER_BYTES_def SLOT_ALIGN_def)
  with False have "2 ^ 64 \<le> unat (payload_offset pb 0) + unat pb" by simp
  moreover have "unat (required_bytes pb n) < 2 ^ 64" by simp
  ultimately have "unat (required_bytes pb n) < unat (payload_offset pb 0) + unat pb" by linarith
  with n show ?thesis by blast
next
  case True
  let ?e = "8 + unat pb"
  obtain k where low: "72 + k * ?e < 2 ^ 64" and up: "2 ^ 64 \<le> 72 + Suc k * ?e"
    by (rule last_below [of ?e 72 "2 ^ 64"]) simp_all
  have e: "unat (entry_bytes pb) = ?e" using True by (rule unat_entry_bytes)
  have kn: "k < unat n"
  proof (rule ccontr)
    assume "\<not> k < unat n"
    then have "unat n * ?e \<le> k * ?e" by (intro mult_le_mono1) simp
    with low assms(2) show False by (simp add: no_wrap_def)
  qed
  let ?i = "word_of_nat k :: usize"
  have ui: "unat ?i = k" using kn by (rule unat_of_nat_below)
  have "unat (?i * entry_bytes pb) = k * ?e" using low by (subst unat_mult_no_wrap) (simp_all add: ui e)
  then have cell: "unat (seq_cell pb ?i) = 72 + k * ?e"
    unfolding seq_cell_def HEADER_BYTES_def using low by (subst unat_add_no_wrap) simp_all
  have pay: "payload_offset pb ?i = seq_cell pb ?i + 8"
    by (simp add: payload_offset_def seq_cell_def SLOT_ALIGN_def)
  have r: "unat (required_bytes pb n) < 2 ^ 64" by simp
  show ?thesis
  proof (cases "unat (seq_cell pb ?i) + 8 < 2 ^ 64")
    case True
    then have "unat (payload_offset pb ?i) = 72 + k * ?e + 8"
      using cell by (simp add: pay unat_add_no_wrap)
    with up have "2 ^ 64 \<le> unat (payload_offset pb ?i) + unat pb" by simp
    with r have "unat (required_bytes pb n) < unat (payload_offset pb ?i) + unat pb" by linarith
    with kn ui show ?thesis by (intro exI [of _ ?i]) (simp add: word_less_nat_alt)
  next
    case False
    with r have "unat (required_bytes pb n) < unat (seq_cell pb ?i) + 8" by linarith
    with kn ui show ?thesis by (intro exI [of _ ?i]) (simp add: word_less_nat_alt)
  qed
qed

lemma slot_inside:
  assumes "no_wrap pb n" "i < n"
  shows "unat (seq_cell pb i) + 8 \<le> unat (required_bytes pb n)"
    and "unat (payload_offset pb i) + unat pb \<le> unat (required_bytes pb n)"
proof -
  let ?e = "8 + unat pb"
  have i: "Suc (unat i) \<le> unat n" using assms(2) by (simp add: word_less_nat_alt)
  then have le: "unat i * ?e + ?e \<le> unat n * ?e" using mult_le_mono1 [of "Suc (unat i)" "unat n" ?e] by simp
  have r: "unat (required_bytes pb n) = 72 + unat n * ?e" using assms by (intro unat_required_bytes) auto
  have e: "unat (entry_bytes pb) = ?e" using le assms(1) by (intro unat_entry_bytes) (simp add: no_wrap_def)
  have "unat (i * entry_bytes pb) = unat i * ?e"
    using le assms(1) by (subst unat_mult_no_wrap) (simp_all add: e no_wrap_def)
  then have cell: "unat (seq_cell pb i) = 72 + unat i * ?e"
    unfolding seq_cell_def HEADER_BYTES_def using le assms(1) by (subst unat_add_no_wrap) (simp_all add: no_wrap_def)
  then show "unat (seq_cell pb i) + 8 \<le> unat (required_bytes pb n)" using le r by simp
  have "payload_offset pb i = seq_cell pb i + 8" by (simp add: payload_offset_def seq_cell_def SLOT_ALIGN_def)
  then have "unat (payload_offset pb i) = 72 + unat i * ?e + 8"
    using cell le assms(1) by (simp add: unat_add_no_wrap no_wrap_def)
  then show "unat (payload_offset pb i) + unat pb \<le> unat (required_bytes pb n)" using le r by simp
qed

text \<open>
  C34: The size computation is unguarded, and the guard that is missing is exactly that it must not
  wrap. For every geometry that \<open>check_geometry\<close> accepts, the slots as they are addressed, control
  word and payload, all lie inside an allocation of \<open>required_bytes\<close> bytes if and only if the size
  in unbounded arithmetic is below \<open>2 ^ 64\<close>. An accepted geometry of that size or more therefore has
  a slot that a writer or reader accesses outside the segment created for it.
\<close>
theorem geometry_inside_iff:
  assumes "check_geometry pb n = Inr ()"
  shows "(\<forall>i < n. unat (seq_cell pb i) + 8 \<le> unat (required_bytes pb n) \<and>
       unat (payload_offset pb i) + unat pb \<le> unat (required_bytes pb n)) \<longleftrightarrow>
     72 + unat n * (8 + unat pb) < 2 ^ 64"
  using slot_inside [of pb n] wrapping_slot [OF assms] unfolding no_wrap_def [symmetric]
  by (meson not_le)

theorem geometry_inside_iff_witness:
  "check_geometry 4294967288 4294967296 = Inr () \<and> required_bytes 4294967288 4294967296 = 72 \<and>
   \<not> (\<forall>i < 4294967296. unat (seq_cell 4294967288 i) + 8 \<le> unat (required_bytes 4294967288 4294967296) \<and>
       unat (payload_offset 4294967288 i) + 4294967288 \<le> unat (required_bytes 4294967288 4294967296))"
proof -
  have c: "check_geometry 4294967288 4294967296 = Inr ()" by (simp add: check_geometry_ok)
  moreover have "required_bytes 4294967288 4294967296 = 72" by (simp add: required_bytes_def entry_bytes_def)
  ultimately show ?thesis using geometry_inside_iff [OF c] by simp
qed

subsection \<open>Initialisation and decoding\<close>

lemma bytes_at_poke_replicate:
  assumes "k \<le> length m" "a + n \<le> k"
  shows "bytes_at (poke m 0 (replicate k x)) a n = replicate n x"
  using assms by (intro nth_equalityI) (auto simp: bytes_at_def nth_poke)

lemma u64_of_le_zeros: "u64_of_le (replicate 8 0) = 0"
  by (simp add: u64_of_le_def numeral_eq_Suc)

lemma word_at_poke_zeros:
  "k \<le> length m \<Longrightarrow> a + 8 \<le> k \<Longrightarrow> word_at (poke m 0 (replicate k 0)) a = 0"
  by (simp add: word_at_def bytes_at_poke_replicate u64_of_le_zeros)

definition zeroed :: "usize \<Rightarrow> usize \<Rightarrow> mem \<Rightarrow> mem" where
  "zeroed pb n m = poke m 0 (replicate (72 + unat n * (8 + unat pb)) 0)"

lemma zeroed_views:
  assumes "seg_geom pb n (length m)"
  shows "length (zeroed pb n m) = length m"
    and "hdr_off off \<Longrightarrow> hdr_at (zeroed pb n m) off = 0"
    and "i < unat n \<Longrightarrow> seq_at pb (zeroed pb n m) i = 0"
    and "i < unat n \<Longrightarrow> pay_at pb (zeroed pb n m) i = replicate (unat pb) 0"
proof -
  let ?k = "72 + unat n * (8 + unat pb)"
  have k: "?k \<le> length m" using assms by (simp add: seg_geom_def)
  then show "length (zeroed pb n m) = length m" by (simp add: zeroed_def)
  show "hdr_off off \<Longrightarrow> hdr_at (zeroed pb n m) off = 0"
    using k hdr_off_end [of off] unfolding zeroed_def hdr_at_def by (intro word_at_poke_zeros) auto
  assume i: "i < unat n"
  note e = slot_off_end [OF i, of pb]
  show "seq_at pb (zeroed pb n m) i = 0"
    unfolding zeroed_def seq_at_def by (rule word_at_poke_zeros [OF k]) (use e in simp)
  show "pay_at pb (zeroed pb n m) i = replicate (unat pb) 0"
    unfolding zeroed_def pay_at_def by (rule bytes_at_poke_replicate [OF k]) (use e in simp)
qed

lemma write_zeroed:
  assumes "seg_geom pb n (length m)"
  shows "write_bytes m 0 (replicate (unat (required_bytes pb n)) 0) = Some (zeroed pb n m)"
  using assms seg_geom_no_wrap [OF assms]
  by (simp add: write_bytes_def zeroed_def unat_required_bytes seg_geom_def)

definition initialized :: "usize \<Rightarrow> usize \<Rightarrow> dtype \<Rightarrow> u64 \<Rightarrow> mem \<Rightarrow> mem" where
  "initialized pb n d pid m =
     set_hdr (set_hdr (set_hdr (set_hdr (set_hdr (zeroed pb n m)
       OFF_PAYLOAD_BYTES pb) OFF_ENTRY_COUNT n) OFF_DTYPE (dtype_code d))
       OFF_SEGMENT_OWNER pid) OFF_MAGIC MAGIC_VERSION"

lemma init_header_eq:
  "seg_geom pb n (length m) \<Longrightarrow> init_header m pb n d pid = Some (initialized pb n d pid m)"
  using seg_geom_72 [of pb n "length m"]
  by (simp add: init_header_def init_header_stores_def initialized_def write_zeroed zeroed_views)

lemma initialized_views:
  assumes "seg_geom pb n (length m)"
  shows "length (initialized pb n d pid m) = length m"
    and "hdr_off off \<Longrightarrow> hdr_at (initialized pb n d pid m) off =
       (if off = OFF_MAGIC then MAGIC_VERSION
        else if off = OFF_SEGMENT_OWNER then pid
        else if off = OFF_DTYPE then dtype_code d
        else if off = OFF_ENTRY_COUNT then n
        else if off = OFF_PAYLOAD_BYTES then pb
        else 0)"
    and "i < unat n \<Longrightarrow> seq_at pb (initialized pb n d pid m) i = 0"
    and "i < unat n \<Longrightarrow> pay_at pb (initialized pb n d pid m) i = replicate (unat pb) 0"
  using assms seg_geom_72 [OF assms]
  by (auto simp: initialized_def zeroed_views hdr_at_set_hdr)

lemma MAGIC_VERSION_nonzero [simp]: "MAGIC_VERSION \<noteq> 0"
  by (simp add: MAGIC_VERSION_def MAGIC_def VERSION_def)

lemma read_header_valid:
  "72 \<le> length m \<Longrightarrow> hdr_at m OFF_MAGIC = MAGIC_VERSION \<Longrightarrow>
   read_header m = Some (Inr (Some
     \<lparr>hdr_payload_bytes = hdr_at m OFF_PAYLOAD_BYTES, hdr_entry_count = hdr_at m OFF_ENTRY_COUNT,
      hdr_write_index = hdr_at m OFF_WRITE_INDEX, hdr_dtype = hdr_at m OFF_DTYPE,
      hdr_last_entry_seq = hdr_at m OFF_LAST_ENTRY_SEQ\<rparr>))"
  by (simp add: read_header_def)

text \<open>
  Initialising a segment that is large enough succeeds, and decoding the result returns the
  geometry and type it was given, a fresh write cursor and an empty history; the creator owns the
  segment, both roles are free, every slot is empty and every payload is zero.
\<close>
theorem init_read_roundtrip:
  assumes "seg_geom pb n (length m)"
  shows "\<exists>m'. init_header m pb n d pid = Some m' \<and> length m' = length m \<and>
     read_header m' = Some (Inr (Some
       \<lparr>hdr_payload_bytes = pb, hdr_entry_count = n, hdr_write_index = 0,
        hdr_dtype = dtype_code d, hdr_last_entry_seq = 0\<rparr>)) \<and>
     load_u64 m' segment_owner = Some pid \<and> load_u64 m' writer_owner = Some 0 \<and>
     load_u64 m' zc_reader_owner = Some 0 \<and>
     (\<forall>i < n. load_u64 m' (seq_cell pb i) = Some 0 \<and>
        read_bytes m' (payload_offset pb i) pb = Some (replicate (unat pb) 0))"
proof -
  let ?m = "initialized pb n d pid m"
  have l: "length ?m = length m" using assms by (rule initialized_views)
  have g: "seg_geom pb n (length ?m)" using assms l by simp
  have 72: "72 \<le> length ?m" using g by (rule seg_geom_72)
  have "\<forall>i < n. load_u64 ?m (seq_cell pb i) = Some 0 \<and>
      read_bytes ?m (payload_offset pb i) pb = Some (replicate (unat pb) 0)"
    using g by (auto simp: word_less_nat_alt initialized_views [OF assms])
  moreover have "read_header ?m = Some (Inr (Some
       \<lparr>hdr_payload_bytes = pb, hdr_entry_count = n, hdr_write_index = 0,
        hdr_dtype = dtype_code d, hdr_last_entry_seq = 0\<rparr>))"
    using 72 by (subst read_header_valid) (simp_all add: initialized_views [OF assms])
  ultimately show ?thesis
    using 72 l by (intro exI [of _ ?m])
      (simp add: init_header_eq [OF assms] initialized_views [OF assms])
qed

theorem init_read_roundtrip_witness:
  "\<exists>m'. init_header (replicate 104 7) 8 2 F64 42 = Some m' \<and>
     load_u64 m' segment_owner = Some 42 \<and> load_u64 m' (seq_cell 8 1) = Some 0"
  using init_read_roundtrip [of 8 2 "replicate 104 7" F64 42]
  by (fastforce simp: seg_geom_def)

text \<open>
  The magic word is a latch. If a segment carries no magic when initialisation starts, then
  after any strict prefix of the writes of \<open>init_header\<close> it still decodes as uninitialised, so a
  peer never sees a half-written geometry.
\<close>
theorem init_header_latch:
  assumes "seg_geom pb n (length m)" "hdr_at m OFF_MAGIC = 0"
    and "k < length (init_header_stores pb n d pid)"
  shows "\<exists>m'. run_stores (take k (init_header_stores pb n d pid)) m = Some m' \<and>
     read_header m' = Some (Inr None)"
proof -
  note z = zeroed_views [OF assms(1)]
  have 72: "72 \<le> length m" using assms(1) by (rule seg_geom_72)
  have "k \<in> {0, 1, 2, 3, 4, 5}"
    using assms(3) by (auto simp: init_header_stores_def)
  then show ?thesis
    using 72 assms(2)
    by (auto simp: init_header_stores_def write_zeroed [OF assms(1)] z read_header_def
        hdr_at_set_hdr)
qed

theorem init_header_latch_witness:
  "\<exists>m'. run_stores (take 3 (init_header_stores 8 2 F64 42)) (replicate 104 0) = Some m' \<and>
     read_header m' = Some (Inr None)"
proof (rule init_header_latch)
  show "seg_geom 8 2 (length (replicate 104 (0 :: byte)))" by (simp add: seg_geom_def)
  show "hdr_at (replicate 104 0) OFF_MAGIC = 0"
    by (simp add: hdr_at_def word_at_def bytes_at_def u64_of_le_zeros
        take_replicate min_def)
  show "3 < length (init_header_stores 8 2 F64 42)" by (simp add: init_header_stores_def)
qed

subsection \<open>Refusals\<close>

lemma read_header_cases_facts:
  assumes "72 \<le> length m"
  shows "read_header m = Some (Inr None) \<longleftrightarrow> hdr_at m OFF_MAGIC = 0"
    and "(\<exists>h. read_header m = Some (Inr (Some h))) \<longleftrightarrow> hdr_at m OFF_MAGIC = MAGIC_VERSION"
    and "read_header m = Some (Inl (InvalidArgument ''shared memory segment is not a ZeroChannel ring''))
       \<longleftrightarrow> hdr_at m OFF_MAGIC \<noteq> 0 \<and> drop_bit 32 (hdr_at m OFF_MAGIC) \<noteq> ucast MAGIC"
    and "hdr_at m OFF_MAGIC \<noteq> 0 \<Longrightarrow> hdr_at m OFF_MAGIC \<noteq> MAGIC_VERSION \<Longrightarrow>
       \<exists>msg. read_header m = Some (Inl (InvalidArgument msg))"
proof -
  have mv: "drop_bit 32 MAGIC_VERSION = ucast MAGIC"
    by (simp add: MAGIC_VERSION_def MAGIC_def VERSION_def)
  show "read_header m = Some (Inr None) \<longleftrightarrow> hdr_at m OFF_MAGIC = 0"
    and "(\<exists>h. read_header m = Some (Inr (Some h))) \<longleftrightarrow> hdr_at m OFF_MAGIC = MAGIC_VERSION"
    and "hdr_at m OFF_MAGIC \<noteq> 0 \<Longrightarrow> hdr_at m OFF_MAGIC \<noteq> MAGIC_VERSION \<Longrightarrow>
       \<exists>msg. read_header m = Some (Inl (InvalidArgument msg))"
    using assms by (simp_all add: read_header_def)
  show "read_header m = Some (Inl (InvalidArgument ''shared memory segment is not a ZeroChannel ring''))
       \<longleftrightarrow> hdr_at m OFF_MAGIC \<noteq> 0 \<and> drop_bit 32 (hdr_at m OFF_MAGIC) \<noteq> ucast MAGIC"
    using assms mv by (auto simp: read_header_def)
qed

text \<open>
  Decoding is decided by the magic word alone: 0 is a segment without a header, the magic of
  this layout version decodes, any other value is refused with \<open>InvalidArgument\<close>: as foreign
  memory when the high half is not the magic, as another layout version when it is.
\<close>
theorem read_header_cases:
  assumes "72 \<le> length m"
  shows "(read_header m = Some (Inr None) \<longleftrightarrow> hdr_at m OFF_MAGIC = 0) \<and>
     ((\<exists>h. read_header m = Some (Inr (Some h))) \<longleftrightarrow> hdr_at m OFF_MAGIC = MAGIC_VERSION) \<and>
     (read_header m = Some (Inl (InvalidArgument ''shared memory segment is not a ZeroChannel ring''))
       \<longleftrightarrow> hdr_at m OFF_MAGIC \<noteq> 0 \<and> drop_bit 32 (hdr_at m OFF_MAGIC) \<noteq> ucast MAGIC) \<and>
     (hdr_at m OFF_MAGIC \<noteq> 0 \<longrightarrow> hdr_at m OFF_MAGIC \<noteq> MAGIC_VERSION \<longrightarrow>
       (\<exists>msg. read_header m = Some (Inl (InvalidArgument msg))))"
  using read_header_cases_facts [OF assms] by blast

theorem read_header_cases_witness:
  "read_header (replicate 72 1) =
     Some (Inl (InvalidArgument ''shared memory segment is not a ZeroChannel ring''))"
proof -
  have "replicate 8 1 = [1, 1, 1, 1, 1, 1, 1, 1 :: byte]"
    by (simp add: numeral_eq_Suc)
  then have "hdr_at (replicate 72 1) OFF_MAGIC = 0x0101010101010101"
    by (simp add: hdr_at_def word_at_def bytes_at_def u64_of_le_def take_replicate min_def)
  then show ?thesis
    using read_header_cases [of "replicate 72 1"] by (simp add: MAGIC_def)
qed

text \<open>
  A header passes both attach-time checks exactly when its sizes are the requested ones and
  its type tag is the requested one or the request is for opaque bytes.
\<close>
theorem header_checks_iff:
  "(validate_header h pb n = Inr () \<and> check_dtype h d = Inr ()) \<longleftrightarrow>
   hdr_payload_bytes h = pb \<and> hdr_entry_count h = n \<and> (d = U8 \<or> hdr_dtype h = dtype_code d)"
  by (auto simp: validate_header_def check_dtype_def)

end
