(* ===== verification/Zc_Transition.thy ===== *)
theory Zc_Transition
  imports Main
begin

text \<open>
  Step relations: an invariant of a step relation, predicates that are stable under the steps of
  states that satisfy the invariant, and both along an infinite path that makes any number of steps
  between two observations.
\<close>

definition path :: "('s \<Rightarrow> 's \<Rightarrow> bool) \<Rightarrow> (nat \<Rightarrow> 's) \<Rightarrow> bool" where
  "path step \<sigma> \<longleftrightarrow> (\<forall>k. step\<^sup>*\<^sup>* (\<sigma> k) (\<sigma> (Suc k)))"

lemma path_star:
  assumes "path step \<sigma>" "a \<le> b"
  shows "step\<^sup>*\<^sup>* (\<sigma> a) (\<sigma> b)"
  using assms(2)
proof (induction rule: dec_induct)
  case base
  show ?case by simp
next
  case (step k)
  have "step\<^sup>*\<^sup>* (\<sigma> k) (\<sigma> (Suc k))" using assms(1) by (simp add: path_def)
  with step.IH show ?case by (rule rtranclp_trans)
qed

locale step_invariant =
  fixes step :: "'s \<Rightarrow> 's \<Rightarrow> bool"
    and inv :: "'s \<Rightarrow> bool"
  assumes inv_step: "inv s \<Longrightarrow> step s s' \<Longrightarrow> inv s'"
begin

lemma inv_star: "step\<^sup>*\<^sup>* s s' \<Longrightarrow> inv s \<Longrightarrow> inv s'"
  by (induction rule: rtranclp_induct) (auto intro: inv_step)

lemma inv_path:
  assumes "path step \<sigma>" "inv (\<sigma> 0)"
  shows "inv (\<sigma> k)"
  using inv_star [OF path_star [OF assms(1)] assms(2)] by simp

end

locale stable_predicate = step_invariant step inv
  for step :: "'s \<Rightarrow> 's \<Rightarrow> bool" and inv :: "'s \<Rightarrow> bool" +
  fixes stab :: "'s \<Rightarrow> bool"
  assumes stab_step: "inv s \<Longrightarrow> step s s' \<Longrightarrow> stab s \<Longrightarrow> stab s'"
begin

lemma stab_star: "step\<^sup>*\<^sup>* s s' \<Longrightarrow> inv s \<Longrightarrow> stab s \<Longrightarrow> stab s'"
proof (induction rule: rtranclp_induct)
  case base
  then show ?case by simp
next
  case (step y z)
  moreover have "inv y" using step.hyps(1) step.prems(1) by (rule inv_star)
  ultimately show ?case by (blast intro: stab_step)
qed

lemma stab_path:
  assumes "path step \<sigma>" "inv (\<sigma> 0)" "a \<le> b" "stab (\<sigma> a)"
  shows "stab (\<sigma> b)"
  using stab_star [OF path_star [OF assms(1,3)] inv_path [OF assms(1,2)] assms(4)] .

end

end
