(* ===== verification/Zc_Attach.thy ===== *)
theory Zc_Attach
  imports Zc_Layout Zc_Transition
begin

text \<open>
  A process that decodes the header of a segment while its creator initialises it. The creator runs
  \<open>init_header\<close> one access at a time, the zeroing byte by byte; afterwards the channel is in use,
  which changes everything but the immutable part of the header. The decoding process makes each
  load of \<open>read_header\<close> at a moment of its own.
\<close>

subsection \<open>Decoding, one load at a time\<close>

definition read_header_view :: "view \<Rightarrow> nat \<Rightarrow> ((header option) zc_result \<times> nat) option" where
  "read_header_view v t =
     do {
       magic \<leftarrow> load_u64 (v t) OFF_MAGIC;
       if magic = 0 then Some (Inr None, Suc t)
       else if magic \<noteq> MAGIC_VERSION
       then
         (if drop_bit 32 magic \<noteq> ucast MAGIC
          then Some (Inl (InvalidArgument ''shared memory segment is not a ZeroChannel ring''), Suc t)
          else Some (Inl (InvalidArgument
            (''ZeroChannel layout version mismatch: segment is v'' @
             show_u64 (magic AND 0xFFFFFFFF) @ '', this build speaks v'' @
             show_nat (unat VERSION))), Suc t))
       else do {
         payload_bytes \<leftarrow> load_u64 (v (t + 1)) OFF_PAYLOAD_BYTES;
         entry_count \<leftarrow> load_u64 (v (t + 2)) OFF_ENTRY_COUNT;
         write_index \<leftarrow> load_u64 (v (t + 3)) OFF_WRITE_INDEX;
         dtype \<leftarrow> load_u64 (v (t + 4)) OFF_DTYPE;
         last_entry_seq \<leftarrow> load_u64 (v (t + 5)) OFF_LAST_ENTRY_SEQ;
         Some (Inr (Some \<lparr>hdr_payload_bytes = payload_bytes, hdr_entry_count = entry_count,
           hdr_write_index = write_index, hdr_dtype = dtype,
           hdr_last_entry_seq = last_entry_seq\<rparr>), t + 6)
       }
     }"

text \<open>On a segment that does not change this is \<open>read_header\<close>.\<close>

lemma read_header_still: "map_option fst (read_header_view (still m) t) = read_header m"
  unfolding read_header_view_def read_header_def
  by (cases "load_u64 m OFF_MAGIC"; cases "load_u64 m OFF_PAYLOAD_BYTES"; cases "load_u64 m OFF_ENTRY_COUNT";
      cases "load_u64 m OFF_WRITE_INDEX"; cases "load_u64 m OFF_DTYPE"; cases "load_u64 m OFF_LAST_ENTRY_SEQ")
    simp_all

subsection \<open>Initialising, one access at a time\<close>

datatype iphase = Zero nat | Store nat

abbreviation complete :: iphase where "complete \<equiv> Store 6"

inductive init_step :: "usize \<Rightarrow> usize \<Rightarrow> dtype \<Rightarrow> u64 \<Rightarrow> iphase \<times> mem \<Rightarrow> iphase \<times> mem \<Rightarrow> bool"
  for pb n d pid where
  zero:
    "k < unat (required_bytes pb n) \<Longrightarrow> write_bytes m (word_of_nat k) [0] = Some m' \<Longrightarrow>
     init_step pb n d pid (Zero k, m) (Zero (Suc k), m')"
| zeroed: "init_step pb n d pid (Zero (unat (required_bytes pb n)), m) (Store 1, m)"
| store:
    "j < length (init_header_stores pb n d pid) \<Longrightarrow> (init_header_stores pb n d pid ! j) m = Some m' \<Longrightarrow>
     init_step pb n d pid (Store j, m) (Store (Suc j), m')"
| used:
    "length m' = length m \<Longrightarrow>
     \<forall>off \<in> {OFF_MAGIC, OFF_PAYLOAD_BYTES, OFF_ENTRY_COUNT, OFF_DTYPE}. hdr_at m' off = hdr_at m off \<Longrightarrow>
     init_step pb n d pid (complete, m) (complete, m')"

inductive_cases init_stepE: "init_step pb n d pid (ph, m) s'"

fun latched :: "usize \<Rightarrow> usize \<Rightarrow> dtype \<Rightarrow> iphase \<Rightarrow> mem \<Rightarrow> bool" where
  "latched pb n d (Zero k) m \<longleftrightarrow> hdr_at m OFF_MAGIC = 0"
| "latched pb n d (Store j) m \<longleftrightarrow>
     0 < j \<and> j \<le> 6 \<and> hdr_at m OFF_MAGIC = (if j = 6 then MAGIC_VERSION else 0) \<and>
     (1 < j \<longrightarrow> hdr_at m OFF_PAYLOAD_BYTES = pb) \<and> (2 < j \<longrightarrow> hdr_at m OFF_ENTRY_COUNT = n) \<and>
     (3 < j \<longrightarrow> hdr_at m OFF_DTYPE = dtype_code d)"

definition init_inv :: "usize \<Rightarrow> usize \<Rightarrow> dtype \<Rightarrow> iphase \<times> mem \<Rightarrow> bool" where
  "init_inv pb n d s \<longleftrightarrow> seg_geom pb n (length (snd s)) \<and> latched pb n d (fst s) (snd s)"

text \<open>Zeroing a byte leaves a word that is 0.\<close>

lemma u64_to_le_0: "u64_to_le 0 = replicate 8 0"
  using u64_to_of_le [of "replicate 8 0"] by (simp add: u64_of_le_zeros)

lemma word_at_zero_byte:
  assumes "word_at m a = 0" "a + 8 \<le> length m" "k < length m"
  shows "word_at (poke m k [0]) a = 0"
proof -
  have z: "bytes_at m a 8 = replicate 8 0"
    using assms(1,2) u64_to_le_0 u64_to_of_le [of "bytes_at m a 8"] by (simp add: word_at_def length_bytes_at)
  have "m ! i = 0" if "a \<le> i" "i < a + 8" for i
    using arg_cong [OF z, of "\<lambda>bs. bs ! (i - a)"] that assms(2) by (simp add: bytes_at_def)
  then have "bytes_at (poke m k [0]) a 8 = bytes_at m a 8"
    using assms(3) by (intro bytes_at_eqI) (auto simp: nth_poke)
  with assms(1) show ?thesis by (simp add: word_at_def)
qed

interpretation init_latch: step_invariant "init_step pb n d pid" "init_inv pb n d" for pb n d pid
proof
  fix s s' assume inv: "init_inv pb n d s" and st: "init_step pb n d pid s s'"
  have g: "seg_geom pb n (length (snd s))" using inv by (simp add: init_inv_def)
  note 72 = seg_geom_72 [OF g]
  from st show "init_inv pb n d s'"
  proof cases
    case (zero k m m')
    then have "k < length m"
      using g seg_geom_no_wrap [OF g] by (simp add: unat_required_bytes seg_geom_def)
    moreover have "unat (word_of_nat k :: usize) = k"
      using zero(3) by (rule unat_of_nat_below)
    ultimately have "m' = poke m k [0]" using zero by (auto simp: write_bytes_def split: if_splits)
    with zero inv g 72 \<open>k < length m\<close> show ?thesis
      by (simp add: init_inv_def hdr_at_def word_at_zero_byte)
  next
    case (zeroed m)
    with inv show ?thesis by (simp add: init_inv_def)
  next
    case (store j m m')
    then have "j = 1 \<or> j = 2 \<or> j = 3 \<or> j = 4 \<or> j = 5" using inv by (auto simp: init_inv_def init_header_stores_def)
    moreover have "latched pb n d (Store j) m" "72 \<le> length m" using inv store(1) 72 by (simp_all add: init_inv_def)
    ultimately have "latched pb n d (Store (Suc j)) m' \<and> length m' = length m"
      using store(4) by (elim disjE) (simp_all add: init_header_stores_def, auto simp: hdr_at_set_hdr)
    with store g show ?thesis by (simp add: init_inv_def)
  next
    case (used m' m)
    with inv show ?thesis by (simp add: init_inv_def)
  qed
qed

text \<open>Left alone, the creator performs \<open>init_header\<close>.\<close>

lemma zero_run:
  assumes g: "seg_geom pb n (length m)"
  shows "k \<le> unat (required_bytes pb n) \<Longrightarrow>
     (init_step pb n d pid)\<^sup>*\<^sup>* (Zero 0, m) (Zero k, poke m 0 (replicate k 0))"
proof (induction k)
  case 0
  then show ?case by (simp add: poke_def)
next
  case (Suc k)
  have r: "unat (required_bytes pb n) \<le> length m"
    using g seg_geom_no_wrap [OF g] by (simp add: unat_required_bytes seg_geom_def)
  have k: "unat (word_of_nat k :: usize) = k"
    using Suc.prems by (intro unat_of_nat_below [of _ "required_bytes pb n"]) simp
  have "poke (poke m 0 (replicate k 0)) k [0] = poke m 0 (replicate (Suc k) 0)"
    using Suc.prems r by (intro nth_equalityI) (auto simp: nth_poke nth_append simp del: replicate_Suc)
  then have "init_step pb n d pid (Zero k, poke m 0 (replicate k 0)) (Zero (Suc k), poke m 0 (replicate (Suc k) 0))"
    using Suc.prems r k by (intro init_step.zero) (simp_all add: write_bytes_def)
  with Suc show ?case by (meson Suc_leD rtranclp.rtrancl_into_rtrancl)
qed

lemma store_run:
  "run_stores (drop j (init_header_stores pb n d pid)) m = Some m' \<Longrightarrow> j \<le> 6 \<Longrightarrow>
   (init_step pb n d pid)\<^sup>*\<^sup>* (Store j, m) (complete, m')"
proof (induction "6 - j" arbitrary: j m)
  case 0
  then show ?case by (simp add: init_header_stores_def)
next
  case (Suc x)
  then have j: "j < length (init_header_stores pb n d pid)" by (simp add: init_header_stores_def)
  with Suc.prems(1) obtain m1 where m1: "(init_header_stores pb n d pid ! j) m = Some m1"
    "run_stores (drop (Suc j) (init_header_stores pb n d pid)) m1 = Some m'"
    by (auto simp: Cons_nth_drop_Suc [symmetric] bind_eq_Some_conv)
  then have "(init_step pb n d pid)\<^sup>*\<^sup>* (Store (Suc j), m1) (complete, m')" using Suc by simp
  with init_step.store [OF j m1(1)] show ?case by (rule converse_rtranclp_into_rtranclp)
qed

lemma init_run:
  assumes "seg_geom pb n (length m)"
  shows "(init_step pb n d pid)\<^sup>*\<^sup>* (Zero 0, m) (complete, initialized pb n d pid m)"
proof -
  let ?z = "zeroed pb n m"
  have "(init_step pb n d pid)\<^sup>*\<^sup>* (Zero 0, m) (Zero (unat (required_bytes pb n)), ?z)"
    using zero_run [OF assms order_refl] seg_geom_no_wrap [OF assms] by (simp add: zeroed_def unat_required_bytes)
  also have "init_step pb n d pid (Zero (unat (required_bytes pb n)), ?z) (Store 1, ?z)" by (rule init_step.zeroed)
  also have "(init_step pb n d pid)\<^sup>*\<^sup>* (Store 1, ?z) (complete, initialized pb n d pid m)"
    using init_header_eq [OF assms, of d pid] write_zeroed [OF assms]
    by (intro store_run) (simp_all add: init_header_def init_header_stores_def)
  finally show ?thesis .
qed

subsection \<open>A header is seen whole or not at all\<close>

text \<open>
  C32: A peer that decodes the header while it is being written never sees a half-written geometry. Let
  a creator initialise a segment without magic, one access at a time, let it stop or die anywhere,
  and let the channel be used arbitrarily once the header is complete. Decoding, with each load at a
  moment of its own, always returns without an error. It reports an uninitialised segment if the
  header was not complete when it began, and otherwise a header with exactly the creator's geometry
  and element type.
\<close>
theorem header_seen_whole:
  assumes "path (init_step pb n d pid) \<sigma>" "\<sigma> 0 = (Zero 0, m)" "seg_geom pb n (length m)" "hdr_at m OFF_MAGIC = 0"
  shows "\<exists>res t'. read_header_view (\<lambda>k. snd (\<sigma> k)) t = Some (Inr res, t') \<and>
     (case res of
        None \<Rightarrow> fst (\<sigma> t) \<noteq> complete
      | Some h \<Rightarrow> fst (\<sigma> t) = complete \<and> hdr_payload_bytes h = pb \<and> hdr_entry_count h = n \<and>
          hdr_dtype h = dtype_code d)"
proof -
  have inv: "init_inv pb n d (\<sigma> k)" for k
    using init_latch.inv_path [OF assms(1)] assms(2-4) by (simp add: init_inv_def)
  have 72: "72 \<le> length (snd (\<sigma> k))" for k using inv [of k] by (auto simp: init_inv_def dest: seg_geom_72)
  show ?thesis
  proof (cases "fst (\<sigma> t) = complete")
    case False
    with inv [of t] have "hdr_at (snd (\<sigma> t)) OFF_MAGIC = 0"
      by (cases "fst (\<sigma> t)") (auto simp: init_inv_def)
    with False 72 show ?thesis by (simp add: read_header_view_def)
  next
    case True
    have "fst (\<sigma> (t + k)) = complete" for k
    proof (induction k)
      case (Suc k)
      have "(init_step pb n d pid)\<^sup>*\<^sup>* (\<sigma> (t + k)) (\<sigma> (t + Suc k))" using assms(1) by (simp add: path_def)
      then show ?case
        using Suc by (induction rule: rtranclp_induct) (auto elim!: init_step.cases simp: init_header_stores_def)
    qed (simp add: True)
    then have "latched pb n d complete (snd (\<sigma> (t + k)))" for k using inv [of "t + k"] by (simp add: init_inv_def)
    from this [of 0] this [of 1] this [of 2] this [of 4] True 72 show ?thesis
      by (simp add: read_header_view_def)
  qed
qed

theorem header_seen_whole_witness:
  "\<exists>h t'. read_header_view (\<lambda>k. if k = 0 then replicate 104 0 else initialized 8 2 F64 42 (replicate 104 0)) 1 =
       Some (Inr (Some h), t') \<and>
     hdr_payload_bytes h = 8 \<and> hdr_entry_count h = 2 \<and> hdr_dtype h = 2"
proof -
  let ?m = "replicate 104 (0 :: byte)"
  let ?\<sigma> = "\<lambda>k :: nat. if k = 0 then (Zero 0, ?m) else (complete, initialized 8 2 F64 42 ?m)"
  have g: "seg_geom 8 2 (length ?m)" by (simp add: seg_geom_def)
  have p: "path (init_step 8 2 F64 42) ?\<sigma>" using init_run [OF g] by (auto simp: path_def)
  have z: "hdr_at ?m OFF_MAGIC = 0"
    by (simp add: hdr_at_def word_at_def bytes_at_def u64_of_le_zeros take_replicate min_def)
  have v: "(\<lambda>k. snd (?\<sigma> k)) = (\<lambda>k. if k = 0 then ?m else initialized 8 2 F64 42 ?m)" by auto
  from header_seen_whole [OF p _ g z, of 1, unfolded v] show ?thesis by (auto split: option.splits)
qed

end
