(* ===== verification/Zc_Ring.thy ===== *)
theory Zc_Ring
  imports Zc_Segment
begin

text \<open>
  The abstract ring that the byte-level operations implement: the control words and payloads as
  lists, and the two header words the writer maintains. Positions are natural numbers. The
  operations of the protocol on it are the reference definitions of the refinement theorems of the
  writer and the reader.
\<close>

record ring =
  rg_seqs :: "i64 list"
  rg_pays :: "byte list list"
  rg_windex :: usize
  rg_wmark :: u64

definition ring_of :: "usize \<Rightarrow> usize \<Rightarrow> mem \<Rightarrow> ring" where
  "ring_of pb n m =
     \<lparr>rg_seqs = map (seq_at pb m) [0..<unat n],
      rg_pays = map (pay_at pb m) [0..<unat n],
      rg_windex = hdr_at m OFF_WRITE_INDEX,
      rg_wmark = hdr_at m OFF_LAST_ENTRY_SEQ\<rparr>"

abbreviation held :: "i64 \<Rightarrow> bool" where
  "held v \<equiv> sint v < 0"

abbreviation committed :: "i64 \<Rightarrow> bool" where
  "committed v \<equiv> 0 < sint v"

text \<open>\<open>i64::unsigned_abs\<close>: the sequence number of a slot, held or not.\<close>

definition unsigned_abs :: "i64 \<Rightarrow> u64" where
  "unsigned_abs raw = (if held raw then - raw else raw)"

subsection \<open>Reference operations\<close>

text \<open>The positions in the order the writer probes them, starting at its cursor.\<close>

definition probe_order :: "nat \<Rightarrow> nat \<Rightarrow> nat list" where
  "probe_order n cur = map (\<lambda>k. (cur + k) mod n) [0..<n]"

definition ring_free_slot :: "nat \<Rightarrow> ring \<Rightarrow> nat option" where
  "ring_free_slot cur r =
     find (\<lambda>i. \<not> held (rg_seqs r ! i)) (probe_order (length (rg_seqs r)) cur)"

definition ring_clear :: "nat \<Rightarrow> ring \<Rightarrow> ring" where
  "ring_clear i r = r\<lparr>rg_seqs := (rg_seqs r)[i := 0]\<rparr>"

definition ring_fill :: "nat \<Rightarrow> byte list \<Rightarrow> ring \<Rightarrow> ring" where
  "ring_fill i bs r = r\<lparr>rg_pays := (rg_pays r)[i := bs]\<rparr>"

definition ring_publish :: "nat \<Rightarrow> u64 \<Rightarrow> ring \<Rightarrow> ring" where
  "ring_publish i seq r =
     r\<lparr>rg_seqs := (rg_seqs r)[i := seq],
       rg_windex := word_of_nat (Suc i mod length (rg_seqs r)),
       rg_wmark := seq\<rparr>"

definition ring_write :: "nat \<Rightarrow> byte list \<Rightarrow> u64 \<Rightarrow> ring \<Rightarrow> ring" where
  "ring_write i bs seq r = ring_publish i seq (ring_fill i bs r)"

text \<open>The oldest committed entry newer than a watermark: position and sequence number.\<close>

definition ring_cands :: "u64 \<Rightarrow> ring \<Rightarrow> nat list" where
  "ring_cands wm r =
     filter (\<lambda>i. committed (rg_seqs r ! i) \<and> wm < rg_seqs r ! i) [0..<length (rg_seqs r)]"

definition ring_next :: "u64 \<Rightarrow> ring \<Rightarrow> (nat \<times> u64) option" where
  "ring_next wm r =
     (if ring_cands wm r = [] then None
      else let s = Min ((!) (rg_seqs r) ` set (ring_cands wm r))
           in Some (hd (filter (\<lambda>i. rg_seqs r ! i = s) (ring_cands wm r)), s))"

subsection \<open>The view of a segment after each update\<close>

lemma length_ring_of [simp]:
  "length (rg_seqs (ring_of pb n m)) = unat n" "length (rg_pays (ring_of pb n m)) = unat n"
  by (simp_all add: ring_of_def)

lemma ring_of_nth [simp]:
  "i < unat n \<Longrightarrow> rg_seqs (ring_of pb n m) ! i = seq_at pb m i"
  "i < unat n \<Longrightarrow> rg_pays (ring_of pb n m) ! i = pay_at pb m i"
  by (simp_all add: ring_of_def)

lemma ring_of_set_seq:
  "seg_geom pb n (length m) \<Longrightarrow> i < unat n \<Longrightarrow>
   ring_of pb n (set_seq pb m i v) = (ring_of pb n m)\<lparr>rg_seqs := (rg_seqs (ring_of pb n m))[i := v]\<rparr>"
  by (simp add: ring_of_def slots.seqs_sseq slots.pays_sseq)

lemma ring_of_set_pay:
  "seg_geom pb n (length m) \<Longrightarrow> i < unat n \<Longrightarrow> length bs = unat pb \<Longrightarrow>
   ring_of pb n (set_pay pb m i bs) = ring_fill i bs (ring_of pb n m)"
  by (simp add: ring_of_def ring_fill_def slots.seqs_spay slots.pays_spay)

lemma ring_of_set_windex:
  "seg_geom pb n (length m) \<Longrightarrow>
   ring_of pb n (set_hdr m OFF_WRITE_INDEX v) = (ring_of pb n m)\<lparr>rg_windex := v\<rparr>"
  using seg_geom_72 [of pb n "length m"]
  by (simp add: ring_of_def hdr_at_set_hdr)

lemma ring_of_set_wmark:
  "seg_geom pb n (length m) \<Longrightarrow>
   ring_of pb n (set_hdr m OFF_LAST_ENTRY_SEQ v) = (ring_of pb n m)\<lparr>rg_wmark := v\<rparr>"
  using seg_geom_72 [of pb n "length m"]
  by (simp add: ring_of_def hdr_at_set_hdr)

lemma seg_geom_count: "seg_geom pb n len \<Longrightarrow> unat n < 2 ^ 60"
proof -
  assume g: "seg_geom pb n len"
  then have "unat n * 8 \<le> unat n * (8 + unat pb)" by simp
  also have "\<dots> < 2 ^ 63" using g by (simp add: seg_geom_def)
  finally show ?thesis by simp
qed

subsection \<open>Lemmas on the reference operations\<close>

lemma set_probe_order: "0 < n \<Longrightarrow> set (probe_order n cur) = {..<n}"
proof (intro equalityI subsetI)
  fix i assume "0 < n" "i \<in> {..<n}"
  then have i: "i < n" by simp
  let ?k = "(i + (n - cur mod n)) mod n"
  have "(cur + ?k) mod n = (cur mod n + (i + (n - cur mod n))) mod n"
    by (metis mod_add_left_eq mod_add_right_eq)
  also have "cur mod n + (i + (n - cur mod n)) = i + n"
    using i mod_less_divisor [of n cur] by linarith
  also have "(i + n) mod n = i" using i by simp
  finally have "i = (cur + ?k) mod n" by simp
  moreover have "?k < n" using i by simp
  ultimately show "i \<in> set (probe_order n cur)"
    by (auto simp: probe_order_def)
qed (auto simp: probe_order_def)

lemma length_probe_order [simp]: "length (probe_order n cur) = n"
  by (simp add: probe_order_def)

lemma ring_free_slot_None:
  "rg_seqs r \<noteq> [] \<Longrightarrow> ring_free_slot cur r = None \<longleftrightarrow> (\<forall>v \<in> set (rg_seqs r). held v)"
  by (simp add: ring_free_slot_def find_None_iff set_probe_order all_set_conv_all_nth)

lemma ring_free_slot_Some:
  assumes "ring_free_slot cur r = Some i" "rg_seqs r \<noteq> []"
  shows "i < length (rg_seqs r)" "\<not> held (rg_seqs r ! i)"
proof -
  from assms(1) obtain k where k: "k < length (rg_seqs r)"
      "i = probe_order (length (rg_seqs r)) cur ! k" "\<not> held (rg_seqs r ! i)"
    by (auto simp: ring_free_slot_def find_Some_iff)
  with assms(2) show "i < length (rg_seqs r)" "\<not> held (rg_seqs r ! i)"
    by (auto simp: probe_order_def)
qed

lemma find_hd: "xs \<noteq> [] \<Longrightarrow> P (hd xs) \<Longrightarrow> find P xs = Some (hd xs)"
  by (cases xs) auto

lemma hd_probe_order: "0 < n \<Longrightarrow> hd (probe_order n cur) = cur mod n"
  by (simp add: probe_order_def hd_map upt_conv_Cons)

lemma ring_free_slot_cursor:
  "rg_seqs r \<noteq> [] \<Longrightarrow> cur < length (rg_seqs r) \<Longrightarrow> \<not> held (rg_seqs r ! cur) \<Longrightarrow>
   ring_free_slot cur r = Some cur"
  unfolding ring_free_slot_def
  by (subst find_hd) (simp_all add: hd_probe_order flip: length_greater_0_conv)

text \<open>Clearing the free slot leaves it the first free slot.\<close>

lemma ring_free_slot_clear:
  assumes "ring_free_slot cur r = Some i" "rg_seqs r \<noteq> []"
  shows "ring_free_slot cur (ring_clear i r) = Some i"
proof -
  let ?n = "length (rg_seqs r)"
  note i = ring_free_slot_Some [OF assms]
  have "find (\<lambda>j. \<not> held ((rg_seqs r)[i := 0] ! j)) (probe_order ?n cur) =
      find (\<lambda>j. \<not> held (rg_seqs r ! j)) (probe_order ?n cur)"
    using i assms(2) by (intro find_cong) (auto simp: set_probe_order nth_list_update)
  with assms(1) show ?thesis by (simp add: ring_free_slot_def ring_clear_def)
qed

text \<open>The reference reader: what it means for \<open>ring_next\<close> to return or not to return an entry.\<close>

lemma set_ring_cands:
  "i \<in> set (ring_cands wm r) \<longleftrightarrow>
   i < length (rg_seqs r) \<and> committed (rg_seqs r ! i) \<and> wm < rg_seqs r ! i"
  by (auto simp: ring_cands_def)

lemma ring_next_None:
  "ring_next wm r = None \<longleftrightarrow> (\<forall>v \<in> set (rg_seqs r). \<not> (committed v \<and> wm < v))"
proof -
  have "ring_cands wm r = [] \<longleftrightarrow> (\<forall>v \<in> set (rg_seqs r). \<not> (committed v \<and> wm < v))"
    by (auto simp: ring_cands_def filter_empty_conv Ball_def in_set_conv_nth)
  then show ?thesis by (simp add: ring_next_def Let_def)
qed

lemma ring_next_Some:
  assumes "ring_next wm r = Some (i, s)"
  shows "i < length (rg_seqs r)" "rg_seqs r ! i = s" "committed s" "wm < s"
    and "\<And>v. v \<in> set (rg_seqs r) \<Longrightarrow> committed v \<Longrightarrow> wm < v \<Longrightarrow> s \<le> v"
proof -
  let ?c = "ring_cands wm r" and ?f = "(!) (rg_seqs r)"
  from assms have ne: "?c \<noteq> []" and s: "s = Min (?f ` set ?c)"
    and i: "i = hd (filter (\<lambda>i. rg_seqs r ! i = s) ?c)"
    by (auto simp: ring_next_def Let_def split: if_splits)
  have "s \<in> ?f ` set ?c" unfolding s using ne by (intro Min_in) auto
  then have "filter (\<lambda>i. rg_seqs r ! i = s) ?c \<noteq> []"
    by (auto simp: filter_empty_conv)
  from hd_in_set [OF this] have "i \<in> set ?c" "rg_seqs r ! i = s" by (auto simp: i)
  then show "i < length (rg_seqs r)" "rg_seqs r ! i = s" "committed s" "wm < s"
    by (auto simp: set_ring_cands)
  show "s \<le> v" if v: "v \<in> set (rg_seqs r)" "committed v" "wm < v" for v
  proof -
    from v obtain j where "j \<in> set ?c" "v = ?f j"
      by (metis in_set_conv_nth set_ring_cands)
    then show ?thesis unfolding s by (intro Min_le) auto
  qed
qed

text \<open>With no sequence number in the ring twice, the answer is the only one with its properties.\<close>

lemma ring_next_unique:
  assumes "i < length (rg_seqs r)" "committed (rg_seqs r ! i)" "wm < rg_seqs r ! i"
    and "\<And>v. v \<in> set (rg_seqs r) \<Longrightarrow> committed v \<Longrightarrow> wm < v \<Longrightarrow> rg_seqs r ! i \<le> v"
    and "\<And>j. j < length (rg_seqs r) \<Longrightarrow> rg_seqs r ! j = rg_seqs r ! i \<Longrightarrow> j = i"
  shows "ring_next wm r = Some (i, rg_seqs r ! i)"
proof (cases "ring_next wm r")
  case None
  with assms(1-3) show ?thesis by (auto simp: ring_next_None)
next
  case (Some p)
  obtain j s where p: "p = (j, s)" by (cases p)
  note js = ring_next_Some [OF Some [unfolded p]]
  have "s \<le> rg_seqs r ! i" using js(5) assms(1-3) by simp
  moreover have "rg_seqs r ! i \<le> s" using assms(4) js(1-4) by auto
  ultimately have "s = rg_seqs r ! i" by simp
  moreover with assms(5) js(1,2) have "j = i" by simp
  ultimately show ?thesis using Some p by simp
qed

end
