(* ===== verification/Zc_Handles.thy ===== *)
theory Zc_Handles
  imports Zc_Segment
begin

text \<open>
  The zero-copy slot handles (\<open>zerochannel-core/src/zerocopy.rs\<close>). A handle holds the address and
  length of one slot's payload. Its byte views borrow the segment: reading through a view is a
  read of the segment at that address, writing through a mutable view is a write to it.
\<close>

record write_handle =
  wh_index :: usize
  wh_ptr :: usize
  wh_len :: usize

record read_handle =
  rh_index :: usize
  rh_entry_seq :: u64
  rh_ptr :: usize
  rh_len :: usize

definition write_handle_index :: "write_handle \<Rightarrow> usize" where
  "write_handle_index h = wh_index h"

definition read_handle_seq :: "read_handle \<Rightarrow> u64" where
  "read_handle_seq h = rh_entry_seq h"

definition read_handle_index :: "read_handle \<Rightarrow> usize" where
  "read_handle_index h = rh_index h"

lemmas handle_getters [simp] = write_handle_index_def read_handle_seq_def read_handle_index_def

text \<open>
  The mutable byte view, as a store of \<open>bs\<close> at index \<open>k\<close> of the slice; a range that is not inside the
  slice panics.
\<close>

definition wh_as_bytes_mut :: "write_handle \<Rightarrow> mem \<Rightarrow> usize \<Rightarrow> byte list \<Rightarrow> mem option" where
  "wh_as_bytes_mut h m k bs =
     (if unat k + length bs \<le> unat (wh_len h) then write_bytes m (wh_ptr h + k) bs else None)"

definition rh_as_bytes :: "read_handle \<Rightarrow> mem \<Rightarrow> byte list option" where
  "rh_as_bytes h m = read_bytes m (rh_ptr h) (rh_len h)"

text \<open>A typed view is the address and the number of elements, or the error.\<close>

definition slice_error :: "usize \<Rightarrow> usize \<Rightarrow> zc_error" where
  "slice_error len elem =
     InvalidArgument (''payload of '' @ show_u64 len @ '' bytes is not a whole number of '' @
       show_u64 elem @ ''-byte elements'')"

definition wh_as_slice_mut :: "write_handle \<Rightarrow> dtype \<Rightarrow> (usize \<times> usize) zc_result" where
  "wh_as_slice_mut h t =
     (let elem = size_of t in
      if elem = 0 \<or> \<not> is_multiple_of (wh_len h) elem then Inl (slice_error (wh_len h) elem)
      else Inr (wh_ptr h, wh_len h div elem))"

definition rh_as_slice :: "read_handle \<Rightarrow> dtype \<Rightarrow> (usize \<times> usize) zc_result" where
  "rh_as_slice h t =
     (let elem = size_of t in
      if elem = 0 \<or> \<not> is_multiple_of (rh_len h) elem then Inl (slice_error (rh_len h) elem)
      else Inr (rh_ptr h, rh_len h div elem))"

end
