(* ===== verification/Zc_Writer.thy ===== *)
theory Zc_Writer
  imports Zc_Ring Zc_Handles Zc_Layout
begin

text \<open>
  The single-writer end of the ring protocol (\<open>zerochannel-core/src/writer.rs\<close>): slot claim,
  publication, the one-copy and zero-copy write paths, and the recovery of a writer's state from a
  segment. The writer's raw pointer is the segment \<open>m\<close> its operations take and return; \<open>None\<close> is
  an access outside the segment, or the panic of a remainder by zero.
\<close>

record raw_writer =
  rw_payload_bytes :: usize
  rw_entry_count :: usize
  rw_current_index :: usize
  rw_last_entry_seq :: u64

definition raw_writer_payload_bytes :: "raw_writer \<Rightarrow> usize" where
  "raw_writer_payload_bytes w = rw_payload_bytes w"

definition raw_writer_entry_count :: "raw_writer \<Rightarrow> usize" where
  "raw_writer_entry_count w = rw_entry_count w"

definition raw_writer_last_entry_seq :: "raw_writer \<Rightarrow> u64" where
  "raw_writer_last_entry_seq w = rw_last_entry_seq w"

lemmas raw_writer_getters [simp] =
  raw_writer_payload_bytes_def raw_writer_entry_count_def raw_writer_last_entry_seq_def

subsection \<open>Recovery\<close>

fun recover_scan :: "mem \<Rightarrow> usize \<Rightarrow> usize list \<Rightarrow> u64 \<Rightarrow> u64 option" where
  "recover_scan m pb [] max_seq = Some max_seq"
| "recover_scan m pb (i # is) max_seq =
     do {
       raw \<leftarrow> load_u64 m (seq_cell pb i);
       let seq = unsigned_abs raw in
       recover_scan m pb is (if max_seq < seq then seq else max_seq)
     }"

definition recover_state ::
    "mem \<Rightarrow> usize \<Rightarrow> usize \<Rightarrow> usize \<Rightarrow> u64 \<Rightarrow> (u64 \<times> usize) option" where
  "recover_state m pb entry_count header_write_index header_last_entry_seq =
     do {
       max_seq \<leftarrow> recover_scan m pb (usize_range entry_count) header_last_entry_seq;
       let write_index = header_write_index mod (max entry_count 1) in
       do {
         at \<leftarrow> load_u64 m (seq_cell pb write_index);
         let at_index = unsigned_abs at in
         if at_index \<noteq> 0 \<and> at_index = max_seq
         then (if entry_count = 0 then None
               else Some (max_seq, (write_index + 1) mod entry_count))
         else Some (max_seq, write_index)
       }
     }"

definition raw_writer_attach :: "mem \<Rightarrow> header \<Rightarrow> raw_writer option" where
  "raw_writer_attach m h =
     do {
       (last_entry_seq, current_index) \<leftarrow>
         recover_state m (hdr_payload_bytes h) (hdr_entry_count h) (hdr_write_index h)
           (hdr_last_entry_seq h);
       Some \<lparr>rw_payload_bytes = hdr_payload_bytes h, rw_entry_count = hdr_entry_count h,
             rw_current_index = current_index, rw_last_entry_seq = last_entry_seq\<rparr>
     }"

subsection \<open>Claim and publish\<close>

fun claim_loop :: "raw_writer \<Rightarrow> usize list \<Rightarrow> mem \<Rightarrow> (usize zc_result \<times> mem) option" where
  "claim_loop w [] m =
     Some (Inl (Busy (''all '' @ show_u64 (rw_entry_count w) @ '' ring slots are held by a reader'')), m)"
| "claim_loop w (n # ns) m =
     (let index = (rw_current_index w + n) mod rw_entry_count w;
          cell = seq_cell (rw_payload_bytes w) index
      in do {
        v \<leftarrow> load_u64 m cell;
        if sint v < 0 then claim_loop w ns m
        else do { m' \<leftarrow> store_u64 m cell 0; Some (Inr index, m') }
      })"

definition claim_slot :: "raw_writer \<Rightarrow> mem \<Rightarrow> (usize zc_result \<times> mem) option" where
  "claim_slot w m = claim_loop w (usize_range (rw_entry_count w)) m"

definition publish :: "raw_writer \<Rightarrow> mem \<Rightarrow> usize \<Rightarrow> (u64 \<times> raw_writer \<times> mem) option" where
  "publish w m index =
     (let seq = rw_last_entry_seq w + 1 in
      do {
        m \<leftarrow> store_u64 m (seq_cell (rw_payload_bytes w) index) seq;
        current_index \<leftarrow> (if rw_entry_count w = 0 then None
                           else Some ((index + 1) mod rw_entry_count w));
        m \<leftarrow> store_u64 m OFF_WRITE_INDEX current_index;
        m \<leftarrow> store_u64 m high_watermark seq;
        Some (seq, w\<lparr>rw_last_entry_seq := seq, rw_current_index := current_index\<rparr>, m)
      })"

subsection \<open>The write paths\<close>

definition raw_writer_write ::
    "raw_writer \<Rightarrow> mem \<Rightarrow> byte list \<Rightarrow> (unit zc_result \<times> raw_writer \<times> mem) option" where
  "raw_writer_write w m data =
     (if length data \<noteq> unat (rw_payload_bytes w)
      then Some (Inl (InvalidArgument (''expected '' @ show_u64 (rw_payload_bytes w) @
             '' payload bytes, got '' @ show_nat (length data))), w, m)
      else do {
        (r, m) \<leftarrow> claim_slot w m;
        case r of
          Inl e \<Rightarrow> Some (Inl e, w, m)
        | Inr index \<Rightarrow> do {
            m \<leftarrow> write_bytes m (payload_offset (rw_payload_bytes w) index) data;
            (seq, w, m) \<leftarrow> publish w m index;
            Some (Inr (), w, m)
          }
      })"

definition raw_writer_try_acquire ::
    "raw_writer \<Rightarrow> mem \<Rightarrow> (write_handle zc_result \<times> mem) option" where
  "raw_writer_try_acquire w m =
     do {
       (r, m) \<leftarrow> claim_slot w m;
       case r of
         Inl e \<Rightarrow> Some (Inl e, m)
       | Inr index \<Rightarrow>
           Some (Inr \<lparr>wh_index = index, wh_ptr = payload_offset (rw_payload_bytes w) index,
                      wh_len = rw_payload_bytes w\<rparr>, m)
     }"

definition raw_writer_commit ::
    "raw_writer \<Rightarrow> mem \<Rightarrow> write_handle \<Rightarrow> (u64 \<times> raw_writer \<times> mem) option" where
  "raw_writer_commit w m handle = publish w m (wh_index handle)"

subsection \<open>Refinement of the abstract ring\<close>

definition rw_wf :: "raw_writer \<Rightarrow> mem \<Rightarrow> bool" where
  "rw_wf w m \<longleftrightarrow>
     seg_geom (rw_payload_bytes w) (rw_entry_count w) (length m) \<and>
     unat (rw_current_index w) < unat (rw_entry_count w)"

definition rw_ring :: "raw_writer \<Rightarrow> mem \<Rightarrow> ring" where
  "rw_ring w m = ring_of (rw_payload_bytes w) (rw_entry_count w) m"

definition busy_error :: "raw_writer \<Rightarrow> zc_error" where
  "busy_error w = Busy (''all '' @ show_u64 (rw_entry_count w) @ '' ring slots are held by a reader'')"

lemma unat_ring_index:
  assumes "seg_geom pb n len" "unat a < unat n" "unat b < unat n"
  shows "unat ((a + b) mod n) = (unat a + unat b) mod unat n"
proof -
  have "unat n < 2 ^ 60" using assms(1) by (rule seg_geom_count)
  with assms(2,3) have "unat (a + b) = unat a + unat b"
    by (intro unat_add_no_wrap) simp
  then show ?thesis by (simp add: unat_mod_u64)
qed

lemma unat_ring_succ:
  assumes "seg_geom pb n len" "unat a < unat n"
  shows "unat ((a + 1) mod n) = Suc (unat a) mod unat n"
proof -
  have "unat n < 2 ^ 60" using assms(1) by (rule seg_geom_count)
  with assms(2) have "unat (a + 1) = unat a + 1"
    by (subst unat_add_no_wrap) simp_all
  then show ?thesis by (simp add: unat_mod_u64)
qed

lemma claim_loop_eq:
  assumes wf: "rw_wf w m" and ns: "\<forall>n \<in> set ns. unat n < unat (rw_entry_count w)"
  shows "claim_loop w ns m =
     Some (case find (\<lambda>i. \<not> held (seq_at (rw_payload_bytes w) m i))
             (map (\<lambda>n. (unat (rw_current_index w) + unat n) mod unat (rw_entry_count w)) ns) of
             None \<Rightarrow> (Inl (busy_error w), m)
           | Some i \<Rightarrow> (Inr (word_of_nat i), set_seq (rw_payload_bytes w) m i 0))"
  using ns
proof (induction ns)
  case Nil
  then show ?case by (simp add: busy_error_def)
next
  case (Cons n ns)
  let ?pb = "rw_payload_bytes w" and ?n = "rw_entry_count w" and ?c = "rw_current_index w"
  from wf have g: "seg_geom ?pb ?n (length m)" and c: "unat ?c < unat ?n"
    by (auto simp: rw_wf_def)
  have idx: "unat ((?c + n) mod ?n) = (unat ?c + unat n) mod unat ?n"
    using unat_ring_index [OF g c] Cons.prems by simp
  moreover have "(unat ?c + unat n) mod unat ?n < unat ?n" using c by simp
  moreover have "(?c + n) mod ?n = word_of_nat ((unat ?c + unat n) mod unat ?n)"
    by (simp add: idx [symmetric])
  ultimately show ?case
    using Cons g by (simp add: Let_def)
qed

lemma claim_slot_eq:
  assumes "rw_wf w m"
  shows "claim_slot w m =
     Some (case ring_free_slot (unat (rw_current_index w)) (rw_ring w m) of
             None \<Rightarrow> (Inl (busy_error w), m)
           | Some i \<Rightarrow> (Inr (word_of_nat i), set_seq (rw_payload_bytes w) m i 0))"
proof -
  let ?n = "rw_entry_count w" and ?c = "unat (rw_current_index w)"
  have "map (\<lambda>k. (?c + unat k) mod unat ?n) (usize_range ?n) =
      map (\<lambda>k. (?c + k) mod unat ?n) (map unat (usize_range ?n))"
    by simp
  also have "\<dots> = probe_order (unat ?n) ?c"
    by (simp only: map_usize_range_unat probe_order_def)
  finally have po: "map (\<lambda>k. (?c + unat k) mod unat ?n) (usize_range ?n) = probe_order (unat ?n) ?c" .
  have n0: "0 < unat ?n" using assms by (simp add: rw_wf_def)
  have "find (\<lambda>i. \<not> held (seq_at (rw_payload_bytes w) m i)) (probe_order (unat ?n) ?c) =
      find (\<lambda>i. \<not> held (rg_seqs (rw_ring w m) ! i)) (probe_order (unat ?n) ?c)"
    by (rule find_cong) (use n0 in \<open>auto simp: set_probe_order rw_ring_def\<close>)
  then show ?thesis
    unfolding claim_slot_def
    by (subst claim_loop_eq [OF assms])
      (auto simp: set_usize_range word_less_nat_alt po ring_free_slot_def rw_ring_def)
qed

lemma ring_free_slot_bound:
  "rw_wf w m \<Longrightarrow> ring_free_slot c (rw_ring w m) = Some i \<Longrightarrow> i < unat (rw_entry_count w)"
  using ring_free_slot_Some(1) [of c "rw_ring w m" i]
  by (auto simp: rw_ring_def rw_wf_def simp flip: length_greater_0_conv)

lemma publish_eq:
  assumes "rw_wf w m" "unat index < unat (rw_entry_count w)"
  defines "seq \<equiv> rw_last_entry_seq w + 1"
  defines "cur \<equiv> word_of_nat (Suc (unat index) mod unat (rw_entry_count w))"
  shows "publish w m index =
     Some (seq, w\<lparr>rw_last_entry_seq := seq, rw_current_index := cur\<rparr>,
       set_hdr (set_hdr (set_seq (rw_payload_bytes w) m (unat index) seq)
         OFF_WRITE_INDEX cur) OFF_LAST_ENTRY_SEQ seq)"
proof -
  from assms(1) have g: "seg_geom (rw_payload_bytes w) (rw_entry_count w) (length m)"
    by (simp add: rw_wf_def)
  have 72: "72 \<le> length (set_seq (rw_payload_bytes w) m (unat index) seq)"
    using slots.wf_sseq [OF g assms(2)] by (rule seg_geom_72)
  have "(index + 1) mod rw_entry_count w = cur"
    unfolding cur_def by (simp add: unat_ring_succ [OF g assms(2), symmetric])
  moreover have "rw_entry_count w \<noteq> 0" using assms(2) by auto
  ultimately show ?thesis
    using g assms(2) 72 by (simp add: publish_def seq_def Let_def)
qed

lemma ring_of_published:
  assumes "seg_geom pb n (length m)" "i < unat n"
  shows "ring_of pb n (set_hdr (set_hdr (set_seq pb m i seq) OFF_WRITE_INDEX
      (word_of_nat (Suc i mod unat n))) OFF_LAST_ENTRY_SEQ seq) = ring_publish i seq (ring_of pb n m)"
proof -
  note g1 = slots.wf_sseq [OF assms, of seq]
  have g2: "seg_geom pb n (length (set_hdr (set_seq pb m i seq) OFF_WRITE_INDEX v))" for v
    using g1 seg_geom_72 [OF g1] by simp
  show ?thesis
    by (simp only: ring_of_set_wmark [OF g2] ring_of_set_windex [OF g1] ring_of_set_seq [OF assms])
      (simp add: ring_publish_def)
qed

text \<open>The segment and the writer after a committed write to position \<open>i\<close>.\<close>

definition committed_writer :: "raw_writer \<Rightarrow> nat \<Rightarrow> raw_writer" where
  "committed_writer w i =
     w\<lparr>rw_last_entry_seq := rw_last_entry_seq w + 1,
       rw_current_index := word_of_nat (Suc i mod unat (rw_entry_count w))\<rparr>"

definition published_mem :: "raw_writer \<Rightarrow> mem \<Rightarrow> nat \<Rightarrow> mem" where
  "published_mem w m i =
     set_hdr (set_hdr (set_seq (rw_payload_bytes w) m i (rw_last_entry_seq w + 1))
       OFF_WRITE_INDEX (word_of_nat (Suc i mod unat (rw_entry_count w))))
       OFF_LAST_ENTRY_SEQ (rw_last_entry_seq w + 1)"

lemma committed_writer_simps [simp]:
  "rw_payload_bytes (committed_writer w i) = rw_payload_bytes w"
  "rw_entry_count (committed_writer w i) = rw_entry_count w"
  "rw_last_entry_seq (committed_writer w i) = rw_last_entry_seq w + 1"
  "rw_current_index (committed_writer w i) = word_of_nat (Suc i mod unat (rw_entry_count w))"
  by (simp_all add: committed_writer_def)

lemma publish_published:
  "rw_wf w m \<Longrightarrow> i < unat (rw_entry_count w) \<Longrightarrow>
   publish w m (word_of_nat i) = Some (rw_last_entry_seq w + 1, committed_writer w i, published_mem w m i)"
  using unat_u64_lt [of "rw_entry_count w"]
  by (subst publish_eq) (simp_all add: committed_writer_def published_mem_def del: unat_u64_lt)

lemma length_set_seq:
  "seg_geom pb n (length m) \<Longrightarrow> i < unat n \<Longrightarrow> length (set_seq pb m i v) = length m"
  using slot_off_in [of pb n "length m" i] by (simp add: set_seq_def)

lemma length_set_pay:
  "seg_geom pb n (length m) \<Longrightarrow> i < unat n \<Longrightarrow> length bs = unat pb \<Longrightarrow>
   length (set_pay pb m i bs) = length m"
  using slot_off_in [of pb n "length m" i] by (simp add: set_pay_def)

lemma published_mem_facts:
  assumes "rw_wf w m" "i < unat (rw_entry_count w)"
  shows "length (published_mem w m i) = length m"
    and "rw_wf (committed_writer w i) (published_mem w m i)"
    and "rw_ring (committed_writer w i) (published_mem w m i) =
       ring_publish i (rw_last_entry_seq w + 1) (rw_ring w m)"
    and "hdr_off off \<Longrightarrow> off \<notin> {OFF_WRITE_INDEX, OFF_LAST_ENTRY_SEQ} \<Longrightarrow>
       hdr_at (published_mem w m i) off = hdr_at m off"
proof -
  from assms(1) have g: "seg_geom (rw_payload_bytes w) (rw_entry_count w) (length m)"
    by (simp add: rw_wf_def)
  note l = length_set_seq [OF g assms(2)]
  have 72: "72 \<le> length m" using g by (rule seg_geom_72)
  show len: "length (published_mem w m i) = length m"
    using 72 by (simp add: published_mem_def l)
  have "Suc i mod unat (rw_entry_count w) < unat (rw_entry_count w)"
    using assms(2) by simp
  then have "unat (rw_current_index (committed_writer w i)) < unat (rw_entry_count w)"
    by (simp add: unat_of_nat_below)
  with g len show "rw_wf (committed_writer w i) (published_mem w m i)"
    by (simp add: rw_wf_def)
  show "rw_ring (committed_writer w i) (published_mem w m i) =
       ring_publish i (rw_last_entry_seq w + 1) (rw_ring w m)"
    unfolding rw_ring_def published_mem_def committed_writer_simps
    by (rule ring_of_published [OF g assms(2)])
  show "hdr_off off \<Longrightarrow> off \<notin> {OFF_WRITE_INDEX, OFF_LAST_ENTRY_SEQ} \<Longrightarrow>
       hdr_at (published_mem w m i) off = hdr_at m off"
    using 72 g assms(2) by (auto simp: published_mem_def hdr_at_set_hdr l)
qed

lemma rw_wf_set_seq: "rw_wf w m \<Longrightarrow> i < unat (rw_entry_count w) \<Longrightarrow>
    rw_wf w (set_seq (rw_payload_bytes w) m i v)"
  by (auto simp: rw_wf_def length_set_seq)

lemma rw_wf_set_pay: "rw_wf w m \<Longrightarrow> i < unat (rw_entry_count w) \<Longrightarrow>
    length bs = unat (rw_payload_bytes w) \<Longrightarrow> rw_wf w (set_pay (rw_payload_bytes w) m i bs)"
  by (auto simp: rw_wf_def length_set_pay)

lemma rw_ring_set_seq: "rw_wf w m \<Longrightarrow> i < unat (rw_entry_count w) \<Longrightarrow>
    rw_ring w (set_seq (rw_payload_bytes w) m i v) = (rw_ring w m)\<lparr>rg_seqs := (rg_seqs (rw_ring w m))[i := v]\<rparr>"
  by (simp add: rw_ring_def rw_wf_def ring_of_set_seq)

lemma rw_ring_set_pay: "rw_wf w m \<Longrightarrow> i < unat (rw_entry_count w) \<Longrightarrow>
    length bs = unat (rw_payload_bytes w) \<Longrightarrow>
    rw_ring w (set_pay (rw_payload_bytes w) m i bs) = ring_fill i bs (rw_ring w m)"
  by (simp add: rw_ring_def rw_wf_def ring_of_set_pay)

text \<open>The segment after the payload copy and before the publication.\<close>

definition filled_mem :: "raw_writer \<Rightarrow> mem \<Rightarrow> nat \<Rightarrow> byte list \<Rightarrow> mem" where
  "filled_mem w m i bs = set_pay (rw_payload_bytes w) (set_seq (rw_payload_bytes w) m i 0) i bs"

lemma filled_mem_facts:
  assumes "rw_wf w m" "i < unat (rw_entry_count w)" "length bs = unat (rw_payload_bytes w)"
  shows "rw_wf w (filled_mem w m i bs)"
    and "length (filled_mem w m i bs) = length m"
    and "rw_ring w (filled_mem w m i bs) = ring_fill i bs (ring_clear i (rw_ring w m))"
    and "hdr_off off \<Longrightarrow> hdr_at (filled_mem w m i bs) off = hdr_at m off"
proof -
  let ?m = "set_seq (rw_payload_bytes w) m i 0"
  have wf: "rw_wf w ?m" using assms(1,2) by (rule rw_wf_set_seq)
  show "rw_wf w (filled_mem w m i bs)"
    unfolding filled_mem_def using wf assms(2,3) by (rule rw_wf_set_pay)
  show "length (filled_mem w m i bs) = length m"
    using assms wf by (auto simp: filled_mem_def rw_wf_def length_set_pay length_set_seq)
  show "rw_ring w (filled_mem w m i bs) = ring_fill i bs (ring_clear i (rw_ring w m))"
    using assms wf by (simp add: filled_mem_def rw_ring_set_pay rw_ring_set_seq ring_clear_def)
  show "hdr_off off \<Longrightarrow> hdr_at (filled_mem w m i bs) off = hdr_at m off"
    using assms wf by (auto simp: filled_mem_def rw_wf_def)
qed

lemma fill_acquired:
  assumes "rw_wf w m" "i < unat (rw_entry_count w)" "length bs = unat (rw_payload_bytes w)"
  shows "write_bytes (set_seq (rw_payload_bytes w) m i 0) (payload_offset (rw_payload_bytes w) (word_of_nat i)) bs =
     Some (filled_mem w m i bs)"
proof -
  have "seg_geom (rw_payload_bytes w) (rw_entry_count w) (length (set_seq (rw_payload_bytes w) m i 0))"
    using rw_wf_set_seq [OF assms(1,2)] by (simp add: rw_wf_def)
  from write_payload [OF this, of "word_of_nat i" bs] assms(2,3) show ?thesis
    by (simp add: filled_mem_def unat_of_nat_below)
qed

lemma ring_write_clear:
  "ring_publish i s (ring_fill i bs (ring_clear i r)) = ring_write i bs s r"
  by (simp add: ring_write_def ring_publish_def ring_fill_def ring_clear_def)

lemma raw_writer_write_eq:
  assumes "rw_wf w m" "length data = unat (rw_payload_bytes w)"
  shows "raw_writer_write w m data =
     Some (case ring_free_slot (unat (rw_current_index w)) (rw_ring w m) of
             None \<Rightarrow> (Inl (busy_error w), w, m)
           | Some i \<Rightarrow> (Inr (), committed_writer w i, published_mem w (filled_mem w m i data) i))"
proof (cases "ring_free_slot (unat (rw_current_index w)) (rw_ring w m)")
  case None
  with assms show ?thesis by (simp add: raw_writer_write_def claim_slot_eq)
next
  case (Some i)
  have i: "i < unat (rw_entry_count w)" using ring_free_slot_bound [OF assms(1) Some] .
  show ?thesis
    using assms Some
    by (simp add: raw_writer_write_def claim_slot_eq fill_acquired [OF assms(1) i assms(2)]
        publish_published [OF filled_mem_facts(1) [OF assms(1) i assms(2)] i])
qed

lemma rw_ring_written:
  assumes "rw_wf w m" "i < unat (rw_entry_count w)" "length bs = unat (rw_payload_bytes w)"
  shows "rw_ring (committed_writer w i) (published_mem w (filled_mem w m i bs) i) =
     ring_write i bs (rw_last_entry_seq w + 1) (rw_ring w m)"
  by (simp add: published_mem_facts(3) [OF filled_mem_facts(1) [OF assms] assms(2)]
      filled_mem_facts(3) [OF assms] ring_write_clear)

text \<open>
  C5: One write refines the abstract ring. The writer probes from its cursor for the first slot no
  reader holds. If there is one, the write succeeds: exactly that slot's control word and payload
  change, to the next sequence number and the data, the header's write index and high watermark
  follow, every other header word and the segment's length stay, and the writer stays well formed.
  If there is none, the write is refused as busy and nothing changes.
\<close>
theorem write_refines_ring:
  assumes "rw_wf w m" "length data = unat (rw_payload_bytes w)"
  shows "case ring_free_slot (unat (rw_current_index w)) (rw_ring w m) of
      None \<Rightarrow> raw_writer_write w m data = Some (Inl (busy_error w), w, m)
    | Some i \<Rightarrow> \<exists>w' m'. raw_writer_write w m data = Some (Inr (), w', m') \<and>
        i < unat (rw_entry_count w) \<and> \<not> held (rg_seqs (rw_ring w m) ! i) \<and>
        rw_ring w' m' = ring_write i data (rw_last_entry_seq w + 1) (rw_ring w m) \<and>
        rw_wf w' m' \<and> length m' = length m \<and>
        rw_last_entry_seq w' = rw_last_entry_seq w + 1 \<and>
        unat (rw_current_index w') = Suc i mod unat (rw_entry_count w) \<and>
        (\<forall>off. hdr_off off \<and> off \<notin> {OFF_WRITE_INDEX, OFF_LAST_ENTRY_SEQ} \<longrightarrow>
           hdr_at m' off = hdr_at m off)"
proof (cases "ring_free_slot (unat (rw_current_index w)) (rw_ring w m)")
  case None
  then show ?thesis using assms by (simp add: raw_writer_write_eq)
next
  case (Some i)
  have i: "i < unat (rw_entry_count w)" using ring_free_slot_bound [OF assms(1) Some] .
  then have "Suc i mod unat (rw_entry_count w) < unat (rw_entry_count w)" by simp
  then have ui: "unat (word_of_nat (Suc i mod unat (rw_entry_count w)) :: usize) =
      Suc i mod unat (rw_entry_count w)"
    by (rule unat_of_nat_below)
  note f = filled_mem_facts [OF assms(1) i assms(2)]
  note p = published_mem_facts [OF f(1) i]
  have "\<not> held (rg_seqs (rw_ring w m) ! i)"
    using ring_free_slot_Some(2) [OF Some] i by (auto simp: rw_ring_def simp flip: length_greater_0_conv)
  then show ?thesis
    using assms Some i ui p f rw_ring_written [OF assms(1) i assms(2)]
    by (simp add: raw_writer_write_eq)
qed

text \<open>A segment of two slots of eight bytes and a writer attached to it, for the witnesses.\<close>

definition demo_mem :: mem where
  "demo_mem = initialized 8 2 U8 1 (replicate 104 0)"

definition demo_writer :: raw_writer where
  "demo_writer = \<lparr>rw_payload_bytes = 8, rw_entry_count = 2, rw_current_index = 0, rw_last_entry_seq = 0\<rparr>"

lemma demo_writer_simps [simp]:
  "rw_payload_bytes demo_writer = 8" "rw_entry_count demo_writer = 2"
  "rw_current_index demo_writer = 0" "rw_last_entry_seq demo_writer = 0"
  by (simp_all add: demo_writer_def)

lemma demo_geom: "seg_geom 8 2 (length (replicate 104 (0 :: byte)))"
  by (simp add: seg_geom_def)

lemma demo_wf: "rw_wf demo_writer demo_mem"
  using initialized_views(1) [OF demo_geom]
  by (simp add: rw_wf_def demo_mem_def seg_geom_def)

lemma demo_ring:
  "rw_ring demo_writer demo_mem =
     \<lparr>rg_seqs = [0, 0], rg_pays = [replicate 8 0, replicate 8 0], rg_windex = 0, rg_wmark = 0\<rparr>"
  by (simp add: rw_ring_def demo_mem_def ring_of_def upt_rec
      initialized_views [OF demo_geom])

lemma demo_free_slot:
  "ring_free_slot 0 \<lparr>rg_seqs = [0, 0], rg_pays = ps, rg_windex = i, rg_wmark = s\<rparr> = Some 0"
  by (rule ring_free_slot_cursor) simp_all

theorem write_refines_ring_witness:
  "\<exists>w' m'. raw_writer_write demo_writer demo_mem [1, 2, 3, 4, 5, 6, 7, 8] = Some (Inr (), w', m') \<and>
     rg_seqs (rw_ring w' m') = [1, 0] \<and> rg_pays (rw_ring w' m') ! 0 = [1, 2, 3, 4, 5, 6, 7, 8] \<and>
     rg_wmark (rw_ring w' m') = 1"
  using write_refines_ring [OF demo_wf, of "[1, 2, 3, 4, 5, 6, 7, 8]"]
  by (auto simp: demo_free_slot demo_ring ring_write_def ring_publish_def ring_fill_def)

subsection \<open>Refusals and the zero-copy path\<close>

text \<open>
  A payload of the wrong length is refused with \<open>InvalidArgument\<close> before the segment is
  touched, whatever the state of the ring.
\<close>
theorem write_wrong_length:
  assumes "length data \<noteq> unat (rw_payload_bytes w)"
  shows "\<exists>msg. raw_writer_write w m data = Some (Inl (InvalidArgument msg), w, m)"
  using assms by (simp add: raw_writer_write_def)

theorem write_wrong_length_witness:
  "\<exists>msg. raw_writer_write demo_writer demo_mem [1, 2, 3] = Some (Inl (InvalidArgument msg), demo_writer, demo_mem)"
  by (rule write_wrong_length) simp

lemma raw_writer_try_acquire_eq:
  assumes "rw_wf w m"
  shows "raw_writer_try_acquire w m =
     Some (case ring_free_slot (unat (rw_current_index w)) (rw_ring w m) of
             None \<Rightarrow> (Inl (busy_error w), m)
           | Some i \<Rightarrow> (Inr \<lparr>wh_index = word_of_nat i,
                 wh_ptr = payload_offset (rw_payload_bytes w) (word_of_nat i),
                 wh_len = rw_payload_bytes w\<rparr>, set_seq (rw_payload_bytes w) m i 0))"
  using assms by (simp add: raw_writer_try_acquire_def claim_slot_eq split: option.split)

lemma try_acquire_twice_aliases_facts:
  assumes "rw_wf w m" "raw_writer_try_acquire w m = Some (Inr h, m1)"
  shows "raw_writer_try_acquire w m1 = Some (Inr h, m1)"
    and "length data = unat (rw_payload_bytes w) \<Longrightarrow>
      \<exists>w' m'. raw_writer_write w m1 data = Some (Inr (), w', m') \<and>
        read_bytes m' (wh_ptr h) (wh_len h) = Some data \<and>
        load_u64 m' (seq_cell (rw_payload_bytes w) (wh_index h)) = Some (rw_last_entry_seq w + 1)"
proof -
  let ?pb = "rw_payload_bytes w" and ?n = "rw_entry_count w" and ?c = "unat (rw_current_index w)"
  have ne: "rg_seqs (rw_ring w m) \<noteq> []"
    using assms(1) by (auto simp: rw_ring_def rw_wf_def simp flip: length_greater_0_conv)
  from assms obtain i where i: "ring_free_slot ?c (rw_ring w m) = Some i"
    and h: "h = \<lparr>wh_index = word_of_nat i, wh_ptr = payload_offset ?pb (word_of_nat i), wh_len = ?pb\<rparr>"
    and m1: "m1 = set_seq ?pb m i 0"
    by (auto simp: raw_writer_try_acquire_eq split: option.splits)
  have il: "i < unat ?n" using ring_free_slot_bound [OF assms(1) i] .
  have wf: "rw_wf w m1" unfolding m1 using assms(1) il by (rule rw_wf_set_seq)
  have free: "ring_free_slot ?c (rw_ring w m1) = Some i"
    using ring_free_slot_clear [OF i ne] assms(1) il
    by (simp add: m1 rw_ring_set_seq ring_clear_def)
  have "set_seq ?pb m1 i 0 = m1"
    using assms(1) slot_off_in [of ?pb ?n "length m" i] il
    by (simp add: m1 set_seq_def poke_poke_same rw_wf_def)
  with wf free h show "raw_writer_try_acquire w m1 = Some (Inr h, m1)"
    by (simp add: raw_writer_try_acquire_eq)
  assume d: "length data = unat ?pb"
  let ?m' = "published_mem w (filled_mem w m1 i data) i"
  note f = filled_mem_facts [OF wf il d] and r = rw_ring_written [OF wf il d]
  note p = published_mem_facts [OF f(1) il]
  have g: "seg_geom ?pb ?n (length ?m')" using p(2) by (simp add: rw_wf_def)
  have "seq_at ?pb ?m' i = rw_last_entry_seq w + 1" "pay_at ?pb ?m' i = data"
    using arg_cong [OF r, of "\<lambda>r. rg_seqs r ! i"] arg_cong [OF r, of "\<lambda>r. rg_pays r ! i"] il
    by (simp_all add: rw_ring_def ring_write_def ring_publish_def ring_fill_def)
  with g il have "read_bytes ?m' (wh_ptr h) (wh_len h) = Some data \<and>
      load_u64 ?m' (seq_cell ?pb (wh_index h)) = Some (rw_last_entry_seq w + 1)"
    by (simp add: h unat_of_nat_below)
  with wf d free show "\<exists>w' m'. raw_writer_write w m1 data = Some (Inr (), w', m') \<and>
        read_bytes m' (wh_ptr h) (wh_len h) = Some data \<and>
        load_u64 m' (seq_cell ?pb (wh_index h)) = Some (rw_last_entry_seq w + 1)"
    by (simp add: raw_writer_write_eq)
qed

text \<open>
  Acquiring does not advance the cursor, so a second acquisition before the first handle is
  committed or dropped hands out the same slot again: two live handles with the same address,
  although each is documented as exclusive. A \<open>write\<close> in between also goes to that slot and
  publishes it while the first handle can still write through its view.
\<close>
theorem try_acquire_twice_aliases:
  assumes "rw_wf w m" "raw_writer_try_acquire w m = Some (Inr h, m1)"
  shows "raw_writer_try_acquire w m1 = Some (Inr h, m1) \<and>
     (length data = unat (rw_payload_bytes w) \<longrightarrow>
      (\<exists>w' m'. raw_writer_write w m1 data = Some (Inr (), w', m') \<and>
        read_bytes m' (wh_ptr h) (wh_len h) = Some data \<and>
        load_u64 m' (seq_cell (rw_payload_bytes w) (wh_index h)) = Some (rw_last_entry_seq w + 1)))"
  using try_acquire_twice_aliases_facts [OF assms] by blast

theorem try_acquire_twice_aliases_witness:
  "\<exists>h m1. raw_writer_try_acquire demo_writer demo_mem = Some (Inr h, m1) \<and>
     raw_writer_try_acquire demo_writer m1 = Some (Inr h, m1)"
proof -
  obtain h m1 where a: "raw_writer_try_acquire demo_writer demo_mem = Some (Inr h, m1)"
    by (simp add: raw_writer_try_acquire_eq [OF demo_wf] demo_ring demo_free_slot)
  with try_acquire_twice_aliases [OF demo_wf a] show ?thesis by blast
qed

subsection \<open>Recovery\<close>

text \<open>The largest sequence number the header or the ring knows of.\<close>

definition ring_max_seq :: "u64 \<Rightarrow> ring \<Rightarrow> u64" where
  "ring_max_seq hdr r = Max (set (hdr # map unsigned_abs (rg_seqs r)))"

lemma recover_scan_eq:
  "seg_geom pb n (length m) \<Longrightarrow> \<forall>i \<in> set is. unat i < unat n \<Longrightarrow>
   recover_scan m pb is mx = Some (fold max (map (\<lambda>i. unsigned_abs (seq_at pb m (unat i))) is) mx)"
proof (induction "is" arbitrary: mx)
  case Nil
  then show ?case by simp
next
  case (Cons i "is")
  have "(if a < b then b else a) = max b a" for a b :: u64
    by (auto simp: max_def)
  with Cons show ?case by (simp add: Let_def)
qed

lemma recover_scan_range:
  assumes "seg_geom pb n (length m)"
  shows "recover_scan m pb (usize_range n) mx = Some (ring_max_seq mx (ring_of pb n m))"
proof -
  have "map (\<lambda>i. unsigned_abs (seq_at pb m (unat i))) (usize_range n) =
      map (\<lambda>i. unsigned_abs (seq_at pb m i)) (map unat (usize_range n))"
    by simp
  also have "\<dots> = map unsigned_abs (rg_seqs (ring_of pb n m))"
    by (simp only: map_usize_range_unat) (simp add: ring_of_def)
  finally show ?thesis
    using assms
    by (subst recover_scan_eq) (auto simp: set_usize_range word_less_nat_alt ring_max_seq_def
        Max.set_eq_fold simp del: list.set)
qed

lemma recover_state_eq:
  fixes hwi :: usize and hls :: u64
  assumes g: "seg_geom pb n (length m)"
  defines "wi \<equiv> unat hwi mod unat n"
  defines "mx \<equiv> ring_max_seq hls (ring_of pb n m)"
  shows "recover_state m pb n hwi hls =
     Some (mx, word_of_nat (if unsigned_abs (seq_at pb m wi) \<noteq> 0 \<and> unsigned_abs (seq_at pb m wi) = mx
                            then Suc wi mod unat n else wi))"
proof -
  have n: "0 < unat n" "n \<noteq> 0" using g by (auto simp: seg_geom_def)
  then have "max n 1 = n" by (intro max_absorb1) (simp add: word_le_nat_alt Suc_le_eq)
  then have u: "unat (hwi mod max n 1) = wi" by (simp add: wi_def unat_mod_u64)
  have wi: "wi < unat n" using n by (simp add: wi_def)
  then have s: "(hwi mod max n 1 + 1) mod n = word_of_nat (Suc wi mod unat n)"
    using unat_ring_succ [OF g, of "hwi mod max n 1"] u
    by (metis word_unat_eq_iff mod_less_divisor n(1) unat_of_nat_below)
  show ?thesis
    using load_seq_cell [OF g, of "hwi mod max n 1"] u wi n(2)
    by (simp add: recover_state_def recover_scan_range [OF g] mx_def [symmetric] Let_def s)
      (metis u word_unat_eq_iff unat_of_nat_below wi)
qed

end
