(* ===== verification/Zc_Reader.thy ===== *)
theory Zc_Reader
  imports Zc_Writer
begin

text \<open>
  The reader end of the ring protocol (\<open>zerochannel-core/src/reader.rs\<close>): slot location, the
  one-copy read with its double read of \<open>entry_seq\<close>, and the zero-copy acquire and release.

  A reader runs while the writer and other readers change the segment. Its operations therefore
  take a \<^emph>\<open>view\<close>: the segment as it is at each moment, where every access of the operation
  happens at a moment of its own. The copy of a payload takes one moment per byte, so a torn
  copy is a possible outcome. The view that never changes is the reader running alone.
\<close>

record raw_reader =
  rr_payload_bytes :: usize
  rr_entry_count :: usize
  rr_last_entry_seq :: u64
  rr_last_read_idx :: usize

definition raw_reader_attach :: "header \<Rightarrow> raw_reader" where
  "raw_reader_attach h =
     \<lparr>rr_payload_bytes = hdr_payload_bytes h, rr_entry_count = hdr_entry_count h,
      rr_last_entry_seq = 0, rr_last_read_idx = 0\<rparr>"

definition raw_reader_payload_bytes :: "raw_reader \<Rightarrow> usize" where
  "raw_reader_payload_bytes r = rr_payload_bytes r"

definition raw_reader_entry_count :: "raw_reader \<Rightarrow> usize" where
  "raw_reader_entry_count r = rr_entry_count r"

definition raw_reader_last_entry_seq :: "raw_reader \<Rightarrow> u64" where
  "raw_reader_last_entry_seq r = rr_last_entry_seq r"

text \<open>\<open>RawReader::seq_at\<close> borrows a control word; here, as for \<open>seq_cell\<close>, it is the address.\<close>

definition raw_reader_seq_at :: "raw_reader \<Rightarrow> usize \<Rightarrow> usize" where
  "raw_reader_seq_at r idx = seq_cell (rr_payload_bytes r) idx"

lemmas raw_reader_getters [simp] =
  raw_reader_payload_bytes_def raw_reader_entry_count_def raw_reader_last_entry_seq_def raw_reader_seq_at_def

definition writer_entry_seq :: "view \<Rightarrow> nat \<Rightarrow> u64 option" where
  "writer_entry_seq v t = load_u64 (v t) high_watermark"

definition saturating_add :: "u64 \<Rightarrow> u64 \<Rightarrow> u64" where
  "saturating_add a b = (if unat a + unat b < 2 ^ 64 then a + b else - 1)"

subsection \<open>Locating a slot\<close>

fun locate_scan ::
    "raw_reader \<Rightarrow> view \<Rightarrow> u64 \<Rightarrow> usize list \<Rightarrow> nat \<Rightarrow> (usize \<times> u64) option \<Rightarrow>
     ((usize \<times> u64) option \<times> nat) option" where
  "locate_scan r v watermark [] t best = Some (best, t)"
| "locate_scan r v watermark (idx # idxs) t best =
     do {
       raw \<leftarrow> load_u64 (v t) (raw_reader_seq_at r idx);
       if sint raw \<le> 0 then locate_scan r v watermark idxs (Suc t) best
       else if raw \<le> watermark then locate_scan r v watermark idxs (Suc t) best
       else locate_scan r v watermark idxs (Suc t)
              (case best of
                 None \<Rightarrow> Some (idx, raw)
               | Some (_, best_seq) \<Rightarrow> if raw < best_seq then Some (idx, raw) else best)
     }"

definition locate ::
    "raw_reader \<Rightarrow> view \<Rightarrow> nat \<Rightarrow> u64 \<Rightarrow> ((usize \<times> u64) option \<times> nat) option" where
  "locate r v t watermark =
     (if rr_entry_count r = 0 then None
      else
        let next_idx = (rr_last_read_idx r + 1) mod rr_entry_count r in
        do {
          nxt \<leftarrow> load_u64 (v t) (raw_reader_seq_at r next_idx);
          if 0 < sint nxt \<and> nxt = saturating_add watermark 1
          then Some (Some (next_idx, nxt), Suc t)
          else locate_scan r v watermark (usize_range (rr_entry_count r)) (Suc t) None
        })"

definition watermark :: "raw_reader \<Rightarrow> view \<Rightarrow> nat \<Rightarrow> u64 option \<Rightarrow> u64 option option" where
  "watermark r v t from_entry_seq =
     do {
       hw \<leftarrow> writer_entry_seq v t;
       let wm = (case from_entry_seq of None \<Rightarrow> rr_last_entry_seq r | Some s \<Rightarrow> s) in
       Some (if hw \<le> wm then None else Some wm)
     }"

subsection \<open>The one-copy path\<close>

definition copy_out :: "view \<Rightarrow> nat \<Rightarrow> usize \<Rightarrow> usize \<Rightarrow> byte list option" where
  "copy_out v t a n =
     (if list_all (\<lambda>k. unat a + unat n \<le> length (v (t + k))) [0..<unat n]
      then Some (map (\<lambda>k. v (t + k) ! (unat a + k)) [0..<unat n]) else None)"

fun read_loop ::
    "raw_reader \<Rightarrow> view \<Rightarrow> u64 \<Rightarrow> nat \<Rightarrow> nat \<Rightarrow> byte list \<Rightarrow>
     (u64 option \<times> raw_reader \<times> byte list \<times> nat) option" where
  "read_loop r v wm 0 t dst = Some (None, r, dst, t)"
| "read_loop r v wm (Suc k) t dst =
     do {
       (loc, t1) \<leftarrow> locate r v t wm;
       case loc of
         None \<Rightarrow> Some (None, r, dst, t1)
       | Some (index, seq) \<Rightarrow>
           do {
             bytes \<leftarrow> copy_out v t1 (payload_offset (rr_payload_bytes r) index) (rr_payload_bytes r);
             let t2 = t1 + unat (rr_payload_bytes r) in
             do {
               again \<leftarrow> load_u64 (v t2) (raw_reader_seq_at r index);
               if again \<noteq> seq then read_loop r v wm k (Suc t2) bytes
               else Some (Some seq, r\<lparr>rr_last_entry_seq := seq, rr_last_read_idx := index\<rparr>,
                      bytes, Suc t2)
             }
           }
     }"

definition raw_reader_read_into ::
    "raw_reader \<Rightarrow> view \<Rightarrow> nat \<Rightarrow> byte list \<Rightarrow> u64 option \<Rightarrow>
     ((u64 option) zc_result \<times> raw_reader \<times> byte list \<times> nat) option" where
  "raw_reader_read_into r v t dst from_entry_seq =
     (if length dst \<noteq> unat (rr_payload_bytes r)
      then Some (Inl (InvalidArgument (''destination holds '' @ show_nat (length dst) @
             '' bytes, expected '' @ show_u64 (rr_payload_bytes r))), r, dst, t)
      else do {
        w \<leftarrow> watermark r v t from_entry_seq;
        case w of
          None \<Rightarrow> Some (Inr None, r, dst, Suc t)
        | Some wm \<Rightarrow> do {
            (res, r', dst', t') \<leftarrow> read_loop r v wm READ_RETRIES (Suc t) dst;
            Some (Inr res, r', dst', t')
          }
      })"

subsection \<open>The zero-copy path\<close>

fun acquire_loop ::
    "raw_reader \<Rightarrow> view \<Rightarrow> u64 \<Rightarrow> nat \<Rightarrow> nat \<Rightarrow>
     (read_handle option \<times> raw_reader \<times> mem \<times> nat) option" where
  "acquire_loop r v wm 0 t = Some (None, r, v t, t)"
| "acquire_loop r v wm (Suc k) t =
     do {
       (loc, t1) \<leftarrow> locate r v t wm;
       case loc of
         None \<Rightarrow> Some (None, r, v t1, t1)
       | Some (index, seq) \<Rightarrow>
           do {
             (cas, m) \<leftarrow> compare_exchange (v t1) (raw_reader_seq_at r index) seq (- seq);
             case cas of
               Inl _ \<Rightarrow> acquire_loop r v wm k (Suc t1)
             | Inr _ \<Rightarrow>
                 Some (Some \<lparr>rh_index = index, rh_entry_seq = seq,
                             rh_ptr = payload_offset (rr_payload_bytes r) index,
                             rh_len = rr_payload_bytes r\<rparr>,
                       r\<lparr>rr_last_entry_seq := seq, rr_last_read_idx := index\<rparr>, m, Suc t1)
           }
     }"

definition raw_reader_try_acquire ::
    "raw_reader \<Rightarrow> view \<Rightarrow> nat \<Rightarrow> u64 option \<Rightarrow>
     ((read_handle option) zc_result \<times> raw_reader \<times> mem \<times> nat) option" where
  "raw_reader_try_acquire r v t from_entry_seq =
     do {
       w \<leftarrow> watermark r v t from_entry_seq;
       case w of
         None \<Rightarrow> Some (Inr None, r, v t, Suc t)
       | Some wm \<Rightarrow> do {
           (h, r', m', t') \<leftarrow> acquire_loop r v wm READ_RETRIES (Suc t);
           Some (Inr h, r', m', t')
         }
     }"

definition raw_reader_release :: "raw_reader \<Rightarrow> mem \<Rightarrow> read_handle \<Rightarrow> mem option" where
  "raw_reader_release r m handle =
     store_u64 m (raw_reader_seq_at r (rh_index handle)) (rh_entry_seq handle)"

subsection \<open>Running alone: the reader against a segment that does not change\<close>

definition rr_wf :: "raw_reader \<Rightarrow> mem \<Rightarrow> bool" where
  "rr_wf r m \<longleftrightarrow>
     seg_geom (rr_payload_bytes r) (rr_entry_count r) (length m) \<and>
     unat (rr_last_read_idx r) < unat (rr_entry_count r)"

definition rr_ring :: "raw_reader \<Rightarrow> mem \<Rightarrow> ring" where
  "rr_ring r m = ring_of (rr_payload_bytes r) (rr_entry_count r) m"

text \<open>No sequence number is in the ring twice, held or not.\<close>

definition seqs_unique :: "ring \<Rightarrow> bool" where
  "seqs_unique g \<longleftrightarrow>
     (\<forall>i < length (rg_seqs g). \<forall>j < length (rg_seqs g).
        rg_seqs g ! i \<noteq> 0 \<and> unsigned_abs (rg_seqs g ! i) = unsigned_abs (rg_seqs g ! j) \<longrightarrow> i = j)"

lemma seqs_uniqueD:
  "seqs_unique g \<Longrightarrow> i < length (rg_seqs g) \<Longrightarrow> j < length (rg_seqs g) \<Longrightarrow>
   rg_seqs g ! i = rg_seqs g ! j \<Longrightarrow> rg_seqs g ! i \<noteq> 0 \<Longrightarrow> i = j"
  unfolding seqs_unique_def by metis

text \<open>
  What a scan of the slots \<open>is\<close> returns, each slot loaded at its own moment: a candidate it saw
  (or the best one so far), and none it saw is smaller.
\<close>

definition scan_best :: "(usize \<times> u64) option \<Rightarrow> u64 \<Rightarrow> usize \<Rightarrow> u64 \<Rightarrow> (usize \<times> u64) option" where
  "scan_best best wm idx raw =
     (if sint raw \<le> 0 \<or> raw \<le> wm then best
      else case best of
             None \<Rightarrow> Some (idx, raw)
           | Some (_, best_seq) \<Rightarrow> if raw < best_seq then Some (idx, raw) else best)"

lemma locate_scan_Cons:
  "locate_scan r v wm (idx # idxs) t best =
     do {
       raw \<leftarrow> load_u64 (v t) (seq_cell (rr_payload_bytes r) idx);
       locate_scan r v wm idxs (Suc t) (scan_best best wm idx raw)
     }"
  by (cases "load_u64 (v t) (seq_cell (rr_payload_bytes r) idx)") (auto simp: scan_best_def)

definition scan_spec ::
    "raw_reader \<Rightarrow> view \<Rightarrow> u64 \<Rightarrow> usize list \<Rightarrow> nat \<Rightarrow> (usize \<times> u64) option \<Rightarrow>
     (usize \<times> u64) option \<Rightarrow> bool" where
  "scan_spec r v wm is t best res \<longleftrightarrow>
     (\<forall>i s. res = Some (i, s) \<longrightarrow> best = Some (i, s) \<or>
        (\<exists>k < length is. is ! k = i \<and> 0 < sint s \<and> wm < s \<and>
           load_u64 (v (t + k)) (seq_cell (rr_payload_bytes r) i) = Some s)) \<and>
     (\<forall>j b. best = Some (j, b) \<longrightarrow> (\<exists>i s. res = Some (i, s) \<and> s \<le> b)) \<and>
     (\<forall>k < length is. \<forall>x.
        load_u64 (v (t + k)) (seq_cell (rr_payload_bytes r) (is ! k)) = Some x \<longrightarrow>
        0 < sint x \<longrightarrow> wm < x \<longrightarrow> (\<exists>i s. res = Some (i, s) \<and> s \<le> x))"

lemma scan_spec_Cons:
  assumes raw: "load_u64 (v t) (seq_cell (rr_payload_bytes r) a) = Some raw"
    and tl: "scan_spec r v wm is (Suc t) (scan_best best wm a raw) res"
  shows "scan_spec r v wm (a # is) t best res"
  unfolding scan_spec_def
proof (intro conjI allI impI)
  let ?b = "scan_best best wm a raw"
  note tl1 = tl [unfolded scan_spec_def, THEN conjunct1, rule_format]
  note tl2 = tl [unfolded scan_spec_def, THEN conjunct2, THEN conjunct1, rule_format]
  note tl3 = tl [unfolded scan_spec_def, THEN conjunct2, THEN conjunct2, rule_format]
  have b1: "?b = best \<or> ?b = Some (a, raw) \<and> 0 < sint raw \<and> wm < raw"
    by (auto simp: scan_best_def not_le split: option.splits)
  have b2: "\<exists>i s. ?b = Some (i, s) \<and> s \<le> b" if "best = Some (j, b)" for j b
    using that by (auto simp: scan_best_def)
  have b3: "\<exists>i s. ?b = Some (i, s) \<and> s \<le> raw" if "0 < sint raw" "wm < raw"
    using that by (auto simp: scan_best_def not_less split: option.splits)
  show "best = Some (i, s) \<or> (\<exists>k < length (a # is). (a # is) ! k = i \<and> 0 < sint s \<and> wm < s \<and>
      load_u64 (v (t + k)) (seq_cell (rr_payload_bytes r) i) = Some s)" if "res = Some (i, s)" for i s
    using tl1 [OF that] b1 raw by (auto intro: exI [of _ 0] exI [of _ "Suc k" for k])
  show "\<exists>i s. res = Some (i, s) \<and> s \<le> b" if "best = Some (j, b)" for j b
    using b2 [OF that] tl2 by (blast intro: order_trans)
  show "\<exists>i s. res = Some (i, s) \<and> s \<le> x"
    if "k < length (a # is)" and x: "0 < sint x" "wm < x"
      and ld: "load_u64 (v (t + k)) (seq_cell (rr_payload_bytes r) ((a # is) ! k)) = Some x" for k x
  proof (cases k)
    case 0
    with ld raw x b3 show ?thesis using tl2 by (fastforce intro: order_trans)
  next
    case (Suc k')
    with that tl3 [of k' x] show ?thesis by simp
  qed
qed

lemma locate_scan_sound:
  "locate_scan r v wm is t best = Some (res, t') \<Longrightarrow>
   scan_spec r v wm is t best res \<and> t' = t + length is"
proof (induction "is" arbitrary: t best)
  case Nil
  then show ?case by (auto simp: scan_spec_def)
next
  case (Cons a "is")
  then obtain raw where raw: "load_u64 (v t) (seq_cell (rr_payload_bytes r) a) = Some raw"
    and rest: "locate_scan r v wm is (Suc t) (scan_best best wm a raw) = Some (res, t')"
    by (auto simp: locate_scan_Cons bind_eq_Some_conv simp del: locate_scan.simps)
  from Cons.IH [OF rest] scan_spec_Cons [where v = v and t = t, OF raw] show ?case by simp
qed

lemma locate_scan_defined:
  "\<forall>k < length is. \<exists>x. load_u64 (v (t + k)) (seq_cell (rr_payload_bytes r) (is ! k)) = Some x \<Longrightarrow>
   \<exists>res. locate_scan r v wm is t best = Some (res, t + length is)"
proof (induction "is" arbitrary: t best)
  case Nil
  then show ?case by simp
next
  case (Cons a "is")
  from Cons.prems obtain raw where raw: "load_u64 (v t) (seq_cell (rr_payload_bytes r) a) = Some raw"
    by (metis add_0_right length_greater_0_conv list.distinct(1) nth_Cons_0)
  from Cons.prems have "\<forall>k < length is. \<exists>x.
      load_u64 (v (Suc t + k)) (seq_cell (rr_payload_bytes r) (is ! k)) = Some x"
    by (metis Suc_less_eq add_Suc_shift length_Cons nth_Cons_Suc)
  from Cons.IH [OF this] raw show ?case
    by (simp add: locate_scan_Cons del: locate_scan.simps)
qed


text \<open>Every located entry was seen committed and newer than the watermark at some moment.\<close>

lemma saturating_succ:
  assumes "0 < sint s" "s = saturating_add wm 1"
  shows "wm < s" "\<And>x. wm < x \<Longrightarrow> s \<le> x"
proof -
  have "s \<noteq> - 1" using assms(1) by auto
  with assms(2) have u: "unat wm + 1 < 2 ^ 64" "s = wm + 1"
    by (auto simp: saturating_add_def split: if_splits)
  then have "unat s = unat wm + 1" by (simp add: unat_add_no_wrap)
  then show "wm < s" "\<And>x. wm < x \<Longrightarrow> s \<le> x"
    by (auto simp: word_less_nat_alt word_le_nat_alt)
qed

lemma locate_seen:
  assumes "locate r v t wm = Some (Some (i, s), t')"
  shows "\<exists>k. t \<le> k \<and> k < t' \<and> load_u64 (v k) (seq_cell (rr_payload_bytes r) i) = Some s"
    and "0 < sint s" and "wm < s" and "i < rr_entry_count r" and "t < t'"
proof -
  let ?n = "rr_entry_count r" and ?pb = "rr_payload_bytes r"
  let ?j = "(rr_last_read_idx r + 1) mod ?n"
  from assms have n: "?n \<noteq> 0" by (auto simp: locate_def split: if_splits)
  with assms obtain nxt where nx: "load_u64 (v t) (seq_cell ?pb ?j) = Some nxt"
    and cs: "0 < sint nxt \<and> nxt = saturating_add wm 1 \<and> i = ?j \<and> s = nxt \<and> t' = Suc t \<or>
       locate_scan r v wm (usize_range ?n) (Suc t) None = Some (Some (i, s), t')"
    by (auto simp: locate_def Let_def bind_eq_Some_conv split: if_splits)
  from cs have "(\<exists>k. t \<le> k \<and> k < t' \<and> load_u64 (v k) (seq_cell ?pb i) = Some s) \<and>
      0 < sint s \<and> wm < s \<and> i < ?n \<and> t < t'"
  proof
    assume c: "0 < sint nxt \<and> nxt = saturating_add wm 1 \<and> i = ?j \<and> s = nxt \<and> t' = Suc t"
    have "?j < ?n" using n by (intro usize_mod_less) (simp add: word_neq_0_conv)
    with c nx saturating_succ(1) [of s wm] show ?thesis by auto
  next
    assume sc: "locate_scan r v wm (usize_range ?n) (Suc t) None = Some (Some (i, s), t')"
    then obtain k where k: "k < length (usize_range ?n)" "usize_range ?n ! k = i"
        "0 < sint s" "wm < s" "load_u64 (v (Suc t + k)) (seq_cell ?pb i) = Some s"
      and t': "t' = Suc t + length (usize_range ?n)"
      using locate_scan_sound [OF sc] by (auto simp: scan_spec_def)
    moreover have "i < ?n" using nth_mem [OF k(1)] k(2) by (simp add: set_usize_range)
    ultimately show ?thesis by (intro conjI exI [of _ "Suc t + k"]) auto
  qed
  then show "\<exists>k. t \<le> k \<and> k < t' \<and> load_u64 (v k) (seq_cell ?pb i) = Some s"
    and "0 < sint s" and "wm < s" and "i < ?n" and "t < t'" by auto
qed

text \<open>On a view of well-formed segments the search always returns.\<close>

lemma locate_defined:
  assumes g: "\<And>k. seg_geom (rr_payload_bytes r) (rr_entry_count r) (length (v k))"
  shows "\<exists>res t'. locate r v t wm = Some (res, t') \<and> t < t'"
proof -
  let ?n = "rr_entry_count r" and ?pb = "rr_payload_bytes r"
  have n: "?n \<noteq> 0" using g [of 0] by (auto simp: seg_geom_def)
  have "(rr_last_read_idx r + 1) mod ?n < ?n"
    using n by (intro usize_mod_less) (simp add: word_neq_0_conv)
  then have nx: "load_u64 (v t) (seq_cell ?pb ((rr_last_read_idx r + 1) mod ?n)) =
      Some (seq_at ?pb (v t) (unat ((rr_last_read_idx r + 1) mod ?n)))"
    using g [of t] by (simp add: word_less_nat_alt)
  have "\<forall>k < length (usize_range ?n). \<exists>x.
      load_u64 (v (Suc t + k)) (seq_cell ?pb (usize_range ?n ! k)) = Some x"
  proof (intro allI impI)
    fix k assume "k < length (usize_range ?n)"
    then have "usize_range ?n ! k < ?n" using nth_mem set_usize_range by blast
    with g [of "Suc t + k"]
    show "\<exists>x. load_u64 (v (Suc t + k)) (seq_cell ?pb (usize_range ?n ! k)) = Some x"
      by (simp add: word_less_nat_alt)
  qed
  from locate_scan_defined [OF this] obtain res where
    "locate_scan r v wm (usize_range ?n) (Suc t) None = Some (res, Suc t + unat ?n)" by auto
  with n nx show ?thesis by (auto simp: locate_def Let_def)
qed

text \<open>
  The copy that a read returns: its entry was located before the copy began, and its slot carried
  the same number again after the copy had ended. On well-formed views a read always returns.
\<close>

lemma read_loop_sound:
  "read_loop r v wm k t dst = Some (Some s, r', bytes, t') \<Longrightarrow>
   \<exists>i t0 t1. t \<le> t0 \<and> t0 < t1 \<and> t' = Suc (t1 + unat (rr_payload_bytes r)) \<and>
     i < rr_entry_count r \<and> 0 < sint s \<and> wm < s \<and>
     load_u64 (v t0) (seq_cell (rr_payload_bytes r) i) = Some s \<and>
     copy_out v t1 (payload_offset (rr_payload_bytes r) i) (rr_payload_bytes r) = Some bytes \<and>
     load_u64 (v (t1 + unat (rr_payload_bytes r))) (seq_cell (rr_payload_bytes r) i) = Some s \<and>
     r' = r\<lparr>rr_last_entry_seq := s, rr_last_read_idx := i\<rparr>"
proof (induction k arbitrary: t dst)
  case 0
  then show ?case by simp
next
  case (Suc k)
  let ?pb = "rr_payload_bytes r"
  from Suc.prems obtain i q t1 bs again where
      l: "locate r v t wm = Some (Some (i, q), t1)"
    and c: "copy_out v t1 (payload_offset ?pb i) ?pb = Some bs"
    and ag: "load_u64 (v (t1 + unat ?pb)) (seq_cell ?pb i) = Some again"
    and rest: "(if again \<noteq> q then read_loop r v wm k (Suc (t1 + unat ?pb)) bs
        else Some (Some q, r\<lparr>rr_last_entry_seq := q, rr_last_read_idx := i\<rparr>, bs, Suc (t1 + unat ?pb)))
       = Some (Some s, r', bytes, t')"
    by (auto simp: bind_eq_Some_conv Let_def split: option.splits)
  note ls = locate_seen [OF l]
  show ?case
  proof (cases "again = q")
    case True
    from ls(1) obtain t0 where "t \<le> t0" "t0 < t1" "load_u64 (v t0) (seq_cell ?pb i) = Some q" by blast
    with True rest c ag ls(2-) show ?thesis by (intro exI [of _ i] exI [of _ t0] exI [of _ t1]) auto
  next
    case False
    with rest have "read_loop r v wm k (Suc (t1 + unat ?pb)) bs = Some (Some s, r', bytes, t')" by simp
    from Suc.IH [OF this] obtain i t0 t2 where
      x: "Suc (t1 + unat ?pb) \<le> t0" "t0 < t2" "t' = Suc (t2 + unat ?pb)"
        "i < rr_entry_count r" "0 < sint s" "wm < s" "load_u64 (v t0) (seq_cell ?pb i) = Some s"
        "copy_out v t2 (payload_offset ?pb i) ?pb = Some bytes"
        "load_u64 (v (t2 + unat ?pb)) (seq_cell ?pb i) = Some s"
        "r' = r\<lparr>rr_last_entry_seq := s, rr_last_read_idx := i\<rparr>" by blast
    moreover have "t \<le> t0" using x(1) ls(5) by simp
    ultimately show ?thesis by blast
  qed
qed

lemma copy_out_defined:
  assumes "\<And>k. seg_geom pb n (length (v k))" "i < n"
  shows "copy_out v t (payload_offset pb i) pb =
     Some (map (\<lambda>k. pay_at pb (v (t + k)) (unat i) ! k) [0..<unat pb])"
proof -
  have i: "unat i < unat n" using assms(2) by (simp add: word_less_nat_alt)
  note off = unat_payload_offset [OF assms(1) i] and b = slot_off_in [OF assms(1) i]
  have "v (t + k) ! (slot_off pb (unat i) + 8 + k) = pay_at pb (v (t + k)) (unat i) ! k"
    if "k < unat pb" for k
    using b [of "t + k"] that by (simp add: pay_at_def bytes_at_def)
  with b show ?thesis by (simp add: copy_out_def off list_all_iff)
qed

lemma read_loop_defined:
  assumes g: "\<And>k. seg_geom (rr_payload_bytes r) (rr_entry_count r) (length (v k))"
  shows "\<exists>res r' bytes t'. read_loop r v wm k t dst = Some (res, r', bytes, t') \<and>
     (res = None \<longrightarrow> r' = r)"
proof (induction k arbitrary: t dst)
  case 0
  then show ?case by simp
next
  case (Suc k)
  let ?pb = "rr_payload_bytes r"
  from locate_defined [where v = v, OF g] obtain res t1 where l: "locate r v t wm = Some (res, t1)" by blast
  show ?case
  proof (cases res)
    case None
    with l show ?thesis by simp
  next
    case (Some p)
    obtain i q where p: "p = (i, q)" by (cases p)
    have i: "i < rr_entry_count r" using locate_seen(4) l Some p by blast
    then have "unat i < unat (rr_entry_count r)" by (simp add: word_less_nat_alt)
    note ld = load_seq_cell [OF g this, of "t1 + unat ?pb"]
    from l Some p copy_out_defined [where v = v, OF g i, where t = t1] ld Suc.IH show ?thesis
      by (simp add: Let_def)
  qed
qed

text \<open>
  Running alone, the search returns the oldest committed entry newer than the watermark: the fast
  path and the scan agree, because no sequence number is in the ring twice.
\<close>

lemma locate_None_still:
  assumes wf: "rr_wf r m" and "locate r (still m) t wm = Some (None, t')"
  shows "ring_next wm (rr_ring r m) = None"
proof -
  let ?n = "rr_entry_count r" and ?pb = "rr_payload_bytes r"
  have g: "seg_geom ?pb ?n (length m)" using wf by (simp add: rr_wf_def)
  from assms(2) have sc: "locate_scan r (still m) wm (usize_range ?n) (Suc t) None = Some (None, t')"
    by (auto simp: locate_def Let_def bind_eq_Some_conv split: if_splits)
  have "\<not> (committed (seq_at ?pb m i) \<and> wm < seq_at ?pb m i)" if i: "i < unat ?n" for i
  proof -
    have e: "usize_range ?n ! i = word_of_nat i" using i by (simp add: usize_range_def)
    have "load_u64 m (seq_cell ?pb (usize_range ?n ! i)) = Some (seq_at ?pb m i)"
      using g i by (simp add: e unat_of_nat_below)
    with locate_scan_sound [OF sc] i show ?thesis by (auto simp: scan_spec_def)
  qed
  then show ?thesis
    by (auto simp: ring_next_None rr_ring_def ring_of_def)
qed

lemma locate_Some_still:
  assumes wf: "rr_wf r m" and un: "seqs_unique (rr_ring r m)"
    and l: "locate r (still m) t wm = Some (Some (i, s), t')"
  shows "ring_next wm (rr_ring r m) = Some (unat i, s)"
proof -
  let ?n = "rr_entry_count r" and ?pb = "rr_payload_bytes r"
  let ?j = "(rr_last_read_idx r + 1) mod ?n"
  have g: "seg_geom ?pb ?n (length m)" using wf by (simp add: rr_wf_def)
  note ls = locate_seen [OF l]
  have i: "unat i < unat ?n" using ls(4) by (simp add: word_less_nat_alt)
  have si: "seq_at ?pb m (unat i) = s" using ls(1) g i by auto
  have s0: "s \<noteq> 0" using ls(2) by auto
  have min: "s \<le> x" if "k < unat ?n" "x = seq_at ?pb m k" "committed x" "wm < x" for k x
  proof -
    from l have "s = saturating_add wm 1 \<or>
        locate_scan r (still m) wm (usize_range ?n) (Suc t) None = Some (Some (i, s), t')"
      by (auto simp: locate_def Let_def bind_eq_Some_conv split: if_splits)
    then show ?thesis
    proof
      assume "s = saturating_add wm 1"
      with saturating_succ(2) ls(2) that(4) show ?thesis by blast
    next
      assume sc: "locate_scan r (still m) wm (usize_range ?n) (Suc t) None = Some (Some (i, s), t')"
      have "load_u64 m (seq_cell ?pb (usize_range ?n ! k)) = Some x"
        using g that(1,2) by (simp add: usize_range_def unat_of_nat_below)
      with locate_scan_sound [OF sc] that show ?thesis by (auto simp: scan_spec_def)
    qed
  qed
  have "ring_next wm (rr_ring r m) = Some (unat i, rg_seqs (rr_ring r m) ! unat i)"
  proof (rule ring_next_unique)
    show "j = unat i" if "j < length (rg_seqs (rr_ring r m))"
        "rg_seqs (rr_ring r m) ! j = rg_seqs (rr_ring r m) ! unat i" for j
      using seqs_uniqueD [OF un, of j "unat i"] that i si s0 by (auto simp: rr_ring_def)
    show "rg_seqs (rr_ring r m) ! unat i \<le> x"
      if "x \<in> set (rg_seqs (rr_ring r m))" "committed x" "wm < x" for x
      using that min i si by (auto simp: in_set_conv_nth rr_ring_def)
  qed (use i si ls(2,3) in \<open>simp_all add: rr_ring_def\<close>)
  then show ?thesis using i si by (simp add: rr_ring_def)
qed


lemma locate_still:
  assumes "rr_wf r m" "seqs_unique (rr_ring r m)"
  shows "\<exists>t'. locate r (still m) t wm =
     Some (map_option (\<lambda>(i, s). (word_of_nat i, s)) (ring_next wm (rr_ring r m)), t')"
proof -
  have "seg_geom (rr_payload_bytes r) (rr_entry_count r) (length m)"
    using assms(1) by (simp add: rr_wf_def)
  then obtain res t' where l: "locate r (still m) t wm = Some (res, t')"
    using locate_defined [of r "still m" t wm] by auto
  show ?thesis
  proof (cases res)
    case None
    with l locate_None_still [OF assms(1)] show ?thesis by auto
  next
    case (Some p)
    obtain i s where "p = (i, s)" by (cases p)
    with l Some locate_Some_still [OF assms, of t wm i s t'] show ?thesis by auto
  qed
qed

text \<open>
  C18: \<open>locate\<close> is an optimised minimum search. On a ring in which no sequence number occurs twice,
  its fast path (the slot after the last one read, if it carries the next number) and its scan
  return what the reference search returns: the smallest committed sequence number above the
  watermark and its position, or nothing when there is none.
\<close>
theorem locate_finds_oldest:
  assumes "rr_wf r m" "seqs_unique (rr_ring r m)"
  shows "\<exists>res t'. locate r (still m) t wm = Some (res, t') \<and>
     res = map_option (\<lambda>(i, s). (word_of_nat i, s)) (ring_next wm (rr_ring r m)) \<and>
     (case res of
        None \<Rightarrow> \<forall>v \<in> set (rg_seqs (rr_ring r m)). committed v \<longrightarrow> v \<le> wm
      | Some (i, s) \<Rightarrow> i < rr_entry_count r \<and> rg_seqs (rr_ring r m) ! unat i = s \<and>
          committed s \<and> wm < s \<and>
          (\<forall>v \<in> set (rg_seqs (rr_ring r m)). committed v \<longrightarrow> wm < v \<longrightarrow> s \<le> v))"
proof -
  obtain t' where l: "locate r (still m) t wm =
      Some (map_option (\<lambda>(i, s). (word_of_nat i, s)) (ring_next wm (rr_ring r m)), t')"
    using locate_still [OF assms] by blast
  show ?thesis
  proof (cases "ring_next wm (rr_ring r m)")
    case None
    then have "\<forall>v \<in> set (rg_seqs (rr_ring r m)). committed v \<longrightarrow> v \<le> wm"
      by (auto simp: ring_next_None not_less)
    with l None show ?thesis by auto
  next
    case (Some p)
    obtain i s where p: "p = (i, s)" by (cases p)
    note rn = ring_next_Some [OF Some [unfolded p]]
    have "i < unat (rr_entry_count r)" using rn(1) by (simp add: rr_ring_def)
    with l Some p rn show ?thesis by (auto simp: word_less_nat_alt unat_of_nat_below)
  qed
qed

lemma copy_out_still:
  assumes "0 < unat n"
  shows "copy_out (still m) t a n = read_bytes m a n"
proof -
  have "list_all (\<lambda>k. unat a + unat n \<le> length m) [0..<unat n] \<longleftrightarrow> unat a + unat n \<le> length m"
    using assms by (auto simp: list_all_iff)
  moreover have "map (\<lambda>k. m ! (unat a + k)) [0..<unat n] = bytes_at m (unat a) (unat n)"
    if "unat a + unat n \<le> length m"
    using that by (intro nth_equalityI) (auto simp: bytes_at_def)
  ultimately show ?thesis by (simp add: copy_out_def read_bytes_def)
qed

definition read_next :: "raw_reader \<Rightarrow> mem \<Rightarrow> u64 option \<Rightarrow> (nat \<times> u64) option" where
  "read_next r m from =
     (let wm = (case from of None \<Rightarrow> rr_last_entry_seq r | Some s \<Rightarrow> s) in
      if rg_wmark (rr_ring r m) \<le> wm then None else ring_next wm (rr_ring r m))"

lemma READ_RETRIES_Suc: "READ_RETRIES = Suc 3"
  by (simp add: READ_RETRIES_def)

lemma watermark_still:
  "rr_wf r m \<Longrightarrow> watermark r (still m) t from =
     Some (let wm = (case from of None \<Rightarrow> rr_last_entry_seq r | Some s \<Rightarrow> s) in
           if rg_wmark (rr_ring r m) \<le> wm then None else Some wm)"
  using seg_geom_72 [of "rr_payload_bytes r" "rr_entry_count r" "length m"]
  by (simp add: watermark_def writer_entry_seq_def rr_wf_def rr_ring_def ring_of_def Let_def)

lemma read_loop_still:
  assumes "rr_wf r m" "seqs_unique (rr_ring r m)"
  shows "\<exists>t'. read_loop r (still m) wm (Suc k) t dst =
     Some (case ring_next wm (rr_ring r m) of
         None \<Rightarrow> (None, r, dst, t')
       | Some (i, s) \<Rightarrow> (Some s, r\<lparr>rr_last_entry_seq := s, rr_last_read_idx := word_of_nat i\<rparr>,
                        rg_pays (rr_ring r m) ! i, t'))"
proof -
  let ?pb = "rr_payload_bytes r"
  obtain t1 where l: "locate r (still m) t wm =
      Some (map_option (\<lambda>(i, s). (word_of_nat i, s)) (ring_next wm (rr_ring r m)), t1)"
    using locate_still [OF assms] by blast
  show ?thesis
  proof (cases "ring_next wm (rr_ring r m)")
    case None
    with l show ?thesis by auto
  next
    case (Some p)
    obtain i s where p: "p = (i, s)" by (cases p)
    note rn = ring_next_Some [OF Some [unfolded p]]
    have i: "i < unat (rr_entry_count r)" using rn(1) by (simp add: rr_ring_def)
    have g: "seg_geom ?pb (rr_entry_count r) (length m)" using assms(1) by (simp add: rr_wf_def)
    then have "0 < unat ?pb" by (simp add: seg_geom_def)
    with l Some p rn(2) i g show ?thesis
      by (simp add: Let_def copy_out_still unat_of_nat_below rr_ring_def)
  qed
qed

lemma read_into_still:
  assumes "rr_wf r m" "seqs_unique (rr_ring r m)" "length dst = unat (rr_payload_bytes r)"
  shows "\<exists>t'. raw_reader_read_into r (still m) t dst from =
     Some (case read_next r m from of
         None \<Rightarrow> (Inr None, r, dst, t')
       | Some (i, s) \<Rightarrow> (Inr (Some s), r\<lparr>rr_last_entry_seq := s, rr_last_read_idx := word_of_nat i\<rparr>,
                        rg_pays (rr_ring r m) ! i, t'))"
proof -
  let ?wm = "case from of None \<Rightarrow> rr_last_entry_seq r | Some s \<Rightarrow> s"
  have rl: "\<exists>t'. read_loop r (still m) ?wm READ_RETRIES (Suc t) dst =
     Some (case ring_next ?wm (rr_ring r m) of
         None \<Rightarrow> (None, r, dst, t')
       | Some (i, s) \<Rightarrow> (Some s, r\<lparr>rr_last_entry_seq := s, rr_last_read_idx := word_of_nat i\<rparr>,
                        rg_pays (rr_ring r m) ! i, t'))"
    using read_loop_still [OF assms(1,2), of ?wm 3 "Suc t" dst]
    by (simp only: READ_RETRIES_Suc)
  show ?thesis
  proof (cases "rg_wmark (rr_ring r m) \<le> ?wm")
    case True
    with assms show ?thesis
      by (auto simp: raw_reader_read_into_def watermark_still read_next_def Let_def)
  next
    case False
    with assms rl show ?thesis
      by (auto simp: raw_reader_read_into_def watermark_still read_next_def Let_def
          split: option.split prod.split)
  qed
qed

text \<open>
  A one-copy read that runs alone. When the header's high watermark is not above the reader's
  position, or no committed entry is, it returns nothing and leaves the reader and the destination
  as they were. Otherwise it returns the oldest committed entry above the position, copies that
  entry's payload out, and moves the reader's bookmark to it.
\<close>
theorem read_into_alone:
  assumes "rr_wf r m" "seqs_unique (rr_ring r m)" "length dst = unat (rr_payload_bytes r)"
  shows "\<exists>t'. raw_reader_read_into r (still m) t dst from =
     Some (case read_next r m from of
         None \<Rightarrow> (Inr None, r, dst, t')
       | Some (i, s) \<Rightarrow> (Inr (Some s), r\<lparr>rr_last_entry_seq := s, rr_last_read_idx := word_of_nat i\<rparr>,
                        rg_pays (rr_ring r m) ! i, t'))"
  using assms by (rule read_into_still)

text \<open>A reader attached to the demonstration segment.\<close>

definition demo_reader :: raw_reader where
  "demo_reader = \<lparr>rr_payload_bytes = 8, rr_entry_count = 2, rr_last_entry_seq = 0, rr_last_read_idx = 0\<rparr>"

definition demo_written :: mem where
  "demo_written = published_mem demo_writer (filled_mem demo_writer demo_mem 0 (replicate 8 9)) 0"

lemma demo_reader_simps [simp]:
  "rr_payload_bytes demo_reader = 8" "rr_entry_count demo_reader = 2"
  "rr_last_entry_seq demo_reader = 0" "rr_last_read_idx demo_reader = 0"
  by (simp_all add: demo_reader_def)

lemma demo_written_ring:
  "ring_of 8 2 demo_written =
     \<lparr>rg_seqs = [1, 0], rg_pays = [replicate 8 9, replicate 8 0], rg_windex = 1, rg_wmark = 1\<rparr>"
proof -
  have "rw_ring (committed_writer demo_writer 0) demo_written =
      ring_write 0 (replicate 8 9) 1 (rw_ring demo_writer demo_mem)"
    unfolding demo_written_def by (subst rw_ring_written [OF demo_wf]) simp_all
  then show ?thesis
    by (simp add: rw_ring_def [of "committed_writer demo_writer 0"] demo_ring ring_write_def
        ring_publish_def ring_fill_def)
qed

lemma demo_written_length: "length demo_written = 104"
proof -
  have "rw_wf demo_writer (filled_mem demo_writer demo_mem 0 (replicate 8 9))"
    and "length (filled_mem demo_writer demo_mem 0 (replicate 8 9)) = length demo_mem"
    by (intro filled_mem_facts [OF demo_wf]; simp)+
  then show ?thesis
    using published_mem_facts(1) [of demo_writer "filled_mem demo_writer demo_mem 0 (replicate 8 9)" 0]
      initialized_views(1) [OF demo_geom]
    by (simp add: demo_written_def demo_mem_def)
qed

lemma demo_reader_ring: "rr_ring demo_reader demo_written = ring_of 8 2 demo_written"
  by (simp add: rr_ring_def)

lemma demo_reader_wf: "rr_wf demo_reader demo_written"
  by (simp add: rr_wf_def seg_geom_def demo_written_length)

lemma demo_reader_unique: "seqs_unique (rr_ring demo_reader demo_written)"
  by (auto simp: seqs_unique_def demo_reader_ring demo_written_ring less_Suc_eq unsigned_abs_def)

lemma demo_next: "ring_next 0 (ring_of 8 2 demo_written) = Some (0, 1)"
proof -
  have "ring_next 0 (ring_of 8 2 demo_written) = Some (0, rg_seqs (ring_of 8 2 demo_written) ! 0)"
    by (rule ring_next_unique) (auto simp: demo_written_ring less_Suc_eq)
  then show ?thesis by (simp add: demo_written_ring)
qed

lemma demo_read_next: "read_next demo_reader demo_written None = Some (0, 1)"
proof -
  have "rg_wmark (ring_of 8 2 demo_written) = 1" by (simp add: demo_written_ring)
  then show ?thesis by (simp add: read_next_def demo_reader_ring demo_next)
qed

theorem locate_finds_oldest_witness:
  "\<exists>t'. locate demo_reader (still demo_written) 0 0 = Some (Some (0, 1), t')"
  using locate_finds_oldest [OF demo_reader_wf demo_reader_unique, of 0 0]
  by (auto simp: demo_reader_ring demo_next)

theorem read_into_alone_witness:
  "\<exists>r' t'. raw_reader_read_into demo_reader (still demo_written) 0 (replicate 8 0) None =
     Some (Inr (Some 1), r', replicate 8 9, t')"
  using read_into_alone [OF demo_reader_wf demo_reader_unique, of "replicate 8 0" 0 None]
  by (auto simp: demo_read_next demo_reader_ring demo_written_ring)

subsection \<open>Holding a slot\<close>

lemma acquire_loop_still:
  assumes "rr_wf r m" "seqs_unique (rr_ring r m)"
  shows "\<exists>t'. acquire_loop r (still m) wm (Suc k) t =
     Some (case ring_next wm (rr_ring r m) of
         None \<Rightarrow> (None, r, m, t')
       | Some (i, s) \<Rightarrow>
           (Some \<lparr>rh_index = word_of_nat i, rh_entry_seq = s,
                  rh_ptr = payload_offset (rr_payload_bytes r) (word_of_nat i),
                  rh_len = rr_payload_bytes r\<rparr>,
            r\<lparr>rr_last_entry_seq := s, rr_last_read_idx := word_of_nat i\<rparr>,
            set_seq (rr_payload_bytes r) m i (- s), t'))"
proof -
  let ?pb = "rr_payload_bytes r"
  obtain t1 where l: "locate r (still m) t wm =
      Some (map_option (\<lambda>(i, s). (word_of_nat i, s)) (ring_next wm (rr_ring r m)), t1)"
    using locate_still [OF assms] by blast
  show ?thesis
  proof (cases "ring_next wm (rr_ring r m)")
    case None
    with l show ?thesis by auto
  next
    case (Some p)
    obtain i s where p: "p = (i, s)" by (cases p)
    note rn = ring_next_Some [OF Some [unfolded p]]
    have i: "i < unat (rr_entry_count r)" using rn(1) by (simp add: rr_ring_def)
    have g: "seg_geom ?pb (rr_entry_count r) (length m)" using assms(1) by (simp add: rr_wf_def)
    with l Some p rn(2) i show ?thesis
      by (simp add: unat_of_nat_below rr_ring_def)
  qed
qed

lemma try_acquire_still:
  assumes "rr_wf r m" "seqs_unique (rr_ring r m)"
  shows "\<exists>t'. raw_reader_try_acquire r (still m) t from =
     Some (case read_next r m from of
         None \<Rightarrow> (Inr None, r, m, t')
       | Some (i, s) \<Rightarrow>
           (Inr (Some \<lparr>rh_index = word_of_nat i, rh_entry_seq = s,
                  rh_ptr = payload_offset (rr_payload_bytes r) (word_of_nat i),
                  rh_len = rr_payload_bytes r\<rparr>),
            r\<lparr>rr_last_entry_seq := s, rr_last_read_idx := word_of_nat i\<rparr>,
            set_seq (rr_payload_bytes r) m i (- s), t'))"
proof -
  let ?wm = "case from of None \<Rightarrow> rr_last_entry_seq r | Some s \<Rightarrow> s"
  note al = acquire_loop_still [OF assms, of ?wm 3 "Suc t", folded READ_RETRIES_Suc]
  show ?thesis
  proof (cases "rg_wmark (rr_ring r m) \<le> ?wm")
    case True
    with assms show ?thesis
      by (auto simp: raw_reader_try_acquire_def watermark_still read_next_def Let_def)
  next
    case False
    with assms al show ?thesis
      by (auto simp: raw_reader_try_acquire_def watermark_still read_next_def Let_def
          split: option.split prod.split)
  qed
qed

lemma acquire_release_roundtrip_facts:
  assumes "rr_wf r m" "seqs_unique (rr_ring r m)"
    and "raw_reader_try_acquire r (still m) t from = Some (Inr (Some h), r', m', t')"
  shows "read_next r m from = Some (unat (rh_index h), rh_entry_seq h)"
    and "rr_last_entry_seq r' = rh_entry_seq h"
    and "load_u64 m' (seq_cell (rr_payload_bytes r) (rh_index h)) = Some (- rh_entry_seq h)"
    and "held (- rh_entry_seq h)"
    and "rr_ring r m' = (rr_ring r m)\<lparr>rg_seqs :=
           (rg_seqs (rr_ring r m))[unat (rh_index h) := - rh_entry_seq h]\<rparr>"
    and "rh_as_bytes h m' = Some (rg_pays (rr_ring r m) ! unat (rh_index h))"
    and "raw_reader_release r' m' h = Some m"
proof -
  let ?pb = "rr_payload_bytes r" and ?n = "rr_entry_count r"
  have g: "seg_geom ?pb ?n (length m)" using assms(1) by (simp add: rr_wf_def)
  from try_acquire_still [OF assms(1,2), of t "from"] assms(3) obtain i s where
    rn: "read_next r m from = Some (i, s)"
    and h: "h = \<lparr>rh_index = word_of_nat i, rh_entry_seq = s,
        rh_ptr = payload_offset ?pb (word_of_nat i), rh_len = ?pb\<rparr>"
    and r': "r' = r\<lparr>rr_last_entry_seq := s, rr_last_read_idx := word_of_nat i\<rparr>"
    and m': "m' = set_seq ?pb m i (- s)"
    by (auto split: option.splits)
  from rn obtain wm where "ring_next wm (rr_ring r m) = Some (i, s)"
    by (auto simp: read_next_def Let_def split: if_splits)
  note n = ring_next_Some [OF this]
  have i: "i < unat ?n" using n(1) by (simp add: rr_ring_def)
  have ui: "unat (word_of_nat i :: usize) = i" using i by (rule unat_of_nat_below)
  have si: "seq_at ?pb m i = s" using n(2) i by (simp add: rr_ring_def)
  have g': "seg_geom ?pb ?n (length m')" using g i by (simp add: m' length_set_seq)
  show "read_next r m from = Some (unat (rh_index h), rh_entry_seq h)" by (simp add: rn h ui)
  show "rr_last_entry_seq r' = rh_entry_seq h" by (simp add: r' h)
  show "held (- rh_entry_seq h)" using n(3) by (simp add: h sint_minus_neg)
  show "load_u64 m' (seq_cell ?pb (rh_index h)) = Some (- rh_entry_seq h)"
    using g' g i by (simp add: h ui m' slots.gseq_sseq)
  show "rr_ring r m' = (rr_ring r m)\<lparr>rg_seqs :=
           (rg_seqs (rr_ring r m))[unat (rh_index h) := - rh_entry_seq h]\<rparr>"
    using g i by (simp add: rr_ring_def m' h ui ring_of_set_seq)
  show "rh_as_bytes h m' = Some (rg_pays (rr_ring r m) ! unat (rh_index h))"
    using g' g i by (simp add: rh_as_bytes_def h ui rr_ring_def m' slots.gpay_sseq)
  have "set_seq ?pb m' i s = m"
    using slot_off_in [OF g i] by (simp add: m' set_seq_def poke_poke_same si [symmetric] seq_at_def
        poke_word_at_same)
  with g' i show "raw_reader_release r' m' h = Some m"
    by (simp add: raw_reader_release_def h r' ui)
qed

text \<open>
  C23: Acquiring a slot and releasing it. The handle names the oldest entry above the reader's
  position; its slot is marked held, which is all that changes in the segment; its byte view is
  the entry's payload; and releasing the handle restores the segment exactly, byte for byte.
\<close>
theorem acquire_release_roundtrip:
  assumes "rr_wf r m" "seqs_unique (rr_ring r m)"
    and "raw_reader_try_acquire r (still m) t from = Some (Inr (Some h), r', m', t')"
  shows "read_next r m from = Some (unat (rh_index h), rh_entry_seq h) \<and>
     rr_last_entry_seq r' = rh_entry_seq h \<and>
     load_u64 m' (seq_cell (rr_payload_bytes r) (rh_index h)) = Some (- rh_entry_seq h) \<and>
     held (- rh_entry_seq h) \<and>
     rr_ring r m' = (rr_ring r m)\<lparr>rg_seqs :=
           (rg_seqs (rr_ring r m))[unat (rh_index h) := - rh_entry_seq h]\<rparr> \<and>
     rh_as_bytes h m' = Some (rg_pays (rr_ring r m) ! unat (rh_index h)) \<and>
     raw_reader_release r' m' h = Some m"
  using acquire_release_roundtrip_facts [OF assms] by blast

theorem acquire_release_roundtrip_witness:
  "\<exists>h r' m' t'. raw_reader_try_acquire demo_reader (still demo_written) 0 None =
       Some (Inr (Some h), r', m', t') \<and> rh_entry_seq h = 1 \<and>
     raw_reader_release r' m' h = Some demo_written"
proof -
  obtain h r' m' t' where a: "raw_reader_try_acquire demo_reader (still demo_written) 0 None =
      Some (Inr (Some h), r', m', t')" and "rh_entry_seq h = 1"
    using try_acquire_still [OF demo_reader_wf demo_reader_unique, of 0 None]
    by (auto simp: demo_read_next)
  with acquire_release_roundtrip [OF demo_reader_wf demo_reader_unique a] show ?thesis by blast
qed

end
