(* ===== verification/Zc_Channel.thy ===== *)
theory Zc_Channel
  imports Zc_Reader
begin

text \<open>
  The channel the writer and the readers implement together. Its abstract state is the log of all
  entries ever committed: entry number \<open>s\<close> is \<open>log ! (s - 1)\<close>. The invariant \<open>chan_inv\<close> says that
  the ring is a partial, duplicate-free window of the log: every slot that carries a sequence
  number, held or not, carries the payload committed under it.
\<close>

subsection \<open>Sequence numbers of slots\<close>

lemma unsigned_abs_committed [simp]: "committed s \<Longrightarrow> unsigned_abs s = s"
  by (simp add: unsigned_abs_def)

lemma unsigned_abs_hold [simp]: "committed s \<Longrightarrow> unsigned_abs (- s) = s"
  using sint_minus_neg [of s] by (simp add: unsigned_abs_def)

lemma unsigned_abs_0 [simp]: "unsigned_abs 0 = 0" "unsigned_abs v = 0 \<longleftrightarrow> v = 0"
  by (auto simp: unsigned_abs_def)

lemma committed_of_nat: "0 < k \<Longrightarrow> k < 2 ^ 63 \<Longrightarrow> committed (word_of_nat k :: u64)"
  by (simp add: sint_pos_iff)

lemma committed_nonzero: "committed s \<Longrightarrow> s \<noteq> 0"
  by auto

lemma committed_cases: "v = 0 \<or> held v \<or> committed (v :: u64)"
  by (metis linorder_neqE_linordered_idom signed_eq_0_iff)

subsection \<open>The ring as a window of the log\<close>

definition ring_inv :: "byte list list \<Rightarrow> ring \<Rightarrow> bool" where
  "ring_inv log g \<longleftrightarrow>
     length (rg_pays g) = length (rg_seqs g) \<and> length log < 2 ^ 63 \<and> seqs_unique g \<and>
     (\<forall>i < length (rg_seqs g). rg_seqs g ! i \<noteq> 0 \<longrightarrow>
        unat (unsigned_abs (rg_seqs g ! i)) \<le> length log \<and>
        rg_pays g ! i = log ! (unat (unsigned_abs (rg_seqs g ! i)) - 1))"

text \<open>
  \<open>chan_inv\<close> holds whenever no operation is under way; \<open>chan_sync\<close> says that the header words
  agree with the writer, which a crash between the stores of a publication can break.
\<close>

definition chan_inv :: "byte list list \<Rightarrow> raw_writer \<Rightarrow> mem \<Rightarrow> bool" where
  "chan_inv log w m \<longleftrightarrow>
     rw_wf w m \<and> ring_inv log (rw_ring w m) \<and>
     unat (rw_last_entry_seq w) = length log \<and>
     rg_wmark (rw_ring w m) \<le> rw_last_entry_seq w"

definition chan_sync :: "raw_writer \<Rightarrow> mem \<Rightarrow> bool" where
  "chan_sync w m \<longleftrightarrow>
     rg_wmark (rw_ring w m) = rw_last_entry_seq w \<and> rg_windex (rw_ring w m) = rw_current_index w"

lemma seqs_unique_update:
  assumes "seqs_unique g" "i < length (rg_seqs g)"
    and "v = 0 \<or> (\<forall>j < length (rg_seqs g). j \<noteq> i \<longrightarrow> unsigned_abs (rg_seqs g ! j) \<noteq> unsigned_abs v)"
  shows "seqs_unique (g\<lparr>rg_seqs := (rg_seqs g)[i := v]\<rparr>)"
  unfolding seqs_unique_def
proof (intro allI impI)
  fix j k
  assume j: "j < length (rg_seqs (g\<lparr>rg_seqs := (rg_seqs g)[i := v]\<rparr>))"
    and k: "k < length (rg_seqs (g\<lparr>rg_seqs := (rg_seqs g)[i := v]\<rparr>))"
    and eq: "rg_seqs (g\<lparr>rg_seqs := (rg_seqs g)[i := v]\<rparr>) ! j \<noteq> 0 \<and>
       unsigned_abs (rg_seqs (g\<lparr>rg_seqs := (rg_seqs g)[i := v]\<rparr>) ! j) =
       unsigned_abs (rg_seqs (g\<lparr>rg_seqs := (rg_seqs g)[i := v]\<rparr>) ! k)"
  have nz: "v \<noteq> 0" if "j = i \<or> k = i"
    using that eq j k by (auto simp: nth_list_update split: if_splits)
  consider "j = i" "k = i" | "j \<noteq> i" "k \<noteq> i" | "j = i" "k \<noteq> i" | "j \<noteq> i" "k = i" by blast
  then show "j = k"
  proof cases
    case 2
    with assms(1) j k eq show ?thesis unfolding seqs_unique_def by (auto simp: nth_list_update)
  next
    case 3
    with assms(2,3) nz k eq show ?thesis by (auto simp: nth_list_update)
  next
    case 4
    with assms(2,3) nz j eq show ?thesis by (auto simp: nth_list_update)
  qed simp
qed

lemma ring_inv_update:
  assumes "ring_inv log g" "i < length (rg_seqs g)"
    and "v = 0 \<or> unsigned_abs v = unsigned_abs (rg_seqs g ! i)"
  shows "ring_inv log (g\<lparr>rg_seqs := (rg_seqs g)[i := v]\<rparr>)"
proof -
  have un: "seqs_unique g" using assms(1) by (simp add: ring_inv_def)
  have "v = 0 \<or> (\<forall>j < length (rg_seqs g). j \<noteq> i \<longrightarrow> unsigned_abs (rg_seqs g ! j) \<noteq> unsigned_abs v)"
  proof (cases "v = 0")
    case False
    with assms(3) have v: "unsigned_abs v = unsigned_abs (rg_seqs g ! i)" by simp
    with False have "rg_seqs g ! i \<noteq> 0" by (metis unsigned_abs_0(2))
    with un assms(2) v show ?thesis unfolding seqs_unique_def by metis
  qed simp
  then have "seqs_unique (g\<lparr>rg_seqs := (rg_seqs g)[i := v]\<rparr>)"
    using un assms(2) by (rule seqs_unique_update [rotated -1])
  moreover have "rg_seqs g ! i \<noteq> 0" if "v \<noteq> 0"
    using that assms(3) by (metis unsigned_abs_0(2))
  ultimately show ?thesis
    using assms unfolding ring_inv_def by (auto simp: nth_list_update)
qed

lemma ring_inv_clear: "ring_inv log g \<Longrightarrow> i < length (rg_seqs g) \<Longrightarrow> ring_inv log (ring_clear i g)"
  unfolding ring_clear_def by (rule ring_inv_update) simp_all

lemma ring_inv_write:
  assumes inv: "ring_inv log g" and i: "i < length (rg_seqs g)" and len: "Suc (length log) < 2 ^ 63"
  shows "ring_inv (log @ [d]) (ring_write i d (word_of_nat (Suc (length log))) g)"
proof -
  let ?s = "word_of_nat (Suc (length log)) :: u64"
  have s: "unat ?s = Suc (length log)" using len by (intro unat_of_nat_u64) simp
  have c: "committed ?s" using len by (intro committed_of_nat) auto
  have le: "unat (unsigned_abs (rg_seqs g ! j)) \<le> length log" if "j < length (rg_seqs g)" for j
    using inv that by (cases "rg_seqs g ! j = 0") (auto simp: ring_inv_def)
  have "unsigned_abs (rg_seqs g ! j) \<noteq> unsigned_abs ?s" if "j < length (rg_seqs g)" for j
    using le [OF that] s c by auto
  then have "seqs_unique (g\<lparr>rg_seqs := (rg_seqs g)[i := ?s]\<rparr>)"
    using inv i by (intro seqs_unique_update) (auto simp: ring_inv_def)
  then have "seqs_unique (ring_write i d ?s g)"
    by (simp add: seqs_unique_def ring_write_def ring_publish_def ring_fill_def)
  moreover have "rg_pays g ! j = (log @ [d]) ! (unat (unsigned_abs (rg_seqs g ! j)) - 1)"
    if "j < length (rg_seqs g)" "rg_seqs g ! j \<noteq> 0" for j
  proof -
    have "0 < unat (unsigned_abs (rg_seqs g ! j))" using that(2) by (simp add: unat_gt_0)
    with le [OF that(1)] inv that show ?thesis by (auto simp: ring_inv_def nth_append)
  qed
  ultimately show ?thesis
    using inv i len s c le
    by (auto simp: ring_inv_def ring_write_def ring_publish_def ring_fill_def nth_list_update le_SucI
        simp del: of_nat_Suc)
qed

lemma rw_ring_length [simp]:
  "length (rg_seqs (rw_ring w m)) = unat (rw_entry_count w)"
  "length (rg_pays (rw_ring w m)) = unat (rw_entry_count w)"
  by (simp_all add: rw_ring_def)

lemma chan_invD:
  assumes "chan_inv log w m"
  shows "rw_wf w m" "ring_inv log (rw_ring w m)" "unat (rw_last_entry_seq w) = length log"
    "length log < 2 ^ 63" "seqs_unique (rw_ring w m)"
  using assms by (auto simp: chan_inv_def ring_inv_def)

lemma last_succ:
  "chan_inv log w m \<Longrightarrow> Suc (length log) < 2 ^ 63 \<Longrightarrow>
   rw_last_entry_seq w + 1 = word_of_nat (Suc (length log))"
  using chan_invD(3) [of log w m] by (simp add: u64_eq_iff unat_add_no_wrap)

lemma write_chan_inv_cases:
  assumes "chan_inv log w m" "length data = unat (rw_payload_bytes w)" "Suc (length log) < 2 ^ 63"
    and "ring_free_slot (unat (rw_current_index w)) (rw_ring w m) = Some i"
  shows "chan_inv (log @ [data]) (committed_writer w i) (published_mem w (filled_mem w m i data) i)"
    and "chan_sync (committed_writer w i) (published_mem w (filled_mem w m i data) i)"
    and "unat (rw_last_entry_seq w + 1) = Suc (length log)"
proof -
  note c = chan_invD [OF assms(1)]
  have i: "i < unat (rw_entry_count w)" using ring_free_slot_bound [OF c(1) assms(4)] .
  note f = filled_mem_facts [OF c(1) i assms(2)]
  note p = published_mem_facts [OF f(1) i]
  note r = rw_ring_written [OF c(1) i assms(2), unfolded last_succ [OF assms(1,3)]]
  let ?w = "committed_writer w i" and ?m = "published_mem w (filled_mem w m i data) i"
  have ri: "ring_inv (log @ [data]) (rw_ring ?w ?m)"
    unfolding r using c(2) i assms(3) by (intro ring_inv_write) simp_all
  show sync: "chan_sync ?w ?m"
    unfolding chan_sync_def r using last_succ [OF assms(1,3)]
    by (simp add: ring_write_def ring_publish_def ring_fill_def)
  show sq: "unat (rw_last_entry_seq w + 1) = Suc (length log)"
    unfolding last_succ [OF assms(1,3)] using assms(3) by (intro unat_of_nat_u64) simp
  show "chan_inv (log @ [data]) ?w ?m"
    using p(2) ri sync sq by (simp add: chan_inv_def chan_sync_def)
qed

lemma write_chan_inv:
  assumes "chan_inv log w m" "length data = unat (rw_payload_bytes w)" "Suc (length log) < 2 ^ 63"
    and "raw_writer_write w m data = Some (Inr (), w', m')"
  shows "chan_inv (log @ [data]) w' m'" "chan_sync w' m'"
  using assms(4) write_chan_inv_cases [OF assms(1-3)]
  by (auto simp: raw_writer_write_eq [OF chan_invD(1) [OF assms(1)] assms(2)] split: option.splits)

text \<open>
  C15: Every write keeps the channel invariant and extends the log by exactly the data it was
  given, under the next number; a write that is refused as busy extends nothing. The sequence
  numbers a writer assigns are thus dense, and no slot ever carries a payload other than the one
  committed under its number. (The log stays below \<open>2 ^ 63\<close> entries: beyond, the signed control
  word overflows.)
\<close>
theorem write_extends_log:
  assumes "chan_inv log w m" "length data = unat (rw_payload_bytes w)" "Suc (length log) < 2 ^ 63"
  shows "(\<exists>w' m'. raw_writer_write w m data = Some (Inr (), w', m') \<and>
            chan_inv (log @ [data]) w' m' \<and> chan_sync w' m' \<and> unat (rw_last_entry_seq w') = Suc (length log)) \<or>
         ((\<forall>v \<in> set (rg_seqs (rw_ring w m)). held v) \<and>
            raw_writer_write w m data = Some (Inl (busy_error w), w, m))"
proof (cases "ring_free_slot (unat (rw_current_index w)) (rw_ring w m)")
  case None
  have "rg_seqs (rw_ring w m) \<noteq> []"
    using chan_invD(1) [OF assms(1)] by (auto simp: rw_wf_def simp flip: length_greater_0_conv)
  then have "\<forall>v \<in> set (rg_seqs (rw_ring w m)). held v"
    using None ring_free_slot_None by blast
  moreover have "raw_writer_write w m data = Some (Inl (busy_error w), w, m)"
    using None assms(2) chan_invD(1) [OF assms(1)] by (simp add: raw_writer_write_eq)
  ultimately show ?thesis by blast
next
  case (Some i)
  with write_chan_inv_cases [OF assms Some] chan_invD(1) [OF assms(1)] assms(2)
  show ?thesis by (simp add: raw_writer_write_eq)
qed

subsection \<open>The zero-copy write path\<close>

text \<open>
  What a client does with the mutable byte view of a write handle: it stores single bytes, in any
  order and any number of times. An index beyond the view panics.
\<close>

fun view_stores :: "write_handle \<Rightarrow> (usize \<times> byte) list \<Rightarrow> mem \<Rightarrow> mem option" where
  "view_stores h [] m = Some m"
| "view_stores h ((k, b) # sts) m =
     do { m \<leftarrow> wh_as_bytes_mut h m k [b]; view_stores h sts m }"

fun stored :: "(usize \<times> byte) list \<Rightarrow> byte list \<Rightarrow> byte list" where
  "stored [] bs = bs"
| "stored ((k, b) # sts) bs = stored sts (bs[unat k := b])"

lemma length_stored [simp]: "length (stored sts bs) = length bs"
  by (induction sts bs rule: stored.induct) simp_all

lemma view_stores_set_pay:
  assumes "seg_geom pb n (length m)" "i < unat n" "length bs = unat pb" "\<forall>(k, b) \<in> set sts. k < pb"
  shows "view_stores \<lparr>wh_index = word_of_nat i, wh_ptr = payload_offset pb (word_of_nat i), wh_len = pb\<rparr> sts
     (set_pay pb m i bs) = Some (set_pay pb m i (stored sts bs))"
  using assms(3,4)
proof (induction sts bs rule: stored.induct)
  case (1 bs)
  then show ?case by simp
next
  case (2 k b sts bs)
  have ui: "unat (word_of_nat i :: usize) = i" using assms(2) by (rule unat_of_nat_below)
  have g: "seg_geom pb n (length (set_pay pb m i bs))" using assms(1,2) 2(2) by (simp add: length_set_pay)
  have "pay_at pb (set_pay pb m i bs) i = bs" using assms(1,2) 2(2) by (simp add: slots.gpay_spay)
  then have "write_bytes (set_pay pb m i bs) (payload_offset pb (word_of_nat i) + k) [b] =
      Some (set_pay pb (set_pay pb m i bs) i (bs[unat k := b]))"
    using write_payload_byte [OF g, of "word_of_nat i" "unat k" b] assms(2) 2(3) ui by (simp add: word_less_nat_alt)
  moreover have "set_pay pb (set_pay pb m i bs) i (bs[unat k := b]) = set_pay pb m i (bs[unat k := b])"
    using slot_off_in [OF assms(1,2)] 2(2) by (simp add: set_pay_def poke_poke_same)
  ultimately show ?case using 2 by (simp add: wh_as_bytes_mut_def word_less_nat_alt Suc_le_eq)
qed

text \<open>
  C24: A zero-copy write. Acquire a slot, make any byte stores through the view of the handle, in
  any order, with repetitions and without having to cover the payload, and commit. Everything is
  defined, and the writer and the memory afterwards are exactly those of the one-copy \<open>write\<close> of the
  bytes the slot held before with the stores applied. The commit returns the next number, and the
  log grows by exactly those bytes. When no slot is free, acquiring fails as every \<open>write\<close> does, and
  nothing has changed.
\<close>
theorem zero_copy_write:
  assumes "chan_inv log w m" "Suc (length log) < 2 ^ 63" "\<forall>(k, b) \<in> set sts. k < rw_payload_bytes w"
  shows "\<exists>r m1. raw_writer_try_acquire w m = Some (r, m1) \<and>
     (case r of
        Inl e \<Rightarrow> m1 = m \<and> (\<forall>data. length data = unat (rw_payload_bytes w) \<longrightarrow> raw_writer_write w m data = Some (Inl e, w, m))
      | Inr h \<Rightarrow> \<exists>old m2 w' m3.
          read_bytes m (wh_ptr h) (wh_len h) = Some old \<and> view_stores h sts m1 = Some m2 \<and>
          raw_writer_commit w m2 h = Some (word_of_nat (Suc (length log)), w', m3) \<and>
          raw_writer_write w m (stored sts old) = Some (Inr (), w', m3) \<and>
          chan_inv (log @ [stored sts old]) w' m3 \<and> chan_sync w' m3)"
proof (cases "ring_free_slot (unat (rw_current_index w)) (rw_ring w m)")
  case None
  with chan_invD(1) [OF assms(1)] show ?thesis by (simp add: raw_writer_try_acquire_eq raw_writer_write_eq)
next
  case (Some i)
  let ?pb = "rw_payload_bytes w" and ?m1 = "set_seq (rw_payload_bytes w) m i 0" and ?old = "pay_at (rw_payload_bytes w) m i"
  let ?h = "\<lparr>wh_index = word_of_nat i, wh_ptr = payload_offset ?pb (word_of_nat i), wh_len = ?pb\<rparr>"
  note wf = chan_invD(1) [OF assms(1)]
  have i: "i < unat (rw_entry_count w)" using ring_free_slot_bound [OF wf Some] .
  have g: "seg_geom ?pb (rw_entry_count w) (length m)" using wf by (simp add: rw_wf_def)
  have g1: "seg_geom ?pb (rw_entry_count w) (length ?m1)" using g i by (simp add: length_set_seq)
  have len: "length (stored sts ?old) = unat ?pb" using slots.gpay_width [OF g i] by simp
  have "pay_at ?pb ?m1 i = ?old" using g i by (simp add: slots.gpay_sseq)
  then have "set_pay ?pb ?m1 i ?old = ?m1" using set_pay_same [OF g1 i] by simp
  with view_stores_set_pay [OF g1 i _ assms(3), of ?old] slots.gpay_width [OF g i]
  have "view_stores ?h sts ?m1 = Some (filled_mem w m i (stored sts ?old))" by (simp add: filled_mem_def)
  moreover have "raw_writer_commit w (filled_mem w m i (stored sts ?old)) ?h = Some (word_of_nat (Suc (length log)),
      committed_writer w i, published_mem w (filled_mem w m i (stored sts ?old)) i)"
    using publish_published [OF filled_mem_facts(1) [OF wf i len] i] last_succ [OF assms(1,2)]
    by (simp add: raw_writer_commit_def)
  moreover have "read_bytes m (wh_ptr ?h) (wh_len ?h) = Some ?old" using g i by (simp add: unat_of_nat_below)
  ultimately show ?thesis
    using wf len Some write_chan_inv_cases [OF assms(1) len assms(2) Some]
    by (simp add: raw_writer_try_acquire_eq raw_writer_write_eq)
qed

subsection \<open>A fresh channel\<close>

lemma ring_of_initialized:
  assumes "seg_geom pb n (length m)"
  shows "ring_of pb n (initialized pb n d pid m) =
     \<lparr>rg_seqs = replicate (unat n) 0, rg_pays = replicate (unat n) (replicate (unat pb) 0),
      rg_windex = 0, rg_wmark = 0\<rparr>"
  using initialized_views [OF assms]
  by (simp add: ring_of_def map_replicate_trivial list_eq_iff_nth_eq)

lemma ring_inv_empty:
  "length ps = n \<Longrightarrow> ring_inv [] \<lparr>rg_seqs = replicate n 0, rg_pays = ps, rg_windex = i, rg_wmark = s\<rparr>"
  by (simp add: ring_inv_def seqs_unique_def)

lemma attach_initialized:
  assumes "seg_geom pb n (length m)"
    and "hdr_payload_bytes h = pb" "hdr_entry_count h = n" "hdr_write_index h = 0" "hdr_last_entry_seq h = 0"
  shows "raw_writer_attach (initialized pb n d pid m) h =
     Some \<lparr>rw_payload_bytes = pb, rw_entry_count = n, rw_current_index = 0, rw_last_entry_seq = 0\<rparr>"
proof -
  have g: "seg_geom pb n (length (initialized pb n d pid m))"
    using assms(1) by (simp add: initialized_views(1) [OF assms(1)])
  have n: "0 < unat n" using assms(1) by (simp add: seg_geom_def)
  then have "ring_max_seq 0 (ring_of pb n (initialized pb n d pid m)) = 0"
    by (simp add: ring_max_seq_def ring_of_initialized [OF assms(1)])
  with n assms(2-) show ?thesis
    by (simp add: raw_writer_attach_def recover_state_eq [OF g] initialized_views [OF assms(1)])
qed

text \<open>
  A freshly initialised segment is an empty channel: decoding its header and attaching a writer
  succeed, the writer starts at slot 0 with no entry committed, and the channel invariant holds
  with the empty log.
\<close>
theorem fresh_channel:
  assumes "seg_geom pb n (length m)"
  shows "\<exists>m' h w. init_header m pb n d pid = Some m' \<and> read_header m' = Some (Inr (Some h)) \<and>
     raw_writer_attach m' h = Some w \<and> chan_inv [] w m' \<and> chan_sync w m' \<and>
     rw_payload_bytes w = pb \<and> rw_entry_count w = n \<and> rw_current_index w = 0"
proof -
  let ?m = "initialized pb n d pid m"
  let ?h = "\<lparr>hdr_payload_bytes = pb, hdr_entry_count = n, hdr_write_index = 0,
      hdr_dtype = dtype_code d, hdr_last_entry_seq = 0\<rparr>"
  let ?w = "\<lparr>rw_payload_bytes = pb, rw_entry_count = n, rw_current_index = 0, rw_last_entry_seq = 0\<rparr>"
  have g: "seg_geom pb n (length ?m)" using assms by (simp add: initialized_views(1) [OF assms])
  have "read_header ?m = Some (Inr (Some ?h))"
    using seg_geom_72 [OF g] by (subst read_header_valid) (simp_all add: initialized_views [OF assms])
  moreover have "raw_writer_attach ?m ?h = Some ?w"
    by (rule attach_initialized [OF assms]) simp_all
  moreover have "chan_inv [] ?w ?m" "chan_sync ?w ?m"
    using g by (simp_all add: chan_inv_def chan_sync_def rw_wf_def rw_ring_def
        ring_of_initialized [OF assms] ring_inv_empty) (simp add: seg_geom_def)
  ultimately show ?thesis using init_header_eq [OF assms] by fastforce
qed

theorem fresh_channel_witness:
  "\<exists>m' h w. init_header (replicate 104 7) 8 2 F64 42 = Some m' \<and>
     read_header m' = Some (Inr (Some h)) \<and> raw_writer_attach m' h = Some w \<and> chan_inv [] w m'"
  using fresh_channel [of 8 2 "replicate 104 7" F64 42] by (fastforce simp: seg_geom_def)

lemma demo_chan: "chan_inv [] demo_writer demo_mem"
  using ring_inv_empty [of "[replicate 8 0, replicate 8 0]" 2 0 0]
  by (simp add: chan_inv_def demo_wf demo_ring numeral_2_eq_2)

theorem write_extends_log_witness:
  "\<exists>w' m'. raw_writer_write demo_writer demo_mem (replicate 8 5) = Some (Inr (), w', m') \<and>
     chan_inv [replicate 8 5] w' m'"
  using write_extends_log [OF demo_chan, of "replicate 8 5"] by (auto simp: demo_ring)

theorem zero_copy_write_witness:
  "\<exists>h m1 m2 w' m3. raw_writer_try_acquire demo_writer demo_mem = Some (Inr h, m1) \<and>
     view_stores h [(7, 1), (0, 5), (7, 2)] m1 = Some m2 \<and> raw_writer_commit demo_writer m2 h = Some (1, w', m3) \<and>
     chan_inv [[5, 0, 0, 0, 0, 0, 0, 2]] w' m3"
proof -
  have g: "seg_geom 8 2 (length demo_mem)" using demo_wf by (simp add: rw_wf_def)
  have "rg_pays (rw_ring demo_writer demo_mem) ! 0 = replicate 8 0" by (simp add: demo_ring)
  then have "pay_at 8 demo_mem 0 = replicate 8 0" by (simp add: rw_ring_def)
  then have old: "read_bytes demo_mem (payload_offset 8 0) 8 = Some (replicate 8 0)" using g by simp
  have "stored [(7, 1), (0, 5), (7, 2)] (replicate 8 0) = [5, 0, 0, 0, 0, 0, 0, 2]" by code_simp
  with zero_copy_write [OF demo_chan, of "[(7, 1), (0, 5), (7, 2)]"] old show ?thesis
    by (auto simp: raw_writer_try_acquire_eq [OF demo_wf] demo_ring demo_free_slot)
qed

subsection \<open>What a read returns\<close>

text \<open>A reader attached to the same segment as the writer.\<close>

definition same_geom :: "raw_writer \<Rightarrow> raw_reader \<Rightarrow> bool" where
  "same_geom w r \<longleftrightarrow>
     rr_payload_bytes r = rw_payload_bytes w \<and> rr_entry_count r = rw_entry_count w \<and>
     unat (rr_last_read_idx r) < unat (rw_entry_count w)"

lemma same_geom_reader:
  assumes "chan_inv log w m" "same_geom w r"
  shows "rr_wf r m" "rr_ring r m = rw_ring w m" "seqs_unique (rr_ring r m)"
  using assms chan_invD(5) [OF assms(1)]
  by (auto simp: chan_inv_def same_geom_def rw_wf_def rr_wf_def rr_ring_def rw_ring_def)

lemma ring_inv_next:
  assumes "ring_inv log g" "ring_next wm g = Some (i, s)"
  shows "0 < unat s" "unat s \<le> length log" "rg_pays g ! i = log ! (unat s - 1)"
proof -
  note n = ring_next_Some [OF assms(2)]
  have "s \<noteq> 0" using n(3) by auto
  then show "0 < unat s" by (simp add: unat_gt_0)
  show "unat s \<le> length log" "rg_pays g ! i = log ! (unat s - 1)"
    using assms(1) n(1-3) \<open>s \<noteq> 0\<close> by (auto simp: ring_inv_def)
qed

text \<open>
  What a one-copy read returns from a channel with log \<open>log\<close>. If it returns entry number \<open>s\<close>,
  then \<open>s\<close> is newer than the reader's position, it is a number the writer has assigned, the bytes
  are exactly those committed under it, every committed entry left in the ring between the position
  and \<open>s\<close> is skipped by none (\<open>s\<close> is the smallest), and the reader's position becomes \<open>s\<close>. If it
  returns nothing, the destination and the reader are unchanged and either the writer has
  advertised nothing newer or no unheld slot carries anything newer.
\<close>
theorem read_returns_log_entry:
  fixes fr :: "u64 option"
  assumes "chan_inv log w m" "same_geom w r" "length dst = unat (rr_payload_bytes r)"
  defines "wm \<equiv> (case fr of None \<Rightarrow> rr_last_entry_seq r | Some s \<Rightarrow> s)"
  shows "\<exists>res r' bytes t'. raw_reader_read_into r (still m) t dst fr = Some (Inr res, r', bytes, t') \<and>
     (case res of
        Some s \<Rightarrow> wm < s \<and> 0 < unat s \<and> unat s \<le> length log \<and> bytes = log ! (unat s - 1) \<and>
          (\<forall>v \<in> set (rg_seqs (rw_ring w m)). committed v \<longrightarrow> wm < v \<longrightarrow> s \<le> v) \<and>
          rr_last_entry_seq r' = s \<and> same_geom w r'
      | None \<Rightarrow> bytes = dst \<and> r' = r \<and>
          (rg_wmark (rw_ring w m) \<le> wm \<or>
           (\<forall>v \<in> set (rg_seqs (rw_ring w m)). committed v \<longrightarrow> v \<le> wm)))"
proof -
  note sg = same_geom_reader [OF assms(1,2)]
  obtain t' where rd: "raw_reader_read_into r (still m) t dst fr =
     Some (case read_next r m fr of
         None \<Rightarrow> (Inr None, r, dst, t')
       | Some (i, s) \<Rightarrow> (Inr (Some s), r\<lparr>rr_last_entry_seq := s, rr_last_read_idx := word_of_nat i\<rparr>,
                        rg_pays (rr_ring r m) ! i, t'))"
    using read_into_still [OF sg(1,3) assms(3)] by blast
  have rn: "read_next r m fr =
      (if rg_wmark (rw_ring w m) \<le> wm then None else ring_next wm (rw_ring w m))"
    by (simp add: read_next_def sg(2) wm_def Let_def)
  show ?thesis
  proof (cases "read_next r m fr")
    case None
    with rn have "rg_wmark (rw_ring w m) \<le> wm \<or> ring_next wm (rw_ring w m) = None"
      by (auto split: if_splits)
    then have "rg_wmark (rw_ring w m) \<le> wm \<or>
        (\<forall>v \<in> set (rg_seqs (rw_ring w m)). committed v \<longrightarrow> v \<le> wm)"
      by (auto simp: ring_next_None not_less)
    with rd None show ?thesis by auto
  next
    case (Some p)
    obtain i s where p: "p = (i, s)" by (cases p)
    with Some rn have n: "ring_next wm (rw_ring w m) = Some (i, s)" by (auto split: if_splits)
    note ns = ring_next_Some [OF n] and ri = ring_inv_next [OF chan_invD(2) [OF assms(1)] n]
    have "same_geom w (r\<lparr>rr_last_entry_seq := s, rr_last_read_idx := word_of_nat i\<rparr>)"
      using assms(2) ns(1) by (simp add: same_geom_def unat_of_nat_below)
    with rd Some p ns ri sg(2) show ?thesis by auto
  qed
qed

lemma demo_chan_written: "chan_inv [replicate 8 9] (committed_writer demo_writer 0) demo_written"
proof -
  have "raw_writer_write demo_writer demo_mem (replicate 8 9) =
      Some (Inr (), committed_writer demo_writer 0, demo_written)"
    by (simp add: raw_writer_write_eq [OF demo_wf] demo_ring demo_free_slot demo_written_def)
  then show ?thesis
    using write_chan_inv [OF demo_chan, of "replicate 8 9"] by simp
qed

theorem read_returns_log_entry_witness:
  "\<exists>res r' bytes t'. raw_reader_read_into demo_reader (still demo_written) 0 (replicate 8 0) None =
       Some (Inr res, r', bytes, t') \<and> (case res of Some s \<Rightarrow> bytes = [replicate 8 9] ! (unat s - 1) | None \<Rightarrow> bytes = replicate 8 0)"
  using read_returns_log_entry [OF demo_chan_written, of demo_reader "replicate 8 0" 0 None]
  by (fastforce simp: same_geom_def split: option.splits)

end
