(* ===== verification/Zc_Machine.thy ===== *)
theory Zc_Machine
  imports Zc_Channel Zc_Transition
begin

text \<open>
  The writer one memory access at a time, interleaved with the holds and releases of the zero-copy
  reader. \<open>wstep\<close> performs the next access of the write or acquisition under way; its phases are the
  program points of \<open>claim_slot\<close>, \<open>write\<close> and \<open>publish\<close>. \<open>sys_step\<close> interleaves it with the
  compare-and-swap of the reader's \<open>try_acquire\<close> and the store of its \<open>release\<close>, and records the
  log of committed payloads.

  The probe of a slot by \<open>claim_slot\<close> (a load) and the store that takes it are two accesses. The
  first argument of \<open>sys_step\<close> says whether a reader may take the very slot between them. With
  \<open>False\<close> the invariant \<open>sys_inv\<close> holds in every reachable state; with \<open>True\<close> it does not.
\<close>

subsection \<open>The writer's program points\<close>

datatype wphase =
    Idle
  | Probe nat "byte list option"
  | Clear usize "byte list option"
  | Copy usize "byte list" nat
  | Fill usize
  | Publish usize
  | Index
  | Mark

definition wstep :: "raw_writer \<Rightarrow> wphase \<Rightarrow> mem \<Rightarrow> (raw_writer \<times> wphase \<times> mem) option" where
  "wstep w ph m =
     (case ph of
        Idle \<Rightarrow> None
      | Probe n job \<Rightarrow>
          if n < unat (rw_entry_count w)
          then let index = (rw_current_index w + word_of_nat n) mod rw_entry_count w in
            do {
              v \<leftarrow> load_u64 m (seq_cell (rw_payload_bytes w) index);
              Some (w, if sint v < 0 then Probe (Suc n) job else Clear index job, m)
            }
          else Some (w, Idle, m)
      | Clear index job \<Rightarrow>
          do {
            m \<leftarrow> store_u64 m (seq_cell (rw_payload_bytes w) index) 0;
            Some (w, case job of Some data \<Rightarrow> Copy index data 0 | None \<Rightarrow> Fill index, m)
          }
      | Copy index data k \<Rightarrow>
          if k < length data
          then do {
            m \<leftarrow> write_bytes m (payload_offset (rw_payload_bytes w) index + word_of_nat k) [data ! k];
            Some (w, Copy index data (Suc k), m)
          }
          else Some (w, Publish index, m)
      | Fill index \<Rightarrow> None
      | Publish index \<Rightarrow>
          let seq = rw_last_entry_seq w + 1 in
          do {
            m \<leftarrow> store_u64 m (seq_cell (rw_payload_bytes w) index) seq;
            current_index \<leftarrow> (if rw_entry_count w = 0 then None
                               else Some ((index + 1) mod rw_entry_count w));
            Some (w\<lparr>rw_last_entry_seq := seq, rw_current_index := current_index\<rparr>, Index, m)
          }
      | Index \<Rightarrow>
          do {
            m \<leftarrow> store_u64 m OFF_WRITE_INDEX (rw_current_index w);
            Some (w, Mark, m)
          }
      | Mark \<Rightarrow>
          do {
            m \<leftarrow> store_u64 m high_watermark (rw_last_entry_seq w);
            Some (w, Idle, m)
          })"

subsection \<open>The system\<close>

record sys =
  sy_w :: raw_writer
  sy_ph :: wphase
  sy_mem :: mem
  sy_log :: "byte list list"
  sy_holds :: "(usize \<times> u64) set"

abbreviation sy_pb :: "sys \<Rightarrow> usize" where "sy_pb s \<equiv> rw_payload_bytes (sy_w s)"
abbreviation sy_n :: "sys \<Rightarrow> usize" where "sy_n s \<equiv> rw_entry_count (sy_w s)"
abbreviation sy_ring :: "sys \<Rightarrow> ring" where "sy_ring s \<equiv> rw_ring (sy_w s) (sy_mem s)"

fun claiming :: "wphase \<Rightarrow> usize \<Rightarrow> bool" where
  "claiming (Clear i job) j \<longleftrightarrow> i = j"
| "claiming _ j \<longleftrightarrow> False"

fun logged :: "wphase \<Rightarrow> usize \<Rightarrow> mem \<Rightarrow> byte list list \<Rightarrow> byte list list" where
  "logged (Publish i) pb m log = log @ [pay_at pb m (unat i)]"
| "logged _ pb m log = log"

inductive sys_step :: "bool \<Rightarrow> sys \<Rightarrow> sys \<Rightarrow> bool" for racy where
  start_write:
    "sy_ph s = Idle \<Longrightarrow> length data = unat (sy_pb s) \<Longrightarrow> Suc (length (sy_log s)) < 2 ^ 63 \<Longrightarrow>
     sys_step racy s (s\<lparr>sy_ph := Probe 0 (Some data)\<rparr>)"
| start_acquire:
    "sy_ph s = Idle \<Longrightarrow> Suc (length (sy_log s)) < 2 ^ 63 \<Longrightarrow>
     sys_step racy s (s\<lparr>sy_ph := Probe 0 None\<rparr>)"
| run:
    "wstep (sy_w s) (sy_ph s) (sy_mem s) = Some (w', ph', m') \<Longrightarrow>
     sys_step racy s (s\<lparr>sy_w := w', sy_ph := ph', sy_mem := m',
       sy_log := logged (sy_ph s) (sy_pb s) (sy_mem s) (sy_log s)\<rparr>)"
| fill:
    "sy_ph s = Fill i \<Longrightarrow> length bs = unat (sy_pb s) \<Longrightarrow>
     write_bytes (sy_mem s) (payload_offset (sy_pb s) i) bs = Some m' \<Longrightarrow>
     sys_step racy s (s\<lparr>sy_mem := m'\<rparr>)"
| commit: "sy_ph s = Fill i \<Longrightarrow> sys_step racy s (s\<lparr>sy_ph := Publish i\<rparr>)"
| drop: "sy_ph s = Fill i \<Longrightarrow> sys_step racy s (s\<lparr>sy_ph := Idle\<rparr>)"
| hold:
    "unat i < unat (sy_n s) \<Longrightarrow> committed q \<Longrightarrow>
     compare_exchange (sy_mem s) (seq_cell (sy_pb s) i) q (- q) = Some (Inr q, m') \<Longrightarrow>
     racy \<or> \<not> claiming (sy_ph s) i \<Longrightarrow>
     sys_step racy s (s\<lparr>sy_mem := m', sy_holds := insert (i, q) (sy_holds s)\<rparr>)"
| release:
    "(i, q) \<in> sy_holds s \<Longrightarrow> store_u64 (sy_mem s) (seq_cell (sy_pb s) i) q = Some m' \<Longrightarrow>
     sys_step racy s (s\<lparr>sy_mem := m', sy_holds := sy_holds s - {(i, q)}\<rparr>)"

subsection \<open>The invariant\<close>

text \<open>Before the publication of an entry, and after it.\<close>

definition settled :: "byte list list \<Rightarrow> raw_writer \<Rightarrow> ring \<Rightarrow> bool" where
  "settled log w g \<longleftrightarrow> unat (rw_last_entry_seq w) = length log \<and> rg_wmark g = rw_last_entry_seq w"

definition taken :: "byte list list \<Rightarrow> raw_writer \<Rightarrow> ring \<Rightarrow> usize \<Rightarrow> bool" where
  "taken log w g i \<longleftrightarrow>
     settled log w g \<and> Suc (length log) < 2 ^ 63 \<and> unat i < unat (rw_entry_count w) \<and>
     rg_seqs g ! unat i = 0"

definition posted :: "byte list list \<Rightarrow> raw_writer \<Rightarrow> ring \<Rightarrow> bool" where
  "posted log w g \<longleftrightarrow>
     unat (rw_last_entry_seq w) = length log \<and> rg_wmark g \<le> rw_last_entry_seq w \<and>
     (\<exists>j < unat (rw_entry_count w). unsigned_abs (rg_seqs g ! j) = rw_last_entry_seq w)"

fun phase_inv :: "wphase \<Rightarrow> byte list list \<Rightarrow> raw_writer \<Rightarrow> ring \<Rightarrow> bool" where
  "phase_inv Idle log w g \<longleftrightarrow> settled log w g"
| "phase_inv (Probe n job) log w g \<longleftrightarrow>
     settled log w g \<and> Suc (length log) < 2 ^ 63 \<and>
     (\<forall>d. job = Some d \<longrightarrow> length d = unat (rw_payload_bytes w))"
| "phase_inv (Clear i job) log w g \<longleftrightarrow>
     settled log w g \<and> Suc (length log) < 2 ^ 63 \<and> unat i < unat (rw_entry_count w) \<and>
     \<not> held (rg_seqs g ! unat i) \<and> (\<forall>d. job = Some d \<longrightarrow> length d = unat (rw_payload_bytes w))"
| "phase_inv (Copy i d k) log w g \<longleftrightarrow>
     taken log w g i \<and> length d = unat (rw_payload_bytes w) \<and> k \<le> length d \<and>
     take k (rg_pays g ! unat i) = take k d"
| "phase_inv (Fill i) log w g \<longleftrightarrow> taken log w g i"
| "phase_inv (Publish i) log w g \<longleftrightarrow> taken log w g i"
| "phase_inv Index log w g \<longleftrightarrow> posted log w g"
| "phase_inv Mark log w g \<longleftrightarrow> posted log w g"

definition holds_inv :: "(usize \<times> u64) set \<Rightarrow> raw_writer \<Rightarrow> ring \<Rightarrow> bool" where
  "holds_inv H w g \<longleftrightarrow>
     (\<forall>(i, q) \<in> H. unat i < unat (rw_entry_count w) \<and> committed q \<and> rg_seqs g ! unat i = - q)"

definition sys_inv :: "sys \<Rightarrow> bool" where
  "sys_inv s \<longleftrightarrow>
     rw_wf (sy_w s) (sy_mem s) \<and> ring_inv (sy_log s) (sy_ring s) \<and>
     phase_inv (sy_ph s) (sy_log s) (sy_w s) (sy_ring s) \<and>
     holds_inv (sy_holds s) (sy_w s) (sy_ring s)"

subsection \<open>Preservation, one lemma per kind of step\<close>

lemma ring_inv_cong:
  "rg_seqs g' = rg_seqs g \<Longrightarrow> rg_pays g' = rg_pays g \<Longrightarrow> ring_inv log g' = ring_inv log g"
  by (simp add: ring_inv_def seqs_unique_def)

lemma ring_inv_fill:
  "ring_inv log g \<Longrightarrow> rg_seqs g ! i = 0 \<Longrightarrow> ring_inv log (ring_fill i bs g)"
  unfolding ring_inv_def ring_fill_def seqs_unique_def
  by (auto, metis nth_list_update_neq)

lemma ring_inv_commit:
  assumes "ring_inv log g" "i < length (rg_seqs g)" "Suc (length log) < 2 ^ 63"
  shows "ring_inv (log @ [rg_pays g ! i]) (g\<lparr>rg_seqs := (rg_seqs g)[i := word_of_nat (Suc (length log))]\<rparr>)"
  using ring_inv_write [OF assms, of "rg_pays g ! i"]
  by (subst (asm) ring_inv_cong [where g = "g\<lparr>rg_seqs := (rg_seqs g)[i := word_of_nat (Suc (length log))]\<rparr>"])
    (simp_all add: ring_write_def ring_publish_def ring_fill_def)

lemma holds_not:
  "holds_inv H w g \<Longrightarrow> \<not> held (rg_seqs g ! unat i) \<Longrightarrow> (i, q) \<notin> H"
  using sint_minus_neg [of q] by (auto simp: holds_inv_def)

lemma holds_inv_other:
  assumes "holds_inv H w g" "\<And>q. (i, q) \<notin> H"
  shows "holds_inv H w (g\<lparr>rg_seqs := (rg_seqs g)[unat i := v]\<rparr>)"
  unfolding holds_inv_def
proof safe
  fix j q assume j: "(j, q) \<in> H"
  with assms(2) have "j \<noteq> i" by blast
  then have "unat i \<noteq> unat j" by (simp add: u64_eq_iff)
  with assms(1) j show "unat j < unat (rw_entry_count w)" "committed q"
    "rg_seqs (g\<lparr>rg_seqs := (rg_seqs g)[unat i := v]\<rparr>) ! unat j = - q"
    by (auto simp: holds_inv_def)
qed

lemma rw_ring_same:
  "rw_payload_bytes w' = rw_payload_bytes w \<Longrightarrow> rw_entry_count w' = rw_entry_count w \<Longrightarrow>
   rw_ring w' m = rw_ring w m"
  by (simp add: rw_ring_def)

lemma rw_ring_nth:
  "i < unat (rw_entry_count w) \<Longrightarrow> rg_seqs (rw_ring w m) ! i = seq_at (rw_payload_bytes w) m i"
  "i < unat (rw_entry_count w) \<Longrightarrow> rg_pays (rw_ring w m) ! i = pay_at (rw_payload_bytes w) m i"
  by (simp_all add: rw_ring_def)

abbreviation after_run :: "sys \<Rightarrow> raw_writer \<Rightarrow> wphase \<Rightarrow> mem \<Rightarrow> sys" where
  "after_run s w' ph' m' \<equiv> s\<lparr>sy_w := w', sy_ph := ph', sy_mem := m',
     sy_log := logged (sy_ph s) (sy_pb s) (sy_mem s) (sy_log s)\<rparr>"

lemma sys_invD:
  assumes "sys_inv s"
  shows "rw_wf (sy_w s) (sy_mem s)" "ring_inv (sy_log s) (sy_ring s)"
    "phase_inv (sy_ph s) (sy_log s) (sy_w s) (sy_ring s)" "holds_inv (sy_holds s) (sy_w s) (sy_ring s)"
    "seg_geom (sy_pb s) (sy_n s) (length (sy_mem s))" "72 \<le> length (sy_mem s)"
  using assms seg_geom_72 by (auto simp: sys_inv_def rw_wf_def)

lemma inv_probe:
  assumes "sys_inv s" "sy_ph s = Probe n job"
    and "wstep (sy_w s) (sy_ph s) (sy_mem s) = Some (w', ph', m')"
  shows "sys_inv (after_run s w' ph' m')"
proof (cases "n < unat (sy_n s)")
  case True
  note d = sys_invD [OF assms(1)]
  let ?i = "(rw_current_index (sy_w s) + word_of_nat n) mod sy_n s"
  have "0 < unat (sy_n s)" using True by simp
  then have i: "unat ?i < unat (sy_n s)" by (simp add: unat_mod_u64)
  with assms(2,3) True d show ?thesis
    by (auto simp: sys_inv_def wstep_def Let_def rw_ring_nth)
next
  case False
  with assms sys_invD [OF assms(1)] show ?thesis by (simp add: sys_inv_def wstep_def)
qed

lemma inv_clear:
  assumes "sys_inv s" "sy_ph s = Clear i job"
    and "wstep (sy_w s) (sy_ph s) (sy_mem s) = Some (w', ph', m')"
  shows "sys_inv (after_run s w' ph' m')"
proof -
  note d = sys_invD [OF assms(1)]
  have i: "unat i < unat (sy_n s)" and nh: "\<not> held (rg_seqs (sy_ring s) ! unat i)"
    using d(3) assms(2) by auto
  have m': "m' = set_seq (sy_pb s) (sy_mem s) (unat i) 0" "w' = sy_w s"
    "ph' = (case job of Some data \<Rightarrow> Copy i data 0 | None \<Rightarrow> Fill i)"
    using assms(2,3) d(5) i by (auto simp: wstep_def)
  have r: "rw_ring (sy_w s) m' = (sy_ring s)\<lparr>rg_seqs := (rg_seqs (sy_ring s))[unat i := 0]\<rparr>"
    unfolding m' by (rule rw_ring_set_seq [OF d(1) i])
  have "ring_inv (sy_log s) (rw_ring (sy_w s) m')"
    unfolding r using d(2) i by (intro ring_inv_update) auto
  moreover have "holds_inv (sy_holds s) (sy_w s) (rw_ring (sy_w s) m')"
    unfolding r using d(4) holds_not [OF d(4) nh] by (rule holds_inv_other)
  moreover have "rw_wf (sy_w s) m'" unfolding m' using d(1) i by (rule rw_wf_set_seq)
  moreover have "phase_inv ph' (sy_log s) (sy_w s) (rw_ring (sy_w s) m')"
    using d(3) assms(2) i r
    by (auto simp: m'(3) taken_def settled_def split: option.split)
  ultimately show ?thesis using m'(2) assms(2) by (simp add: sys_inv_def)
qed

lemma inv_fill_bytes:
  assumes "sys_inv s" "taken (sy_log s) (sy_w s) (sy_ring s) i" "length bs = unat (sy_pb s)"
  defines "m' \<equiv> set_pay (sy_pb s) (sy_mem s) (unat i) bs"
  shows "rw_wf (sy_w s) m'" "ring_inv (sy_log s) (rw_ring (sy_w s) m')"
    "holds_inv (sy_holds s) (sy_w s) (rw_ring (sy_w s) m')" "taken (sy_log s) (sy_w s) (rw_ring (sy_w s) m') i"
    "rw_ring (sy_w s) m' = ring_fill (unat i) bs (sy_ring s)"
proof -
  note d = sys_invD [OF assms(1)]
  have i: "unat i < unat (sy_n s)" and z: "rg_seqs (sy_ring s) ! unat i = 0"
    using assms(2) by (auto simp: taken_def)
  show r: "rw_ring (sy_w s) m' = ring_fill (unat i) bs (sy_ring s)"
    unfolding m'_def by (rule rw_ring_set_pay [OF d(1) i assms(3)])
  show "rw_wf (sy_w s) m'" unfolding m'_def by (rule rw_wf_set_pay [OF d(1) i assms(3)])
  show "ring_inv (sy_log s) (rw_ring (sy_w s) m')" unfolding r using d(2) z by (rule ring_inv_fill)
  show "holds_inv (sy_holds s) (sy_w s) (rw_ring (sy_w s) m')"
    "taken (sy_log s) (sy_w s) (rw_ring (sy_w s) m') i"
    unfolding r using d(4) assms(2) by (auto simp: holds_inv_def taken_def settled_def ring_fill_def)
qed

lemma inv_copy:
  assumes "sys_inv s" "sy_ph s = Copy i data k"
    and "wstep (sy_w s) (sy_ph s) (sy_mem s) = Some (w', ph', m')"
  shows "sys_inv (after_run s w' ph' m')"
proof -
  note d = sys_invD [OF assms(1)]
  have t: "taken (sy_log s) (sy_w s) (sy_ring s) i" and l: "length data = unat (sy_pb s)"
    and tk: "take k (rg_pays (sy_ring s) ! unat i) = take k data"
    using d(3) assms(2) by auto
  have i: "unat i < unat (sy_n s)" using t by (simp add: taken_def)
  show ?thesis
  proof (cases "k < length data")
    case False
    with assms d t show ?thesis by (auto simp: sys_inv_def wstep_def)
  next
    case True
    let ?bs = "(pay_at (sy_pb s) (sy_mem s) (unat i))[k := data ! k]"
    have lp: "length (pay_at (sy_pb s) (sy_mem s) (unat i)) = unat (sy_pb s)"
      using d(5) i by (rule slots.gpay_width)
    then have lb: "length ?bs = unat (sy_pb s)" by simp
    have m': "w' = sy_w s" "ph' = Copy i data (Suc k)" "m' = set_pay (sy_pb s) (sy_mem s) (unat i) ?bs"
      using assms(2,3) True write_payload_byte [OF d(5) i, of k] l by (auto simp: wstep_def)
    note f = inv_fill_bytes [OF assms(1) t lb, folded m'(3)]
    have "rg_pays (rw_ring (sy_w s) m') ! unat i = ?bs"
      using f(5) i by (simp add: ring_fill_def)
    moreover have "take (Suc k) ?bs = take (Suc k) data"
      using True tk lp l i by (simp add: take_Suc_conv_app_nth rw_ring_nth)
    ultimately show ?thesis
      using f m'(1,2) assms(2) l True by (simp add: sys_inv_def)
  qed
qed

lemma inv_publish:
  assumes "sys_inv s" "sy_ph s = Publish i"
    and "wstep (sy_w s) (sy_ph s) (sy_mem s) = Some (w', ph', m')"
  shows "sys_inv (after_run s w' ph' m')"
proof -
  note d = sys_invD [OF assms(1)]
  have t: "settled (sy_log s) (sy_w s) (sy_ring s)" "Suc (length (sy_log s)) < 2 ^ 63"
      "unat i < unat (sy_n s)" "rg_seqs (sy_ring s) ! unat i = 0"
    using d(3) assms(2) by (auto simp: taken_def)
  have seq: "rw_last_entry_seq (sy_w s) + 1 = word_of_nat (Suc (length (sy_log s)))"
    and us: "unat (rw_last_entry_seq (sy_w s) + 1) = Suc (length (sy_log s))"
    using t(1,2) by (simp_all add: settled_def u64_eq_iff unat_add_no_wrap)
  have c: "committed (rw_last_entry_seq (sy_w s) + 1)"
    unfolding seq using t(2) by (intro committed_of_nat) auto
  have n: "sy_n s \<noteq> 0" using t(3) by auto
  have m': "ph' = Index" "m' = set_seq (sy_pb s) (sy_mem s) (unat i) (rw_last_entry_seq (sy_w s) + 1)"
    "w' = (sy_w s)\<lparr>rw_last_entry_seq := rw_last_entry_seq (sy_w s) + 1,
                    rw_current_index := (i + 1) mod sy_n s\<rparr>"
    using assms(2,3) d(5) t(3) n by (auto simp: wstep_def Let_def)
  have r: "rw_ring w' m' = (sy_ring s)\<lparr>rg_seqs := (rg_seqs (sy_ring s))[unat i := rw_last_entry_seq (sy_w s) + 1]\<rparr>"
    using rw_ring_set_seq [OF d(1) t(3)] m' by (simp add: rw_ring_def)
  have "ring_inv (sy_log s @ [rg_pays (sy_ring s) ! unat i]) (rw_ring w' m')"
    unfolding r seq using d(2) t(2,3) by (intro ring_inv_commit) simp_all
  then have "ring_inv (sy_log s @ [pay_at (sy_pb s) (sy_mem s) (unat i)]) (rw_ring w' m')"
    using t(3) by (simp add: rw_ring_nth)
  moreover have "holds_inv (sy_holds s) w' (rw_ring w' m')"
    using holds_inv_other [OF d(4) holds_not [OF d(4)], of i] t(4) m'(3) r by (simp add: holds_inv_def)
  moreover have "rw_wf w' m'"
    using rw_wf_set_seq [OF d(1) t(3)] m' t(3) unat_ring_succ [OF d(5) t(3)] by (auto simp: rw_wf_def)
  moreover have "posted (sy_log s @ [pay_at (sy_pb s) (sy_mem s) (unat i)]) w' (rw_ring w' m')"
  proof -
    have w': "rw_last_entry_seq w' = rw_last_entry_seq (sy_w s) + 1" "rw_entry_count w' = sy_n s"
      by (simp_all add: m'(3))
    have "rg_wmark (rw_ring w' m') \<le> rw_last_entry_seq w'"
      using t(1) us by (simp add: r w' settled_def word_le_nat_alt)
    moreover have "unsigned_abs (rg_seqs (rw_ring w' m') ! unat i) = rw_last_entry_seq w'"
      using t(3) c by (simp add: r w')
    ultimately show ?thesis using us t(3) w' unfolding posted_def by auto
  qed
  ultimately show ?thesis using assms(2) m'(1) by (simp add: sys_inv_def)
qed

lemma inv_header:
  assumes "sys_inv s" "sy_ph s = Index \<or> sy_ph s = Mark"
    and "wstep (sy_w s) (sy_ph s) (sy_mem s) = Some (w', ph', m')"
  shows "sys_inv (after_run s w' ph' m')"
proof -
  note d = sys_invD [OF assms(1)]
  have wf: "rw_wf (sy_w s) (set_hdr (sy_mem s) off v)" if "hdr_off off" for off v
    using d(1,6) that by (simp add: rw_wf_def)
  have p: "posted (sy_log s) (sy_w s) (sy_ring s)" using d(3) assms(2) by auto
  from assms(2) show ?thesis
  proof
    assume ph: "sy_ph s = Index"
    with assms(3) d(6) have m': "w' = sy_w s" "ph' = Mark"
        "m' = set_hdr (sy_mem s) OFF_WRITE_INDEX (rw_current_index (sy_w s))"
      by (auto simp: wstep_def)
    have "rw_ring w' m' = (sy_ring s)\<lparr>rg_windex := rw_current_index (sy_w s)\<rparr>"
      using ring_of_set_windex [OF d(5)] m' by (simp add: rw_ring_def)
    with d p ph m' wf [of OFF_WRITE_INDEX] ring_inv_cong [of "rw_ring w' m'" "sy_ring s"] show ?thesis
      by (simp add: sys_inv_def holds_inv_def posted_def)
  next
    assume ph: "sy_ph s = Mark"
    with assms(3) d(6) have m': "w' = sy_w s" "ph' = Idle"
        "m' = set_hdr (sy_mem s) OFF_LAST_ENTRY_SEQ (rw_last_entry_seq (sy_w s))"
      by (auto simp: wstep_def)
    have "rw_ring w' m' = (sy_ring s)\<lparr>rg_wmark := rw_last_entry_seq (sy_w s)\<rparr>"
      using ring_of_set_wmark [OF d(5)] m' by (simp add: rw_ring_def)
    with d p ph m' wf [of OFF_LAST_ENTRY_SEQ] ring_inv_cong [of "rw_ring w' m'" "sy_ring s"]
    show ?thesis by (simp add: sys_inv_def holds_inv_def posted_def settled_def)
  qed
qed

lemma inv_run:
  assumes "sys_inv s" "wstep (sy_w s) (sy_ph s) (sy_mem s) = Some (w', ph', m')"
  shows "sys_inv (after_run s w' ph' m')"
proof (cases "sy_ph s")
  case (Probe n job)
  then show ?thesis using assms by (intro inv_probe)
next
  case (Clear i job)
  then show ?thesis using assms by (intro inv_clear)
next
  case (Copy i d k)
  then show ?thesis using assms by (intro inv_copy)
next
  case (Publish i)
  then show ?thesis using assms by (intro inv_publish)
next
  case Index
  then show ?thesis using assms by (intro inv_header) simp_all
next
  case Mark
  then show ?thesis using assms by (intro inv_header) simp_all
qed (use assms in \<open>simp_all add: wstep_def\<close>)

text \<open>A change of one control word that keeps its number, made by the reader.\<close>

lemma phase_inv_sign:
  assumes "phase_inv ph log w g" "length (rg_seqs g) = unat (rw_entry_count w)"
    and "unat i < unat (rw_entry_count w)" "rg_seqs g ! unat i \<noteq> 0" "v \<noteq> 0"
    and "unsigned_abs v = unsigned_abs (rg_seqs g ! unat i)" "held v \<longrightarrow> \<not> claiming ph i"
  shows "phase_inv ph log w (g\<lparr>rg_seqs := (rg_seqs g)[unat i := v]\<rparr>)"
proof -
  have ne: "unat j \<noteq> unat i" if "rg_seqs g ! unat j = 0" for j :: usize
    using that assms(4) by auto
  have pst: "posted log w (g\<lparr>rg_seqs := (rg_seqs g)[unat i := v]\<rparr>)" if "posted log w g"
    using that assms(2,3,6) unfolding posted_def by (auto simp: nth_list_update)
  show ?thesis
  proof (cases ph)
    case (Clear j job)
    show ?thesis
    proof (cases "j = i")
      case True
      with assms Clear show ?thesis by (auto simp: settled_def)
    next
      case False
      then have "unat i \<noteq> unat j" by (simp add: u64_eq_iff)
      with assms Clear show ?thesis by (auto simp: settled_def)
    qed
  qed (use assms ne pst in \<open>auto simp: settled_def taken_def nth_list_update\<close>)
qed

lemma inv_sign:
  assumes inv: "sys_inv s" and i: "unat i < unat (sy_n s)"
    and nz: "rg_seqs (sy_ring s) ! unat i \<noteq> 0" "v \<noteq> 0"
    and abs: "unsigned_abs v = unsigned_abs (rg_seqs (sy_ring s) ! unat i)"
    and cl: "held v \<longrightarrow> \<not> claiming (sy_ph s) i"
    and H: "holds_inv H (sy_w s) ((sy_ring s)\<lparr>rg_seqs := (rg_seqs (sy_ring s))[unat i := v]\<rparr>)"
  shows "sys_inv (s\<lparr>sy_mem := set_seq (sy_pb s) (sy_mem s) (unat i) v, sy_holds := H\<rparr>)"
proof -
  note d = sys_invD [OF inv]
  have r: "rw_ring (sy_w s) (set_seq (sy_pb s) (sy_mem s) (unat i) v) =
      (sy_ring s)\<lparr>rg_seqs := (rg_seqs (sy_ring s))[unat i := v]\<rparr>"
    by (rule rw_ring_set_seq [OF d(1) i])
  have "ring_inv (sy_log s) ((sy_ring s)\<lparr>rg_seqs := (rg_seqs (sy_ring s))[unat i := v]\<rparr>)"
    using d(2) i abs by (intro ring_inv_update) auto
  moreover have "phase_inv (sy_ph s) (sy_log s) (sy_w s)
      ((sy_ring s)\<lparr>rg_seqs := (rg_seqs (sy_ring s))[unat i := v]\<rparr>)"
    using d(3) i nz abs cl by (intro phase_inv_sign) auto
  moreover have "rw_wf (sy_w s) (set_seq (sy_pb s) (sy_mem s) (unat i) v)"
    using d(1) i by (rule rw_wf_set_seq)
  ultimately show ?thesis using H by (simp add: sys_inv_def r)
qed

lemma holds_inv_insert:
  assumes "holds_inv H w g" "length (rg_seqs g) = unat (rw_entry_count w)"
    and "unat i < unat (rw_entry_count w)" "rg_seqs g ! unat i = q" "committed q"
  shows "holds_inv (insert (i, q) H) w (g\<lparr>rg_seqs := (rg_seqs g)[unat i := - q]\<rparr>)"
proof -
  have "(i, p) \<notin> H" for p using holds_not [OF assms(1)] assms(4,5) by auto
  then have "holds_inv H w (g\<lparr>rg_seqs := (rg_seqs g)[unat i := - q]\<rparr>)"
    by (rule holds_inv_other [OF assms(1)])
  with assms(2,3,5) show ?thesis by (simp add: holds_inv_def)
qed

lemma holds_inv_remove:
  assumes "holds_inv H w g" "(i, q) \<in> H"
  shows "holds_inv (H - {(i, q)}) w (g\<lparr>rg_seqs := (rg_seqs g)[unat i := v]\<rparr>)"
proof (rule holds_inv_other)
  show "holds_inv (H - {(i, q)}) w g" using assms(1) by (auto simp: holds_inv_def)
  have "rg_seqs g ! unat i = - p" if "(i, p) \<in> H" for p
    using assms(1) that by (auto simp: holds_inv_def)
  from this [OF assms(2)] this show "(i, p) \<notin> H - {(i, q)}" for p by fastforce
qed

lemma sys_inv_step:
  assumes "sys_inv s" "sys_step False s s'"
  shows "sys_inv s'"
  using assms(2)
proof cases
  case (run w' ph' m')
  with inv_run [OF assms(1)] show ?thesis by simp
next
  case (fill i bs m')
  note d = sys_invD [OF assms(1)]
  have t: "taken (sy_log s) (sy_w s) (sy_ring s) i" using d(3) fill(2) by simp
  then have i: "unat i < unat (sy_n s)" by (simp add: taken_def)
  have "m' = set_pay (sy_pb s) (sy_mem s) (unat i) bs" using fill d(5) i by simp
  with inv_fill_bytes [OF assms(1) t fill(3)] fill(1,2) show ?thesis by (simp add: sys_inv_def)
next
  case (hold i q m')
  note d = sys_invD [OF assms(1)]
  have q: "rg_seqs (sy_ring s) ! unat i = q" "m' = set_seq (sy_pb s) (sy_mem s) (unat i) (- q)"
    using hold(2,4) d(5) by (auto simp: rw_ring_nth split: if_splits)
  have "q \<noteq> 0" using hold(3) by auto
  with q hold d(4) show ?thesis
    by (simp only:) (intro inv_sign holds_inv_insert assms(1); simp)
next
  case (release i q m')
  note d = sys_invD [OF assms(1)]
  have q: "unat i < unat (sy_n s)" "committed q" "rg_seqs (sy_ring s) ! unat i = - q"
    using d(4) release(2) by (auto simp: holds_inv_def)
  have "m' = set_seq (sy_pb s) (sy_mem s) (unat i) q" using release(3) d(5) q(1) by simp
  moreover have "q \<noteq> 0" using q(2) by auto
  ultimately show ?thesis using q release(1)
    by (simp only:) (intro inv_sign holds_inv_remove [OF d(4) release(2)] assms(1); simp)
qed (use assms(1) in \<open>auto simp: sys_inv_def taken_def\<close>)

interpretation ring_sys: step_invariant "sys_step False" sys_inv
  by unfold_locales (rule sys_inv_step)


subsection \<open>Predicates that stay true\<close>

text \<open>The geometry never changes and the log only grows.\<close>

lemma wstep_geom:
  assumes "wstep w ph m = Some (w', ph', m')"
  shows "rw_payload_bytes w' = rw_payload_bytes w" "rw_entry_count w' = rw_entry_count w"
    "length m' = length m"
  using assms
  by (auto simp: wstep_def Let_def bind_eq_Some_conv
      dest: store_u64_length write_bytes_length split: wphase.splits if_splits)

lemma sys_step_geom:
  assumes "sys_step racy s s'"
  shows "sy_pb s' = sy_pb s \<and> sy_n s' = sy_n s \<and> length (sy_mem s') = length (sy_mem s) \<and>
     (\<exists>l. sy_log s' = sy_log s @ l)"
  using assms
proof cases
  case (run w' ph' m')
  have "\<exists>l. logged (sy_ph s) (sy_pb s) (sy_mem s) (sy_log s) = sy_log s @ l"
    by (cases "sy_ph s") auto
  with run wstep_geom [OF run(2)] show ?thesis by simp
qed (auto dest: store_u64_length write_bytes_length compare_exchange_length)

lemma sys_inv_n: "sys_inv s \<Longrightarrow> j < unat (sy_n s) \<Longrightarrow>
    unat (unsigned_abs (rg_seqs (sy_ring s) ! j)) \<le> length (sy_log s)"
  using sys_invD(2) [of s] by (cases "rg_seqs (sy_ring s) ! j = 0") (auto simp: ring_inv_def)

text \<open>What one step does to the control words.\<close>

definition seqs_change :: "sys \<Rightarrow> sys \<Rightarrow> nat \<Rightarrow> u64 \<Rightarrow> bool" where
  "seqs_change s s' i v \<longleftrightarrow>
     rg_seqs (sy_ring s') = (rg_seqs (sy_ring s))[i := v] \<and>
     (v = 0 \<or> unsigned_abs v = unsigned_abs (rg_seqs (sy_ring s) ! i) \<or>
      unat (unsigned_abs v) = Suc (length (sy_log s)))"

lemma seqs_change_none: "rg_seqs (sy_ring s') = rg_seqs (sy_ring s) \<Longrightarrow> \<exists>i v. seqs_change s s' i v"
  by (rule exI [of _ 0], rule exI [of _ "rg_seqs (sy_ring s) ! 0"]) (simp add: seqs_change_def)

lemma seqs_change_set:
  assumes "sys_inv s" "unat i < unat (sy_n s)"
    and "sy_pb s' = sy_pb s" "sy_n s' = sy_n s" "sy_mem s' = set_seq (sy_pb s) (sy_mem s) (unat i) v"
    and "v = 0 \<or> unsigned_abs v = unsigned_abs (rg_seqs (sy_ring s) ! unat i) \<or>
      unat (unsigned_abs v) = Suc (length (sy_log s))"
  shows "\<exists>i v. seqs_change s s' i v"
proof -
  have "rg_seqs (sy_ring s') = (rg_seqs (sy_ring s))[unat i := v]"
    using rw_ring_set_seq [OF sys_invD(1) [OF assms(1)] assms(2)] assms(3-5) by (simp add: rw_ring_def)
  with assms(6) show ?thesis unfolding seqs_change_def by blast
qed

lemma seqs_change_pay:
  assumes "sys_inv s" "unat i < unat (sy_n s)" "length bs = unat (sy_pb s)"
    and "sy_pb s' = sy_pb s" "sy_n s' = sy_n s" "sy_mem s' = set_pay (sy_pb s) (sy_mem s) (unat i) bs"
  shows "\<exists>i v. seqs_change s s' i v"
proof -
  have "sy_ring s' = ring_fill (unat i) bs (sy_ring s)"
    using rw_ring_set_pay [OF sys_invD(1) [OF assms(1)] assms(2,3)] assms(4-6) by (simp add: rw_ring_def)
  then show ?thesis by (intro seqs_change_none) (simp add: ring_fill_def)
qed

lemma seqs_change_copy:
  assumes inv: "sys_inv s" and run: "wstep (sy_w s) (sy_ph s) (sy_mem s) = Some (w', ph', m')"
    and Copy: "sy_ph s = Copy i data k"
  shows "\<exists>i v. seqs_change s (after_run s w' ph' m') i v"
proof -
  note d = sys_invD [OF inv] and g = wstep_geom [OF run]
  have c: "unat i < unat (sy_n s)" "length data = unat (sy_pb s)" using Copy d(3) by (auto simp: taken_def)
  show ?thesis
  proof (cases "k < length data")
    case True
    let ?bs = "(pay_at (sy_pb s) (sy_mem s) (unat i))[k := data ! k]"
    have "m' = set_pay (sy_pb s) (sy_mem s) (unat i) ?bs"
      using run Copy True write_payload_byte [OF d(5) c(1), of k "data ! k"] c by (auto simp: wstep_def)
    with g show ?thesis
      using slots.gpay_width [OF d(5) c(1)] by (intro seqs_change_pay [OF inv c(1), of ?bs]) simp_all
  next
    case False
    with run Copy show ?thesis by (intro seqs_change_none) (simp add: wstep_def)
  qed
qed

lemma seqs_change_publish:
  assumes inv: "sys_inv s" and run: "wstep (sy_w s) (sy_ph s) (sy_mem s) = Some (w', ph', m')"
    and Publish: "sy_ph s = Publish i"
  shows "\<exists>i v. seqs_change s (after_run s w' ph' m') i v"
proof -
  let ?v = "rw_last_entry_seq (sy_w s) + 1"
  note d = sys_invD [OF inv] and g = wstep_geom [OF run]
  have t: "taken (sy_log s) (sy_w s) (sy_ring s) i" using Publish d(3) by simp
  then have i: "unat i < unat (sy_n s)" and us: "unat ?v = Suc (length (sy_log s))"
    by (simp_all add: taken_def settled_def unat_add_no_wrap)
  from us t have "committed ?v" by (simp add: sint_pos_iff taken_def)
  with us have "unat (unsigned_abs ?v) = Suc (length (sy_log s))" by simp
  moreover have "m' = set_seq (sy_pb s) (sy_mem s) (unat i) ?v"
    using run Publish d(5) i by (auto simp: wstep_def Let_def bind_eq_Some_conv)
  ultimately show ?thesis using g by (intro seqs_change_set [OF inv i, of _ ?v]) simp_all
qed

lemma seqs_change_run:
  assumes inv: "sys_inv s" and run: "wstep (sy_w s) (sy_ph s) (sy_mem s) = Some (w', ph', m')"
  shows "\<exists>i v. seqs_change s (after_run s w' ph' m') i v"
proof -
  note d = sys_invD [OF inv] and g = wstep_geom [OF run]
  have hdr: "rg_seqs (sy_ring (after_run s w' ph' m')) = rg_seqs (sy_ring s)"
    if "m' = set_hdr (sy_mem s) off v" "hdr_off off" for off v
    using that g d(5) by (simp add: rw_ring_def ring_of_def)
  show ?thesis
  proof (cases "sy_ph s")
    case (Clear i job)
    have i: "unat i < unat (sy_n s)" using d(3) Clear by simp
    then have "m' = set_seq (sy_pb s) (sy_mem s) (unat i) 0"
      using run d(5) Clear by (auto simp: wstep_def)
    with g i show ?thesis by (intro seqs_change_set [OF inv i, of _ 0]) simp_all
  next
    case (Copy i data k)
    with inv run show ?thesis by (rule seqs_change_copy)
  next
    case (Publish i)
    with inv run show ?thesis by (rule seqs_change_publish)
  next
    case (Probe n job)
    then have "m' = sy_mem s"
      using run by (auto simp: wstep_def Let_def bind_eq_Some_conv split: if_splits)
    with g show ?thesis by (intro seqs_change_none) (simp add: rw_ring_def)
  next
    case Index
    with run d(6) show ?thesis
      by (intro seqs_change_none hdr [of OFF_WRITE_INDEX "rw_current_index (sy_w s)"]) (auto simp: wstep_def)
  next
    case Mark
    with run d(6) show ?thesis
      by (intro seqs_change_none hdr [of OFF_LAST_ENTRY_SEQ "rw_last_entry_seq (sy_w s)"]) (auto simp: wstep_def)
  qed (use run in \<open>simp_all add: wstep_def\<close>)
qed

lemma seqs_change_step:
  assumes inv: "sys_inv s" and st: "sys_step False s s'"
  shows "\<exists>i v. seqs_change s s' i v"
  using st
proof cases
  case (run w' ph' m')
  with seqs_change_run [OF inv] show ?thesis by simp
next
  case (fill i bs m')
  note d = sys_invD [OF inv]
  have "unat i < unat (sy_n s)" using d(3) fill(2) by (simp add: taken_def)
  with fill d(5) show ?thesis by (intro seqs_change_pay [OF inv, of i bs]) auto
next
  case (hold i q m')
  note d = sys_invD [OF inv]
  have "seq_at (sy_pb s) (sy_mem s) (unat i) = q" "m' = set_seq (sy_pb s) (sy_mem s) (unat i) (- q)"
    using hold(2,4) d(5) by (auto split: if_splits)
  with hold show ?thesis
    by (intro seqs_change_set [OF inv, of i _ "- q"]) (auto simp: rw_ring_nth)
next
  case (release i q m')
  note d = sys_invD [OF inv]
  have q: "unat i < unat (sy_n s)" "committed q" "rg_seqs (sy_ring s) ! unat i = - q"
    using d(4) release(2) by (auto simp: holds_inv_def)
  with release d(5) show ?thesis by (intro seqs_change_set [OF inv, of i _ q]) auto
qed (auto intro: seqs_change_none)

text \<open>A slot that no longer carries an old number never carries it again.\<close>

definition lost :: "nat \<Rightarrow> nat \<Rightarrow> sys \<Rightarrow> bool" where
  "lost j x s \<longleftrightarrow>
     j < unat (sy_n s) \<and> 0 < x \<and> x \<le> length (sy_log s) \<and>
     unat (unsigned_abs (rg_seqs (sy_ring s) ! j)) \<noteq> x"

lemma lost_step:
  assumes "sys_inv s" "sys_step False s s'" "lost j x s"
  shows "lost j x s'"
proof -
  from seqs_change_step [OF assms(1,2)] obtain i v where c: "seqs_change s s' i v" by blast
  have "unat (unsigned_abs ((rg_seqs (sy_ring s))[i := v] ! j)) \<noteq> x"
    using c assms(3) by (cases "i = j") (auto simp: seqs_change_def lost_def)
  with c assms(3) sys_step_geom [OF assms(2)] show ?thesis
    by (auto simp: lost_def seqs_change_def)
qed

interpretation log_grows: stable_predicate "sys_step False" sys_inv "\<lambda>s. \<exists>l. sy_log s = log @ l" for log
  by unfold_locales (use sys_step_geom in fastforce)

interpretation geom_kept: stable_predicate "sys_step False" sys_inv
    "\<lambda>s. sy_pb s = pb \<and> sy_n s = n \<and> length (sy_mem s) = len" for pb n len
  by unfold_locales (use sys_step_geom in fastforce)

interpretation number_lost: stable_predicate "sys_step False" sys_inv "lost j x" for j x
  by unfold_locales (rule lost_step)

end
