(* ===== verification/Zc_Concurrent.thy ===== *)
theory Zc_Concurrent
  imports Zc_Machine
begin

text \<open>
  What the protocol guarantees while the writer, the zero-copy reader and one-copy readers run at
  the same time, one memory access at a time. First, the accesses of the writer alone perform the
  \<open>write\<close> of the source. Then, as long as no reader takes a slot between the writer's probe and its
  clearing store: the double read of \<open>read_into\<close> never returns a torn copy, a held entry stays as it
  was committed, and a writer that is in step with its header and dies at any point is recovered with
  every committed entry. Last, the interleavings that break this.
\<close>

definition idle_sys :: "raw_writer \<Rightarrow> mem \<Rightarrow> byte list list \<Rightarrow> sys" where
  "idle_sys w m log = \<lparr>sy_w = w, sy_ph = Idle, sy_mem = m, sy_log = log, sy_holds = {}\<rparr>"

lemma sys_inv_idle: "chan_inv log w m \<Longrightarrow> chan_sync w m \<Longrightarrow> sys_inv (idle_sys w m log)"
  by (simp add: sys_inv_def idle_sys_def chan_inv_def chan_sync_def settled_def holds_inv_def)

subsection \<open>The machine performs the write\<close>

text \<open>The next \<open>k\<close> accesses of the writer, with nothing in between.\<close>

definition writer_access :: "sys \<Rightarrow> sys option" where
  "writer_access s = map_option (\<lambda>(w', ph', m'). after_run s w' ph' m') (wstep (sy_w s) (sy_ph s) (sy_mem s))"

fun writer_run :: "nat \<Rightarrow> sys \<Rightarrow> sys option" where
  "writer_run 0 s = Some s"
| "writer_run (Suc k) s = do { s \<leftarrow> writer_access s; writer_run k s }"

lemma writer_run_add: "writer_run (a + b) s = do { s \<leftarrow> writer_run a s; writer_run b s }"
proof (induction a arbitrary: s)
  case (Suc a)
  then show ?case by (cases "writer_access s") simp_all
qed simp

lemma writer_run_trans:
  "writer_run a s = Some s' \<Longrightarrow> writer_run b s' = Some s'' \<Longrightarrow> writer_run (a + b) s = Some s''"
  by (simp add: writer_run_add)

lemma writer_run_steps: "writer_run k s = Some s' \<Longrightarrow> (sys_step racy)\<^sup>*\<^sup>* s s'"
proof (induction k arbitrary: s)
  case 0
  then show ?case by simp
next
  case (Suc k)
  then obtain w' ph' m' where "wstep (sy_w s) (sy_ph s) (sy_mem s) = Some (w', ph', m')"
    "writer_run k (after_run s w' ph' m') = Some s'"
    by (auto simp: writer_access_def bind_eq_Some_conv)
  with Suc.IH sys_step.run [of s w' ph' m' racy] show ?case by (meson converse_rtranclp_into_rtranclp)
qed

lemma probe_index:
  assumes "rw_wf w m" "k < unat (rw_entry_count w)"
  shows "(rw_current_index w + word_of_nat k) mod rw_entry_count w =
     word_of_nat ((unat (rw_current_index w) + k) mod unat (rw_entry_count w))"
proof -
  have idx: "unat ((rw_current_index w + word_of_nat k) mod rw_entry_count w) =
      (unat (rw_current_index w) + k) mod unat (rw_entry_count w)"
    using unat_ring_index [of "rw_payload_bytes w" "rw_entry_count w" "length m" "rw_current_index w"
        "word_of_nat k"] assms
    by (simp add: rw_wf_def unat_of_nat_below)
  show ?thesis by (simp add: idx [symmetric])
qed

lemma probe_one:
  assumes "rw_wf w m" "k < unat (rw_entry_count w)"
  defines "i \<equiv> (unat (rw_current_index w) + k) mod unat (rw_entry_count w)"
  shows "wstep w (Probe k job) m =
     Some (w, if held (seq_at (rw_payload_bytes w) m i) then Probe (Suc k) job
              else Clear (word_of_nat i) job, m)"
proof -
  have i: "i < unat (rw_entry_count w)" using assms(2) by (simp add: i_def)
  then have "load_u64 m (seq_cell (rw_payload_bytes w) (word_of_nat i)) = Some (seq_at (rw_payload_bytes w) m i)"
    using assms(1) load_seq_cell [of "rw_payload_bytes w" "rw_entry_count w" m "word_of_nat i"]
    by (simp add: rw_wf_def unat_of_nat_below [OF i])
  with assms(2) probe_index [OF assms(1,2), folded i_def] show ?thesis
    by (simp add: wstep_def Let_def)
qed

lemma probe_held:
  assumes "rw_wf (sy_w s) (sy_mem s)" "sy_ph s = Probe 0 job" "k \<le> unat (sy_n s)"
    and "\<forall>j < k. held (seq_at (sy_pb s) (sy_mem s)
           ((unat (rw_current_index (sy_w s)) + j) mod unat (sy_n s)))"
  shows "writer_run k s = Some (s\<lparr>sy_ph := Probe k job\<rparr>)"
  using assms(3,4)
proof (induction k)
  case 0
  have "s\<lparr>sy_ph := Probe 0 job\<rparr> = s" using assms(2) by (cases s) simp
  then show ?case by simp
next
  case (Suc k)
  then have "writer_run k s = Some (s\<lparr>sy_ph := Probe k job\<rparr>)" by simp
  moreover have "wstep (sy_w s) (Probe k job) (sy_mem s) = Some (sy_w s, Probe (Suc k) job, sy_mem s)"
    using Suc.prems by (subst probe_one [OF assms(1)]) simp_all
  then have "writer_run 1 (s\<lparr>sy_ph := Probe k job\<rparr>) = Some (s\<lparr>sy_ph := Probe (Suc k) job\<rparr>)"
    by (simp add: writer_access_def)
  ultimately show ?case using writer_run_trans [of k s _ 1] by simp
qed

lemma copy_run:
  assumes "seg_geom (sy_pb s) (sy_n s) (length (sy_mem s))" "unat i < unat (sy_n s)"
    and "length data = unat (sy_pb s)" "k \<le> length data"
    and "sy_ph s = Copy i data k" "take k (pay_at (sy_pb s) (sy_mem s) (unat i)) = take k data"
  shows "writer_run (Suc (length data - k)) s =
     Some (s\<lparr>sy_ph := Publish i, sy_mem := set_pay (sy_pb s) (sy_mem s) (unat i) data\<rparr>)"
  using assms
proof (induction "length data - k" arbitrary: k s)
  case 0
  then have k: "k = length data" by simp
  have "pay_at (sy_pb s) (sy_mem s) (unat i) = data"
    using slots.gpay_width [OF 0(2,3)] 0(4,7) k by simp
  then have "set_pay (sy_pb s) (sy_mem s) (unat i) data = sy_mem s"
    using set_pay_same [OF 0(2,3)] by simp
  then have "s\<lparr>sy_ph := Publish i, sy_mem := set_pay (sy_pb s) (sy_mem s) (unat i) data\<rparr> = s\<lparr>sy_ph := Publish i\<rparr>"
    by (cases s) simp
  moreover have "wstep (sy_w s) (sy_ph s) (sy_mem s) = Some (sy_w s, Publish i, sy_mem s)"
    by (simp add: wstep_def 0(6) k)
  ultimately show ?case using 0(6) k by (simp add: writer_access_def)
next
  case (Suc d)
  let ?p = "pay_at (sy_pb s) (sy_mem s) (unat i)"
  let ?m = "set_pay (sy_pb s) (sy_mem s) (unat i) (?p[k := data ! k])"
  let ?s = "s\<lparr>sy_ph := Copy i data (Suc k), sy_mem := ?m\<rparr>"
  note g = Suc.prems(1,2)
  have k: "k < length data" using Suc.hyps(2) by simp
  have lp: "length ?p = unat (sy_pb s)" using g by (rule slots.gpay_width)
  have l: "length ?m = length (sy_mem s)" using g lp by (simp add: length_set_pay)
  have "wstep (sy_w s) (sy_ph s) (sy_mem s) = Some (sy_w s, Copy i data (Suc k), ?m)"
    using k write_payload_byte [OF g, of k "data ! k"] Suc.prems(3,5) by (simp add: wstep_def)
  then have st: "writer_access s = Some ?s" using Suc.prems(5) by (simp add: writer_access_def)
  have "pay_at (sy_pb s) ?m (unat i) = ?p[k := data ! k]"
    using g lp by (simp add: slots.gpay_spay)
  then have "writer_run (Suc (length data - Suc k)) ?s =
      Some (?s\<lparr>sy_ph := Publish i, sy_mem := set_pay (sy_pb ?s) (sy_mem ?s) (unat i) data\<rparr>)"
    using Suc.hyps(2) g k l lp Suc.prems(3,6)
    by (intro Suc.hyps(1) [of "Suc k" ?s]) (simp_all add: take_Suc_conv_app_nth)
  moreover have "set_pay (sy_pb s) ?m (unat i) data = set_pay (sy_pb s) (sy_mem s) (unat i) data"
    using slot_off_in [OF g] lp Suc.prems(3) by (simp add: set_pay_def poke_poke_same)
  moreover have "Suc (length data - k) = Suc (Suc (length data - Suc k))" using k by simp
  ultimately show ?case using st by (simp only: writer_run.simps) simp
qed

lemma publish_run:
  assumes wf: "rw_wf (sy_w s) (sy_mem s)" and i: "i < unat (sy_n s)"
    and ph: "sy_ph s = Publish (word_of_nat i)"
  shows "writer_run 3 s = Some
     (s\<lparr>sy_w := committed_writer (sy_w s) i, sy_ph := Idle, sy_mem := published_mem (sy_w s) (sy_mem s) i,
        sy_log := sy_log s @ [pay_at (sy_pb s) (sy_mem s) i]\<rparr>)"
proof -
  let ?w = "committed_writer (sy_w s) i"
  let ?m1 = "set_seq (sy_pb s) (sy_mem s) i (rw_last_entry_seq (sy_w s) + 1)"
  let ?m2 = "set_hdr ?m1 OFF_WRITE_INDEX (rw_current_index ?w)"
  have ui: "unat (word_of_nat i :: usize) = i" using i by (rule unat_of_nat_below)
  have g: "seg_geom (sy_pb s) (sy_n s) (length (sy_mem s))" using wf by (simp add: rw_wf_def)
  have cur: "(word_of_nat i + 1) mod sy_n s = word_of_nat (Suc i mod unat (sy_n s))"
  proof -
    have "unat ((word_of_nat i + 1) mod sy_n s) = Suc i mod unat (sy_n s)"
      using unat_ring_succ [OF g, of "word_of_nat i"] i ui by simp
    from this [symmetric] show ?thesis by simp
  qed
  have n: "sy_n s \<noteq> 0" using i by auto
  have 72: "72 \<le> length ?m1" using g i seg_geom_72 by (simp add: length_set_seq)
  have s1: "wstep (sy_w s) (sy_ph s) (sy_mem s) = Some (?w, Index, ?m1)"
    using store_seq_cell [OF g, of "word_of_nat i"] i ui cur n
    by (simp add: wstep_def ph Let_def committed_writer_def)
  have s2: "wstep ?w Index ?m1 = Some (?w, Mark, ?m2)" using 72 by (simp add: wstep_def)
  have s3: "wstep ?w Mark ?m2 = Some (?w, Idle, published_mem (sy_w s) (sy_mem s) i)"
    using 72 by (simp add: wstep_def published_mem_def)
  from s1 s2 s3 show ?thesis by (simp add: numeral_3_eq_3 writer_access_def ph ui)
qed

lemma write_run:
  assumes wf: "rw_wf (sy_w s) (sy_mem s)" and i: "i < unat (sy_n s)"
    and d: "length data = unat (sy_pb s)" and ph: "sy_ph s = Clear (word_of_nat i) (Some data)"
  shows "writer_run (unat (sy_pb s) + 5) s = Some
     (s\<lparr>sy_w := committed_writer (sy_w s) i, sy_ph := Idle,
        sy_mem := published_mem (sy_w s) (filled_mem (sy_w s) (sy_mem s) i data) i,
        sy_log := sy_log s @ [data]\<rparr>)"
proof -
  let ?m = "set_seq (sy_pb s) (sy_mem s) i 0" and ?f = "filled_mem (sy_w s) (sy_mem s) i data"
  let ?s1 = "s\<lparr>sy_ph := Copy (word_of_nat i) data 0, sy_mem := ?m\<rparr>"
  let ?s2 = "s\<lparr>sy_ph := Publish (word_of_nat i), sy_mem := ?f\<rparr>"
  have ui: "unat (word_of_nat i :: usize) = i" using i by (rule unat_of_nat_below)
  have g: "seg_geom (sy_pb s) (sy_n s) (length (sy_mem s))" using wf by (simp add: rw_wf_def)
  have g1: "seg_geom (sy_pb s) (sy_n s) (length ?m)" using g i by (simp add: length_set_seq)
  have "wstep (sy_w s) (sy_ph s) (sy_mem s) = Some (sy_w s, Copy (word_of_nat i) data 0, ?m)"
    using store_seq_cell [OF g, of "word_of_nat i"] i ui by (simp add: wstep_def ph)
  then have 1: "writer_run 1 s = Some ?s1" by (simp add: writer_access_def ph)
  have 2: "writer_run (Suc (unat (sy_pb s))) ?s1 = Some ?s2"
    using copy_run [of ?s1 "word_of_nat i" data 0] g1 i d ui by (simp add: filled_mem_def)
  have "pay_at (sy_pb s) ?f i = data"
    using g1 i d by (simp add: filled_mem_def slots.gpay_spay)
  then have "writer_run 3 ?s2 = Some (s\<lparr>sy_w := committed_writer (sy_w s) i, sy_ph := Idle,
      sy_mem := published_mem (sy_w s) ?f i, sy_log := sy_log s @ [data]\<rparr>)"
    using publish_run [of ?s2 i] filled_mem_facts(1) [OF wf i d] i by simp
  from writer_run_trans [OF 1 writer_run_trans [OF 2 this]] show ?thesis by (simp add: add.commute)
qed

lemma probe_find:
  assumes wf: "rw_wf (sy_w s) (sy_mem s)" and ph: "sy_ph s = Probe 0 job"
  shows "\<exists>k \<le> Suc (unat (sy_n s)). writer_run k s = Some (s\<lparr>sy_ph :=
     case ring_free_slot (unat (rw_current_index (sy_w s))) (sy_ring s) of
       None \<Rightarrow> Idle | Some i \<Rightarrow> Clear (word_of_nat i) job\<rparr>)"
proof -
  let ?c = "unat (rw_current_index (sy_w s))" and ?n = "unat (sy_n s)"
  let ?seq = "\<lambda>k. seq_at (sy_pb s) (sy_mem s) ((?c + k) mod ?n)"
  have n: "0 < ?n" using wf by (simp add: rw_wf_def)
  have nth: "rg_seqs (sy_ring s) ! ((?c + k) mod ?n) = ?seq k" for k
    using n by (simp add: rw_ring_nth)
  have last: "writer_run (k + 1) s = Some (s\<lparr>sy_ph := ph'\<rparr>)"
    if "k \<le> ?n" "\<forall>j < k. held (?seq j)" "wstep (sy_w s) (Probe k job) (sy_mem s) = Some (sy_w s, ph', sy_mem s)" for k ph'
    using that by (intro writer_run_trans [OF probe_held [OF wf ph]]) (simp_all add: writer_access_def)
  show ?thesis
  proof (cases "ring_free_slot ?c (sy_ring s)")
    case None
    then have "\<forall>k < ?n. held (?seq k)"
      by (auto simp: ring_free_slot_def find_None_iff probe_order_def nth)
    then have "writer_run (?n + 1) s = Some (s\<lparr>sy_ph := Idle\<rparr>)" by (intro last) (simp_all add: wstep_def)
    with None show ?thesis by (intro exI [of _ "?n + 1"]) simp
  next
    case (Some i)
    then obtain k where k: "k < ?n" "i = (?c + k) mod ?n" "\<not> held (?seq k)" "\<forall>j < k. held (?seq j)"
      by (auto simp: ring_free_slot_def find_Some_iff probe_order_def nth)
    then have "writer_run (k + 1) s = Some (s\<lparr>sy_ph := Clear (word_of_nat i) job\<rparr>)"
      using probe_one [OF wf k(1), of job] by (intro last) simp_all
    with Some k(1) show ?thesis by (intro exI [of _ "k + 1"]) simp
  qed
qed

text \<open>A write among the steps of the system, as one run.\<close>

lemma write_reachable:
  assumes "rw_wf w m" "length data = unat (rw_payload_bytes w)" "Suc (length log) < 2 ^ 63"
    and "ring_free_slot (unat (rw_current_index w)) (rw_ring w m) = Some i"
  shows "(sys_step racy)\<^sup>*\<^sup>* (idle_sys w m log)
     (idle_sys (committed_writer w i) (published_mem w (filled_mem w m i data) i) (log @ [data]))"
proof -
  let ?s = "\<lparr>sy_w = w, sy_ph = Probe 0 (Some data), sy_mem = m, sy_log = log, sy_holds = {}\<rparr>"
  let ?c = "?s\<lparr>sy_ph := Clear (word_of_nat i) (Some data)\<rparr>"
  have "sys_step racy (idle_sys w m log) ?s"
    using sys_step.start_write [of "idle_sys w m log" data racy] assms(2,3) by (simp add: idle_sys_def)
  moreover have "(sys_step racy)\<^sup>*\<^sup>* ?s ?c"
    using probe_find [of ?s "Some data"] assms(1,4) writer_run_steps by fastforce
  moreover have "(sys_step racy)\<^sup>*\<^sup>* ?c
      (idle_sys (committed_writer w i) (published_mem w (filled_mem w m i data) i) (log @ [data]))"
    using write_run [of ?c i data] assms(1,2) ring_free_slot_bound [OF assms(1,4)]
    by (intro writer_run_steps) (simp add: idle_sys_def)
  ultimately show ?thesis by (meson converse_rtranclp_into_rtranclp rtranclp_trans)
qed

text \<open>
  C16: The access-by-access machine is the \<open>write\<close> of the source. Begin a write and let the writer
  make its accesses, each the one its phase prescribes and no others. After at most as many accesses
  as there are slots and payload bytes, and six more, it is at rest, with exactly the writer and the
  memory that \<open>write\<close> returns; the data is logged if and only if \<open>write\<close> succeeds, and if all slots
  are held nothing has changed. (The run is a function of the number of accesses, and at rest there
  is no next access, so the machine cannot end in any other way.)
\<close>
theorem machine_performs_write:
  assumes "rw_wf w m" "length data = unat (rw_payload_bytes w)"
  shows "\<exists>res w' m' k. raw_writer_write w m data = Some (res, w', m') \<and>
     k \<le> unat (rw_entry_count w) + unat (rw_payload_bytes w) + 6 \<and>
     writer_run k ((idle_sys w m log)\<lparr>sy_ph := Probe 0 (Some data)\<rparr>) =
       Some (idle_sys w' m' (case res of Inl e \<Rightarrow> log | Inr u \<Rightarrow> log @ [data])) \<and>
     writer_access (idle_sys w' m' log) = None"
proof -
  let ?s = "(idle_sys w m log)\<lparr>sy_ph := Probe 0 (Some data)\<rparr>"
  have stop: "writer_access (idle_sys w' m' log) = None" for w' m'
    by (simp add: writer_access_def wstep_def idle_sys_def)
  from probe_find [of ?s "Some data"] assms(1) obtain k where k: "k \<le> Suc (unat (rw_entry_count w))"
    "writer_run k ?s = Some (?s\<lparr>sy_ph := case ring_free_slot (unat (rw_current_index w)) (rw_ring w m) of
       None \<Rightarrow> Idle | Some i \<Rightarrow> Clear (word_of_nat i) (Some data)\<rparr>)"
    by (auto simp: idle_sys_def)
  show ?thesis
  proof (cases "ring_free_slot (unat (rw_current_index w)) (rw_ring w m)")
    case None
    with k stop show ?thesis
      by (simp add: raw_writer_write_eq [OF assms]) (auto simp: idle_sys_def intro!: exI [of _ k])
  next
    case (Some i)
    have "writer_run (unat (rw_payload_bytes w) + 5) (?s\<lparr>sy_ph := Clear (word_of_nat i) (Some data)\<rparr>) =
        Some (idle_sys (committed_writer w i) (published_mem w (filled_mem w m i data) i) (log @ [data]))"
      using write_run [of "?s\<lparr>sy_ph := Clear (word_of_nat i) (Some data)\<rparr>" i data] assms ring_free_slot_bound [OF assms(1) Some]
      by (simp add: idle_sys_def)
    from writer_run_trans [OF _ this, of k ?s] k Some stop show ?thesis
      by (simp add: raw_writer_write_eq [OF assms]) (auto intro!: exI [of _ "k + (unat (rw_payload_bytes w) + 5)"])
  qed
qed

theorem machine_performs_write_witness:
  "\<exists>w' m' k. raw_writer_write demo_writer demo_mem (replicate 8 9) = Some (Inr (), w', m') \<and> k \<le> 16 \<and>
     writer_run k ((idle_sys demo_writer demo_mem [])\<lparr>sy_ph := Probe 0 (Some (replicate 8 9))\<rparr>) =
       Some (idle_sys w' m' [replicate 8 9])"
  using machine_performs_write [OF demo_wf, of "replicate 8 9" "[]"]
  by (auto simp: raw_writer_write_eq [OF demo_wf] demo_ring demo_free_slot)

subsection \<open>A channel that is written while it is read\<close>

text \<open>A channel of one slot with one entry, whose cursor is back at that slot.\<close>

definition one_writer :: raw_writer where
  "one_writer = \<lparr>rw_payload_bytes = 8, rw_entry_count = 1, rw_current_index = 0, rw_last_entry_seq = 0\<rparr>"

definition one_mem :: mem where
  "one_mem = initialized 8 1 U8 1 (replicate 88 0)"

lemma one_writer_simps [simp]:
  "rw_payload_bytes one_writer = 8" "rw_entry_count one_writer = 1"
  "rw_current_index one_writer = 0" "rw_last_entry_seq one_writer = 0"
  by (simp_all add: one_writer_def)

lemma one_geom: "seg_geom 8 1 (length (replicate 88 (0 :: byte)))"
  by (simp add: seg_geom_def)

lemma one_ring:
  "rw_ring one_writer one_mem = \<lparr>rg_seqs = [0], rg_pays = [replicate 8 0], rg_windex = 0, rg_wmark = 0\<rparr>"
  by (simp add: rw_ring_def one_mem_def ring_of_initialized [OF one_geom])

lemma one_chan: "chan_inv [] one_writer one_mem"
  using ring_inv_empty [of "[replicate 8 0]" 1 0 0] initialized_views(1) [OF one_geom, of U8 1]
  by (simp add: chan_inv_def rw_wf_def one_ring) (simp add: one_mem_def seg_geom_def)

definition one_written :: mem where
  "one_written = published_mem one_writer (filled_mem one_writer one_mem 0 (replicate 8 9)) 0"

abbreviation one_committed :: raw_writer where
  "one_committed \<equiv> committed_writer one_writer 0"

lemma one_written_chan: "chan_inv [replicate 8 9] one_committed one_written"
proof -
  have "ring_free_slot 0 (rw_ring one_writer one_mem) = Some 0"
    by (rule ring_free_slot_cursor) (simp_all add: one_ring)
  then show ?thesis
    using write_chan_inv_cases(1) [OF one_chan, of "replicate 8 9" 0] by (simp add: one_written_def)
qed

lemma one_written_ring:
  "rw_ring one_committed one_written =
     \<lparr>rg_seqs = [1], rg_pays = [replicate 8 9], rg_windex = 0, rg_wmark = 1\<rparr>"
  using rw_ring_written [OF chan_invD(1) [OF one_chan], of 0 "replicate 8 9"]
  by (simp add: one_written_def one_ring ring_write_def ring_publish_def ring_fill_def)

lemma one_written_seq: "load_u64 one_written (seq_cell 8 0) = Some 1"
proof -
  have "rg_seqs (rw_ring one_committed one_written) ! 0 = 1"
    by (simp add: one_written_ring)
  moreover have "seg_geom 8 1 (length one_written)"
    using chan_invD(1) [OF one_written_chan] by (simp add: rw_wf_def)
  ultimately show ?thesis by (simp add: rw_ring_def)
qed

text \<open>
  The same channel while its only slot is written again: from moment 6 on it carries a second entry.
\<close>

definition one_rewritten :: mem where
  "one_rewritten = published_mem one_committed (filled_mem one_committed one_written 0 (replicate 8 5)) 0"

definition rewriting :: "nat \<Rightarrow> sys" where
  "rewriting k = (if k < 6 then idle_sys one_committed one_written [replicate 8 9]
     else idle_sys (committed_writer one_committed 0) one_rewritten [replicate 8 9, replicate 8 5])"

definition rewriting_view :: view where
  "rewriting_view k = (if k < 6 then one_written else one_rewritten)"

lemma rewriting_simps:
  "rewriting 0 = idle_sys one_committed one_written [replicate 8 9]" "(\<lambda>k. sy_mem (rewriting k)) = rewriting_view"
  "sy_log (rewriting k) = (if k < 6 then [replicate 8 9] else [replicate 8 9, replicate 8 5])"
  by (auto simp: rewriting_def rewriting_view_def idle_sys_def)

lemma one_written_free: "ring_free_slot 0 (rw_ring one_committed one_written) = Some 0"
  by (rule ring_free_slot_cursor) (simp_all add: one_written_ring)

lemma rewriting_path: "path (sys_step racy) rewriting"
proof -
  have "(sys_step racy)\<^sup>*\<^sup>* (idle_sys one_committed one_written [replicate 8 9])
      (idle_sys (committed_writer one_committed 0) one_rewritten ([replicate 8 9] @ [replicate 8 5]))"
    unfolding one_rewritten_def
    by (rule write_reachable [OF chan_invD(1) [OF one_written_chan]]) (simp_all add: one_written_free)
  then show ?thesis by (auto simp: path_def rewriting_def)
qed

lemma one_sync_written: "chan_sync one_committed one_written"
  by (simp add: chan_sync_def one_written_ring)

definition one_reader :: raw_reader where
  "one_reader = \<lparr>rr_payload_bytes = 8, rr_entry_count = 1, rr_last_entry_seq = 0, rr_last_read_idx = 0\<rparr>"

lemma one_reader_geom: "same_geom one_committed one_reader" "rr_payload_bytes one_reader = 8" "rr_last_entry_seq one_reader = 0"
  by (simp_all add: same_geom_def one_reader_def)

lemma one_rewritten_ring:
  "rw_ring (committed_writer one_committed 0) one_rewritten =
     \<lparr>rg_seqs = [2], rg_pays = [replicate 8 5], rg_windex = 0, rg_wmark = 2\<rparr>"
  using rw_ring_written [OF chan_invD(1) [OF one_written_chan], of 0 "replicate 8 5"]
  by (simp add: one_rewritten_def one_written_ring ring_write_def ring_publish_def ring_fill_def)

lemma rewriting_geom: "seg_geom 8 1 (length (rewriting_view k))"
proof -
  have "rw_wf one_committed one_written" by (rule chan_invD(1) [OF one_written_chan])
  then have "seg_geom 8 1 (length one_written)" "seg_geom 8 1 (length one_rewritten)"
    using published_mem_facts(1,2) filled_mem_facts(1,2) [of one_committed one_written 0 "replicate 8 5"]
    by (simp_all add: rw_wf_def one_rewritten_def)
  then show ?thesis by (simp add: rewriting_view_def)
qed

text \<open>The first copy of a read that begins at moment 0 is torn, and the read is made again.\<close>

lemma rewriting_slot:
  "pay_at 8 (rewriting_view k) 0 = (if k < 6 then replicate 8 9 else replicate 8 5)"
  "seq_at 8 (rewriting_view k) 0 = (if k < 6 then 1 else 2)"
  "hdr_at (rewriting_view k) OFF_LAST_ENTRY_SEQ = (if k < 6 then 1 else 2)"
proof -
  have "rg_pays (rw_ring one_committed one_written) ! 0 = replicate 8 9"
    "rg_pays (rw_ring (committed_writer one_committed 0) one_rewritten) ! 0 = replicate 8 5"
    "rg_seqs (rw_ring one_committed one_written) ! 0 = 1"
    "rg_seqs (rw_ring (committed_writer one_committed 0) one_rewritten) ! 0 = 2"
    "rg_wmark (rw_ring one_committed one_written) = 1"
    "rg_wmark (rw_ring (committed_writer one_committed 0) one_rewritten) = 2"
    by (simp_all add: one_written_ring one_rewritten_ring)
  then show "pay_at 8 (rewriting_view k) 0 = (if k < 6 then replicate 8 9 else replicate 8 5)"
    "seq_at 8 (rewriting_view k) 0 = (if k < 6 then 1 else 2)"
    "hdr_at (rewriting_view k) OFF_LAST_ENTRY_SEQ = (if k < 6 then 1 else 2)"
    by (simp_all add: rw_ring_def ring_of_def rewriting_view_def)
qed

lemma rewriting_copy:
  "copy_out rewriting_view 2 (payload_offset 8 0) 8 = Some [9, 9, 9, 9, 5, 5, 5, 5]"
  "6 \<le> t \<Longrightarrow> copy_out rewriting_view t (payload_offset 8 0) 8 = Some [5, 5, 5, 5, 5, 5, 5, 5]"
  using copy_out_defined [where v = rewriting_view, OF rewriting_geom, of 0] by (simp_all add: upt_rec rewriting_slot)

lemma rewriting_load: "load_u64 (rewriting_view k) (seq_cell 8 0) = Some (if k < 6 then 1 else 2)"
  using load_seq_cell [OF rewriting_geom, of 0] by (simp add: rewriting_slot)

lemma rewriting_locate:
  "locate one_reader rewriting_view t 0 = Some (Some (0, if t < 6 then 1 else 2), if t < 6 then Suc t else t + 2)"
proof -
  have "usize_range 1 = [0]" "saturating_add 0 1 = 1" by (simp_all add: usize_range_def saturating_add_def)
  then show ?thesis using rewriting_load by (simp add: locate_def Let_def one_reader_def)
qed

lemma rewriting_watermark: "t < 6 \<Longrightarrow> watermark one_reader rewriting_view t None = Some (Some 0)"
  using seg_geom_72 [OF rewriting_geom, of t] rewriting_slot(3) [of t]
  by (simp add: watermark_def writer_entry_seq_def one_reader_def)

lemma rewriting_read:
  "\<exists>r' t'. raw_reader_read_into one_reader rewriting_view 0 (replicate 8 0) None =
     Some (Inr (Some 2), r', [5, 5, 5, 5, 5, 5, 5, 5], t') \<and> 6 \<le> t'"
proof -
  let ?r = "one_reader\<lparr>rr_last_entry_seq := 2, rr_last_read_idx := 0\<rparr>"
  note f = rewriting_locate rewriting_copy rewriting_load one_reader_geom(2)
  have "read_loop one_reader rewriting_view 0 (Suc k) 11 [9, 9, 9, 9, 5, 5, 5, 5] =
      Some (Some 2, ?r, [5, 5, 5, 5, 5, 5, 5, 5], 22)" for k
    by (simp add: f)
  then have "read_loop one_reader rewriting_view 0 (Suc (Suc k)) (Suc 0) (replicate 8 0) =
      Some (Some 2, ?r, [5, 5, 5, 5, 5, 5, 5, 5], 22)" for k
    by (subst read_loop.simps(2)) (simp add: f numeral_2_eq_2 [symmetric] del: read_loop.simps(2))
  from this [of 2] have "read_loop one_reader rewriting_view 0 READ_RETRIES (Suc 0) (replicate 8 0) =
      Some (Some 2, ?r, [5, 5, 5, 5, 5, 5, 5, 5], 22)"
    by (simp add: READ_RETRIES_def)
  then show ?thesis by (simp add: raw_reader_read_into_def rewriting_watermark one_reader_geom(2))
qed

subsection \<open>No torn reads\<close>

text \<open>A slot that carries the same number at two moments carried it all the time in between.\<close>

lemma number_kept:
  assumes p: "path (sys_step False) \<sigma>" and inv: "sys_inv (\<sigma> 0)"
    and t: "t0 \<le> t" "t \<le> t1" and j: "j < unat (sy_n (\<sigma> 0))"
    and x: "0 < x" "unat (unsigned_abs (rg_seqs (sy_ring (\<sigma> t0)) ! j)) = x"
      "unat (unsigned_abs (rg_seqs (sy_ring (\<sigma> t1)) ! j)) = x"
  shows "unat (unsigned_abs (rg_seqs (sy_ring (\<sigma> t)) ! j)) = x"
proof (rule ccontr)
  assume ne: "unat (unsigned_abs (rg_seqs (sy_ring (\<sigma> t)) ! j)) \<noteq> x"
  note inv' = ring_sys.inv_path [OF p inv]
  have n: "sy_n (\<sigma> k) = sy_n (\<sigma> 0)" for k
    using geom_kept.stab_path [OF p inv le0, of "sy_pb (\<sigma> 0)" "sy_n (\<sigma> 0)" _ k] by simp
  have "x \<le> length (sy_log (\<sigma> t0))" using sys_inv_n [OF inv', of j t0] n [of t0] j x(2) by simp
  moreover obtain l where "sy_log (\<sigma> t) = sy_log (\<sigma> t0) @ l"
    using log_grows.stab_path [OF p inv t(1), of "sy_log (\<sigma> t0)"] by auto
  ultimately have "lost j x (\<sigma> t)" using n [of t] j x(1) ne by (simp add: lost_def)
  then have "lost j x (\<sigma> t1)" by (rule number_lost.stab_path [OF p inv t(2)])
  with x(3) show False by (simp add: lost_def)
qed

lemma committed_payload:
  assumes "sys_inv s" "j < unat (sy_n s)" "unat (unsigned_abs (rg_seqs (sy_ring s) ! j)) = x" "0 < x"
  shows "x \<le> length (sy_log s)" "pay_at (sy_pb s) (sy_mem s) j = sy_log s ! (x - 1)"
proof -
  have "rg_seqs (sy_ring s) ! j \<noteq> 0" using assms(3,4) by auto
  with sys_invD(2) [OF assms(1)] assms(2,3)
  show "x \<le> length (sy_log s)" "pay_at (sy_pb s) (sy_mem s) j = sy_log s ! (x - 1)"
    by (auto simp: ring_inv_def rw_ring_nth)
qed

lemma path_geom:
  assumes "path (sys_step False) \<sigma>" "sys_inv (\<sigma> 0)"
  shows "sy_pb (\<sigma> k) = sy_pb (\<sigma> 0)" "sy_n (\<sigma> k) = sy_n (\<sigma> 0)"
    "seg_geom (sy_pb (\<sigma> 0)) (sy_n (\<sigma> 0)) (length (sy_mem (\<sigma> k)))"
proof -
  note g = geom_kept.stab_path [OF assms le0, of "sy_pb (\<sigma> 0)" "sy_n (\<sigma> 0)" _ k]
  then show "sy_pb (\<sigma> k) = sy_pb (\<sigma> 0)" "sy_n (\<sigma> k) = sy_n (\<sigma> 0)" by simp_all
  with sys_invD(5) [OF ring_sys.inv_path [OF assms], of k]
  show "seg_geom (sy_pb (\<sigma> 0)) (sy_n (\<sigma> 0)) (length (sy_mem (\<sigma> k)))" by simp
qed

text \<open>The bytes copied between two loads of the same number are those committed under it.\<close>

lemma copy_between:
  assumes p: "path (sys_step False) \<sigma>" and inv: "sys_inv (\<sigma> 0)"
    and pb: "sy_pb (\<sigma> 0) = pb" and i: "i < sy_n (\<sigma> 0)" and s: "0 < sint s" and t: "t0 < t1"
    and l0: "load_u64 (sy_mem (\<sigma> t0)) (seq_cell pb i) = Some s"
    and cp: "copy_out (\<lambda>k. sy_mem (\<sigma> k)) t1 (payload_offset pb i) pb = Some bytes"
    and l1: "load_u64 (sy_mem (\<sigma> (t1 + unat pb))) (seq_cell pb i) = Some s"
    and t': "t1 + unat pb \<le> t'"
  shows "0 < unat s" "unat s \<le> length (sy_log (\<sigma> t'))" "bytes = sy_log (\<sigma> t') ! (unat s - 1)"
proof -
  note g = path_geom [OF p inv, unfolded pb] and inv' = ring_sys.inv_path [OF p inv]
  have ui: "unat i < unat (sy_n (\<sigma> 0))" using i by (simp add: word_less_nat_alt)
  have seq: "rg_seqs (sy_ring (\<sigma> k)) ! unat i = seq_at pb (sy_mem (\<sigma> k)) (unat i)" for k
    using ui g(1,2) [of k] by (simp add: rw_ring_nth)
  show s0: "0 < unat s" using s by (simp add: sint_pos_iff)
  have kept: "unat (unsigned_abs (rg_seqs (sy_ring (\<sigma> k)) ! unat i)) = unat s"
    if "t0 \<le> k" "k \<le> t1 + unat pb" for k
    using l0 l1 load_seq_cell [OF g(3) ui] s
    by (intro number_kept [OF p inv that ui s0]) (auto simp: seq)
  have pay: "unat s \<le> length (sy_log (\<sigma> k))"
      "pay_at pb (sy_mem (\<sigma> k)) (unat i) = sy_log (\<sigma> k) ! (unat s - 1)"
    if "t0 \<le> k" "k \<le> t1 + unat pb" for k
    using committed_payload [OF inv' _ kept [OF that] s0] ui g(1,2) [of k] by simp_all
  have pre: "\<exists>l. sy_log (\<sigma> t') = sy_log (\<sigma> k) @ l" if "k \<le> t'" for k
    using log_grows.stab_path [OF p inv that, of "sy_log (\<sigma> k)"] by auto
  have le: "t0 \<le> t1" "t1 \<le> t1 + unat pb" using t by simp_all
  obtain l where l: "sy_log (\<sigma> t') = sy_log (\<sigma> t1) @ l" using pre [of t1] t' by auto
  show "unat s \<le> length (sy_log (\<sigma> t'))" using pay(1) [OF le] l by simp
  have same: "pay_at pb (sy_mem (\<sigma> k)) (unat i) = sy_log (\<sigma> t') ! (unat s - 1)"
    if k: "t0 \<le> k" "k \<le> t1 + unat pb" for k
  proof -
    have "k \<le> t'" using k(2) t' by simp
    then obtain l where "sy_log (\<sigma> t') = sy_log (\<sigma> k) @ l" using pre by blast
    moreover have "unat s - 1 < length (sy_log (\<sigma> k))" using pay(1) [OF k] s0 by linarith
    ultimately show ?thesis using pay(2) [OF k] by (simp add: nth_append)
  qed
  have "bytes = map (\<lambda>k. pay_at pb (sy_mem (\<sigma> (t1 + k))) (unat i) ! k) [0..<unat pb]"
    using cp copy_out_defined [OF g(3) i] by simp
  also have "\<dots> = map (\<lambda>k. (sy_log (\<sigma> t') ! (unat s - 1)) ! k) [0..<unat pb]"
    using le by (intro map_cong) (simp_all add: same)
  also have "\<dots> = sy_log (\<sigma> t') ! (unat s - 1)"
    using same [OF le] slots.gpay_width [OF g(3) ui, of t1]
    by (metis map_nth)
  finally show "bytes = sy_log (\<sigma> t') ! (unat s - 1)" .
qed

text \<open>A one-copy read among the accesses of the writer and the zero-copy reader.\<close>

lemma read_concurrent:
  fixes fr :: "u64 option"
  assumes "path (sys_step False) \<sigma>" "\<sigma> 0 = idle_sys w m log" "chan_inv log w m" "chan_sync w m"
    and "same_geom w r" "length dst = unat (rr_payload_bytes r)"
  defines "wm \<equiv> (case fr of None \<Rightarrow> rr_last_entry_seq r | Some s \<Rightarrow> s)"
  shows "\<exists>res r' bytes t'.
     raw_reader_read_into r (\<lambda>k. sy_mem (\<sigma> k)) t dst fr = Some (Inr res, r', bytes, t') \<and>
     (case res of
        None \<Rightarrow> r' = r
      | Some s \<Rightarrow> wm < s \<and> 0 < unat s \<and> unat s \<le> length (sy_log (\<sigma> t')) \<and>
          bytes = sy_log (\<sigma> t') ! (unat s - 1) \<and> rr_last_entry_seq r' = s \<and> same_geom w r')"
proof -
  let ?v = "\<lambda>k. sy_mem (\<sigma> k)"
  have inv: "sys_inv (\<sigma> 0)" using assms(2-4) sys_inv_idle by simp
  have g0: "sy_pb (\<sigma> 0) = rr_payload_bytes r" "sy_n (\<sigma> 0) = rr_entry_count r"
    using assms(2,5) by (simp_all add: idle_sys_def same_geom_def)
  note g = path_geom(3) [OF assms(1) inv, unfolded g0]
  have wmk: "watermark r ?v t fr =
      Some (if hdr_at (?v t) OFF_LAST_ENTRY_SEQ \<le> wm then None else Some wm)"
    using seg_geom_72 [OF g] by (simp add: watermark_def writer_entry_seq_def wm_def)
  obtain res r' bytes t' where rl: "read_loop r ?v wm READ_RETRIES (Suc t) dst = Some (res, r', bytes, t')"
    and none: "res = None \<longrightarrow> r' = r"
    using read_loop_defined [where v = ?v, OF g] by blast
  show ?thesis
  proof (cases "hdr_at (?v t) OFF_LAST_ENTRY_SEQ \<le> wm")
    case True
    with wmk assms(6) show ?thesis by (simp add: raw_reader_read_into_def)
  next
    case False
    then have rd: "raw_reader_read_into r ?v t dst fr = Some (Inr res, r', bytes, t')"
      using wmk rl assms(6) by (simp add: raw_reader_read_into_def)
    show ?thesis
    proof (cases res)
      case None
      with rd none show ?thesis by auto
    next
      case (Some s)
      from read_loop_sound [OF rl [unfolded Some]] obtain i t0 t1 where
        x: "t0 < t1" "t' = Suc (t1 + unat (rr_payload_bytes r))" "i < rr_entry_count r" "0 < sint s" "wm < s"
          "load_u64 (?v t0) (seq_cell (rr_payload_bytes r) i) = Some s"
          "copy_out ?v t1 (payload_offset (rr_payload_bytes r) i) (rr_payload_bytes r) = Some bytes"
          "load_u64 (?v (t1 + unat (rr_payload_bytes r))) (seq_cell (rr_payload_bytes r) i) = Some s"
          "r' = r\<lparr>rr_last_entry_seq := s, rr_last_read_idx := i\<rparr>" by blast
      note c = copy_between [OF assms(1) inv g0(1) _ x(4,1,6,7,8), of t']
      have "same_geom w r'"
        using assms(5) x(3,9) by (simp add: same_geom_def word_less_nat_alt)
      with c g0 x rd Some show ?thesis by auto
    qed
  qed
qed

text \<open>
  C1: No torn reads, on condition that no zero-copy reader takes a slot between the writer's probe of
  that slot and the store that clears it. (These are the runs of \<open>sys_step False\<close>. The condition
  always holds on a channel without a zero-copy reader, and \<open>claim_race\<close> shows what the code does
  without it.) From a channel at rest whose header is in step with its writer, let the writer and the
  zero-copy reader run in any other interleaving of their memory accesses, and let a one-copy read
  make each of its accesses, the byte copies included, at a moment of its own. The read always
  returns. If it returns an entry number \<open>s\<close>, then \<open>s\<close> is newer than the reader's position, it has
  been committed, and the bytes are exactly those committed under \<open>s\<close>; if it returns nothing, the
  reader's position is unchanged.
\<close>
theorem read_never_torn:
  fixes fr :: "u64 option"
  assumes "path (sys_step False) \<sigma>" "\<sigma> 0 = idle_sys w m log" "chan_inv log w m" "chan_sync w m"
    and "same_geom w r" "length dst = unat (rr_payload_bytes r)"
  defines "wm \<equiv> (case fr of None \<Rightarrow> rr_last_entry_seq r | Some s \<Rightarrow> s)"
  shows "\<exists>res r' bytes t'.
     raw_reader_read_into r (\<lambda>k. sy_mem (\<sigma> k)) t dst fr = Some (Inr res, r', bytes, t') \<and>
     (case res of
        None \<Rightarrow> r' = r
      | Some s \<Rightarrow> wm < s \<and> 0 < unat s \<and> unat s \<le> length (sy_log (\<sigma> t')) \<and>
          bytes = sy_log (\<sigma> t') ! (unat s - 1) \<and> rr_last_entry_seq r' = s \<and> same_geom w r')"
  unfolding wm_def by (rule read_concurrent [OF assms(1-6)])

text \<open>The path on which nothing happens, for the witness.\<close>

lemma path_const: "path step (\<lambda>_. s)"
  by (simp add: path_def)

lemma demo_sync_written: "chan_sync (committed_writer demo_writer 0) demo_written"
  by (simp add: chan_sync_def rw_ring_def demo_written_ring)

theorem read_never_torn_witness:
  "copy_out rewriting_view 2 (payload_offset 8 0) 8 = Some [9, 9, 9, 9, 5, 5, 5, 5] \<and>
   (\<exists>r' bytes t'. raw_reader_read_into one_reader rewriting_view 0 (replicate 8 0) None =
       Some (Inr (Some 2), r', bytes, t') \<and> bytes = sy_log (rewriting t') ! 1 \<and> bytes = replicate 8 5)"
proof -
  obtain r' t' where rd: "raw_reader_read_into one_reader rewriting_view 0 (replicate 8 0) None =
      Some (Inr (Some 2), r', [5, 5, 5, 5, 5, 5, 5, 5], t')" "6 \<le> t'"
    using rewriting_read by blast
  with read_never_torn [OF rewriting_path rewriting_simps(1) one_written_chan one_sync_written one_reader_geom(1),
      of "replicate 8 0" 0 None]
  have "[5, 5, 5, 5, 5, 5, 5, 5] = sy_log (rewriting t') ! 1"
    by (simp add: one_reader_geom rewriting_simps(2))
  with rd rewriting_copy(1) show ?thesis by (simp add: rewriting_simps(3))
qed

subsection \<open>Held entries\<close>

lemma hold_payload:
  assumes inv: "sys_inv s" and "(i, q) \<in> sy_holds s"
  shows "load_u64 (sy_mem s) (seq_cell (sy_pb s) i) = Some (- q)"
    "unat q \<le> length (sy_log s)"
    "read_bytes (sy_mem s) (payload_offset (sy_pb s) i) (sy_pb s) = Some (sy_log s ! (unat q - 1))"
proof -
  note d = sys_invD [OF inv]
  have h: "unat i < unat (sy_n s)" "committed q" "rg_seqs (sy_ring s) ! unat i = - q"
    using d(4) assms(2) by (auto simp: holds_inv_def)
  moreover have "0 < unat q" using h(2) by (simp add: sint_pos_iff)
  ultimately show "load_u64 (sy_mem s) (seq_cell (sy_pb s) i) = Some (- q)" "unat q \<le> length (sy_log s)"
    "read_bytes (sy_mem s) (payload_offset (sy_pb s) i) (sy_pb s) = Some (sy_log s ! (unat q - 1))"
    using committed_payload [OF inv h(1), of "unat q"] d(5) by (simp_all add: rw_ring_nth)
qed

text \<open>
  A held entry is immutable. In every state the system can reach, each outstanding hold of the
  zero-copy reader is on a slot that still carries exactly that hold (the negated number), and the
  payload of the slot is the one committed under the number, whatever the writer has done since.
  The writer therefore never writes into a slot a reader holds.
\<close>
theorem held_entry_immutable:
  assumes "(sys_step False)\<^sup>*\<^sup>* (idle_sys w m log) s" "chan_inv log w m" "chan_sync w m"
    and "(i, q) \<in> sy_holds s"
  shows "load_u64 (sy_mem s) (seq_cell (sy_pb s) i) = Some (- q) \<and>
     unat q \<le> length (sy_log s) \<and>
     read_bytes (sy_mem s) (payload_offset (sy_pb s) i) (sy_pb s) = Some (sy_log s ! (unat q - 1))"
  using hold_payload [OF ring_sys.inv_star [OF assms(1) sys_inv_idle [OF assms(2,3)]] assms(4)] by blast

lemma demo_hold:
  "sys_step False (idle_sys (committed_writer demo_writer 0) demo_written log)
     ((idle_sys (committed_writer demo_writer 0) demo_written log)\<lparr>sy_mem := set_seq 8 demo_written 0 (- 1),
        sy_holds := {(0, 1)}\<rparr>)"
proof -
  have "seq_at 8 demo_written 0 = 1"
    using demo_written_ring by (simp add: ring_of_def upt_rec)
  then have "compare_exchange demo_written (seq_cell 8 0) 1 (- 1) = Some (Inr 1, set_seq 8 demo_written 0 (- 1))"
    using cas_seq_cell [of 8 2 demo_written 0 1 "- 1"] by (simp add: seg_geom_def demo_written_length)
  then show ?thesis
    using sys_step.hold [of 0 "idle_sys (committed_writer demo_writer 0) demo_written log" 1 _ False]
    by (simp add: idle_sys_def)
qed

theorem held_entry_immutable_witness:
  "read_bytes (set_seq 8 demo_written 0 (- 1)) (payload_offset 8 0) 8 = Some (replicate 8 9)"
  using held_entry_immutable [OF r_into_rtranclp [of "sys_step False", OF demo_hold]
      demo_chan_written demo_sync_written, of 0 1]
  by (simp add: idle_sys_def)


subsection \<open>Recovery after a crash\<close>

lemma ring_max_seq_eq:
  assumes "ring_inv log g" "unat hdr \<le> length log"
    and "unat hdr = length log \<or> (\<exists>j < length (rg_seqs g). unat (unsigned_abs (rg_seqs g ! j)) = length log)"
  shows "unat (ring_max_seq hdr g) = length log"
proof -
  let ?S = "set (hdr # map unsigned_abs (rg_seqs g))"
  have le: "unat x \<le> length log" if "x \<in> ?S" for x
  proof -
    have "unat (unsigned_abs (rg_seqs g ! j)) \<le> length log" if "j < length (rg_seqs g)" for j
      using assms(1) that by (cases "rg_seqs g ! j = 0") (auto simp: ring_inv_def)
    with \<open>x \<in> ?S\<close> assms(2) show ?thesis by (auto simp: in_set_conv_nth)
  qed
  from assms(3) obtain x where x: "x \<in> ?S" "unat x = length log"
    by (auto dest: nth_mem)
  have "Max ?S \<in> ?S" by (intro Max_in) simp_all
  then have "unat (Max ?S) \<le> length log" by (rule le)
  moreover have "x \<le> Max ?S" using x(1) by (intro Max_ge) simp_all
  ultimately show ?thesis using x(2) by (simp add: ring_max_seq_def word_le_nat_alt)
qed

lemma sys_inv_newest:
  assumes "sys_inv s"
  shows "unat (rg_wmark (sy_ring s)) \<le> length (sy_log s)"
    and "unat (rg_wmark (sy_ring s)) = length (sy_log s) \<or>
      (\<exists>j < unat (sy_n s). unat (unsigned_abs (rg_seqs (sy_ring s) ! j)) = length (sy_log s))"
  using sys_invD(3) [OF assms]
  by (cases "sy_ph s"; auto simp: settled_def taken_def posted_def word_le_nat_alt)+

lemma attach_recovers:
  assumes g: "seg_geom pb n (length m)" and inv: "ring_inv log (ring_of pb n m)"
    and h: "hdr_payload_bytes h = pb" "hdr_entry_count h = n"
      "hdr_last_entry_seq h = hdr_at m OFF_LAST_ENTRY_SEQ"
    and mx: "unat (ring_max_seq (hdr_at m OFF_LAST_ENTRY_SEQ) (ring_of pb n m)) = length log"
  shows "\<exists>w. raw_writer_attach m h = Some w \<and> chan_inv log w m \<and>
     rw_payload_bytes w = pb \<and> rw_entry_count w = n"
proof -
  let ?wi = "unat (hdr_write_index h) mod unat n"
  let ?mx = "ring_max_seq (hdr_at m OFF_LAST_ENTRY_SEQ) (ring_of pb n m)"
  let ?c = "if unsigned_abs (seq_at pb m ?wi) \<noteq> 0 \<and> unsigned_abs (seq_at pb m ?wi) = ?mx
            then Suc ?wi mod unat n else ?wi"
  let ?w = "\<lparr>rw_payload_bytes = pb, rw_entry_count = n, rw_current_index = word_of_nat ?c,
      rw_last_entry_seq = ?mx\<rparr>"
  have n: "0 < unat n" using g by (simp add: seg_geom_def)
  then have c: "?c < unat n" by simp
  have "raw_writer_attach m h = Some ?w"
    using h by (simp add: raw_writer_attach_def recover_state_eq [OF g])
  moreover have "rg_wmark (ring_of pb n m) \<le> ?mx"
    unfolding ring_max_seq_def by (intro Max_ge) (simp_all add: ring_of_def)
  ultimately show ?thesis
    using g c inv mx unat_of_nat_below [OF c]
    by (simp add: chan_inv_def rw_wf_def rw_ring_def)
qed

text \<open>
  C4: Recovery after a crash. Take a channel at rest whose header watermark is the writer's last
  number, as it is when the channel has been initialised and after every completed write (a writer
  that has just recovered may lack it, and \<open>second_crash_reuses_number\<close> shows what can happen
  then). Stop the writer before any memory access of any later write, acquisition or commit, in any
  interleaving with the reader's holds and releases except a hold between the writer's probe and its
  clearing store (\<open>sys_step False\<close>), and attach a new writer to the memory it leaves behind. The
  attachment succeeds, and the new writer continues the same channel: its last number is the number
  of entries ever committed, including one whose header update never happened, so no number is
  skipped or reused, and the invariant holds with the same log.
\<close>
theorem crash_recovery:
  assumes "(sys_step False)\<^sup>*\<^sup>* (idle_sys w m log) s" "chan_inv log w m" "chan_sync w m"
    and "read_header (sy_mem s) = Some (Inr (Some h))"
    and "validate_header h (rw_payload_bytes w) (rw_entry_count w) = Inr ()"
  shows "\<exists>w'. raw_writer_attach (sy_mem s) h = Some w' \<and> chan_inv (sy_log s) w' (sy_mem s) \<and>
     unat (rw_last_entry_seq w') = length (sy_log s) \<and> (\<exists>l. sy_log s = log @ l)"
proof -
  have inv0: "sys_inv (idle_sys w m log)" using assms(2,3) by (rule sys_inv_idle)
  have inv: "sys_inv s" using ring_sys.inv_star [OF assms(1) inv0] .
  note d = sys_invD [OF inv]
  have geom: "sy_pb s = rw_payload_bytes w" "sy_n s = rw_entry_count w"
    using geom_kept.stab_star [OF assms(1) inv0, of "rw_payload_bytes w" "rw_entry_count w" "length m"]
    by (simp_all add: idle_sys_def)
  have h: "hdr_payload_bytes h = sy_pb s" "hdr_entry_count h = sy_n s"
    "hdr_last_entry_seq h = hdr_at (sy_mem s) OFF_LAST_ENTRY_SEQ"
    using assms(4,5) d(6) geom
    by (auto simp: validate_header_def read_header_def split: if_splits)
  have "unat (ring_max_seq (hdr_at (sy_mem s) OFF_LAST_ENTRY_SEQ) (ring_of (sy_pb s) (sy_n s) (sy_mem s)))
      = length (sy_log s)"
    using sys_inv_newest [OF inv] d(2)
    by (intro ring_max_seq_eq) (simp_all add: rw_ring_def ring_of_def [of _ _ "sy_mem s"])
  moreover obtain l where "sy_log s = log @ l"
    using log_grows.stab_star [OF assms(1) inv0, of log] by (auto simp: idle_sys_def)
  moreover have "ring_inv (sy_log s) (ring_of (sy_pb s) (sy_n s) (sy_mem s))"
    using d(2) by (simp add: rw_ring_def)
  ultimately obtain w' where "raw_writer_attach (sy_mem s) h = Some w'" "chan_inv (sy_log s) w' (sy_mem s)"
    using attach_recovers [OF d(5) _ h] by blast
  with \<open>sy_log s = log @ l\<close> chan_invD(3) show ?thesis by blast
qed

lemma demo_held_header:
  "read_header (set_seq 8 demo_written 0 (- 1)) = Some (Inr (Some
     \<lparr>hdr_payload_bytes = 8, hdr_entry_count = 2, hdr_write_index = 1, hdr_dtype = 0,
      hdr_last_entry_seq = 1\<rparr>))"
proof -
  let ?m = "filled_mem demo_writer demo_mem 0 (replicate 8 9)"
  have wf: "rw_wf demo_writer ?m" by (intro filled_mem_facts [OF demo_wf]) simp_all
  have g: "seg_geom 8 2 (length demo_written)" by (simp add: seg_geom_def demo_written_length)
  have eq: "hdr_at demo_written off = hdr_at demo_mem off"
    if "hdr_off off" "off \<notin> {56, 64}" for off
    using that g published_mem_facts(4) [OF wf, of 0 off] filled_mem_facts(4) [OF demo_wf, of 0 "replicate 8 9" off]
    by (simp add: demo_written_def)
  have "hdr_at demo_written 56 = 1" "hdr_at demo_written 64 = 1"
    using demo_written_ring by (simp_all add: ring_of_def)
  with g show ?thesis
    by (subst read_header_valid)
      (simp_all add: eq length_set_seq demo_written_length demo_mem_def initialized_views [OF demo_geom])
qed

theorem crash_recovery_witness:
  "\<exists>w'. raw_writer_attach (set_seq 8 demo_written 0 (- 1))
       \<lparr>hdr_payload_bytes = 8, hdr_entry_count = 2, hdr_write_index = 1, hdr_dtype = 0,
        hdr_last_entry_seq = 1\<rparr> = Some w' \<and>
     chan_inv [replicate 8 9] w' (set_seq 8 demo_written 0 (- 1)) \<and> unat (rw_last_entry_seq w') = 1"
  using crash_recovery [OF r_into_rtranclp [of "sys_step False", OF demo_hold]
      demo_chan_written demo_sync_written]
  by (simp add: demo_held_header idle_sys_def validate_header_def)


subsection \<open>The race between the probe and the claim\<close>

text \<open>The run of a write during which a reader takes the slot between the probe and the store.\<close>

lemma race_run:
  fixes w m q log data
  defines "pb \<equiv> rw_payload_bytes w" and "c \<equiv> rw_current_index w"
  defines "m3 \<equiv> set_seq pb m (unat c) (- q)"
  assumes wf: "rw_wf w m" and q: "seq_at pb m (unat c) = q" "committed q"
    and data: "length data = unat pb" "Suc (length log) < 2 ^ 63"
  shows "(sys_step True)\<^sup>*\<^sup>* (idle_sys w m log)
     \<lparr>sy_w = committed_writer w (unat c), sy_ph = Idle,
      sy_mem = published_mem w (filled_mem w m3 (unat c) data) (unat c), sy_log = log @ [data], sy_holds = {(c, q)}\<rparr>"
proof -
  have i: "unat c < unat (rw_entry_count w)" and g: "seg_geom pb (rw_entry_count w) (length m)"
    using wf by (auto simp: rw_wf_def pb_def c_def)
  have free: "ring_free_slot (unat c) (rw_ring w m) = Some (unat c)"
    using i q by (intro ring_free_slot_cursor) (auto simp: rw_ring_nth pb_def simp flip: length_greater_0_conv)
  let ?s1 = "\<lparr>sy_w = w, sy_ph = Probe 0 (Some data), sy_mem = m, sy_log = log, sy_holds = {}\<rparr>"
  let ?s2 = "?s1\<lparr>sy_ph := Clear c (Some data)\<rparr>"
  let ?s3 = "?s2\<lparr>sy_mem := m3, sy_holds := {(c, q)}\<rparr>"
  have st1: "sys_step True (idle_sys w m log) ?s1"
    using sys_step.start_write [of "idle_sys w m log" data True] data by (simp add: idle_sys_def pb_def)
  have st2: "(sys_step True)\<^sup>*\<^sup>* ?s1 ?s2"
    using probe_find [of ?s1 "Some data"] wf free writer_run_steps by (fastforce simp: c_def)
  have "compare_exchange m (seq_cell pb c) q (- q) = Some (Inr q, m3)"
    using cas_seq_cell [OF g i] q by (simp add: m3_def)
  then have st3: "sys_step True ?s2 ?s3" using sys_step.hold [of c ?s2 q m3 True] i q(2) by (simp add: pb_def)
  have "rw_wf w m3" using wf i by (simp add: m3_def pb_def rw_wf_set_seq)
  then have "(sys_step True)\<^sup>*\<^sup>* ?s3
      \<lparr>sy_w = committed_writer w (unat c), sy_ph = Idle,
       sy_mem = published_mem w (filled_mem w m3 (unat c) data) (unat c), sy_log = log @ [data], sy_holds = {(c, q)}\<rparr>"
    using write_run [of ?s3 "unat c" data] i data(1) by (intro writer_run_steps) (simp add: pb_def)
  with st1 st2 st3 show ?thesis by (meson converse_rtranclp_into_rtranclp rtranclp_trans)
qed

text \<open>
  C33: The claim of a slot is not atomic. If a reader takes the slot at the writer's cursor between
  the writer's probe and its store, the write goes on: it completes in a slot the reader still holds,
  so the reader's view of entry \<open>q\<close> now shows the new data, and when the reader releases the slot
  it republishes the new data under the old number \<open>q\<close>. This is possible from every state at rest
  whose cursor slot carries a committed entry, which is every state of a ring that has filled up
  once and of which no slot is held.
\<close>
theorem claim_race:
  assumes "chan_inv log w m" "length data = unat (rw_payload_bytes w)" "Suc (length log) < 2 ^ 63"
    and "load_u64 m (seq_cell (rw_payload_bytes w) (rw_current_index w)) = Some q" "committed q"
  shows "\<exists>s s'. (sys_step True)\<^sup>*\<^sup>* (idle_sys w m log) s \<and>
     sy_ph s = Idle \<and> (rw_current_index w, q) \<in> sy_holds s \<and>
     sy_log s ! (unat q - 1) = pay_at (rw_payload_bytes w) m (unat (rw_current_index w)) \<and>
     read_bytes (sy_mem s) (payload_offset (rw_payload_bytes w) (rw_current_index w)) (rw_payload_bytes w)
       = Some data \<and>
     sys_step True s s' \<and>
     load_u64 (sy_mem s') (seq_cell (rw_payload_bytes w) (rw_current_index w)) = Some q \<and>
     read_bytes (sy_mem s') (payload_offset (rw_payload_bytes w) (rw_current_index w)) (rw_payload_bytes w)
       = Some data"
proof -
  let ?pb = "rw_payload_bytes w" and ?n = "rw_entry_count w" and ?c = "rw_current_index w"
  let ?i = "unat ?c"
  note ci = chan_invD [OF assms(1)]
  have i: "?i < unat ?n" and g: "seg_geom ?pb ?n (length m)" using ci(1) by (auto simp: rw_wf_def)
  have q: "seq_at ?pb m ?i = q" using assms(4) g i by simp
  let ?m3 = "set_seq ?pb m ?i (- q)"
  let ?m4 = "published_mem w (filled_mem w ?m3 ?i data) ?i"
  let ?s4 = "\<lparr>sy_w = committed_writer w ?i, sy_ph = Idle, sy_mem = ?m4, sy_log = log @ [data], sy_holds = {(?c, q)}\<rparr>"
  let ?m5 = "set_seq ?pb ?m4 ?i q"
  have run: "(sys_step True)\<^sup>*\<^sup>* (idle_sys w m log) ?s4"
    using race_run [OF ci(1) q assms(5)] assms(2,3) by simp
  have wf3: "rw_wf w ?m3" using ci(1) i by (rule rw_wf_set_seq)
  have wf4: "rw_wf (committed_writer w ?i) ?m4"
    by (intro published_mem_facts filled_mem_facts wf3 i assms(2))
  then have g4: "seg_geom ?pb ?n (length ?m4)" by (simp add: rw_wf_def)
  have "rg_pays (rw_ring (committed_writer w ?i) ?m4) ! ?i = data"
    using i by (simp add: rw_ring_written [OF wf3 i assms(2)] ring_write_def ring_publish_def ring_fill_def)
  then have p4: "pay_at ?pb ?m4 ?i = data" using i by (simp add: rw_ring_nth)
  have g5: "seg_geom ?pb ?n (length ?m5)" using g4 i by (simp add: length_set_seq)
  have st5: "sys_step True ?s4 (?s4\<lparr>sy_mem := ?m5, sy_holds := {}\<rparr>)"
    using sys_step.release [of ?c q ?s4 ?m5 True] g4 i by simp
  have "q \<noteq> 0" using assms(5) by auto
  then have lq: "unat q \<le> length log" "pay_at ?pb m ?i = log ! (unat q - 1)" "0 < unat q"
    using ci(2) i q assms(5) by (auto simp: ring_inv_def rw_ring_nth unat_gt_0)
  then have "(log @ [data]) ! (unat q - 1) = pay_at ?pb m ?i" by (auto simp: nth_append)
  moreover have "load_u64 ?m5 (seq_cell ?pb ?c) = Some q" "read_bytes ?m5 (payload_offset ?pb ?c) ?pb = Some data"
    using g5 g4 i p4 by (simp_all add: slots.gseq_sseq slots.gpay_sseq)
  moreover have "read_bytes ?m4 (payload_offset ?pb ?c) ?pb = Some data" using g4 i p4 by simp
  ultimately show ?thesis
    using run st5 by (intro exI [of _ ?s4] exI [of _ "?s4\<lparr>sy_mem := ?m5, sy_holds := {}\<rparr>"]) simp
qed

theorem claim_race_witness:
  "\<exists>s. (sys_step True)\<^sup>*\<^sup>* (idle_sys one_committed one_written [replicate 8 9]) s \<and>
     sy_ph s = Idle \<and> (0, 1) \<in> sy_holds s \<and>
     read_bytes (sy_mem s) (payload_offset 8 0) 8 = Some (replicate 8 5)"
  using claim_race [OF one_written_chan, of "replicate 8 5" 1] one_written_seq by auto

subsection \<open>A second crash\<close>

text \<open>
  C35: Recovery takes the larger of the header's watermark and the numbers in the ring, but does not
  write it back. After a first crash has left the watermark behind, a recovered writer of a
  one-slot ring that claims the slot and dies at once erases the only trace of the newest number:
  the next recovery resumes from the stale watermark, so a number that was committed, and that a
  reader may have seen, is assigned again.
\<close>
theorem second_crash_reuses_number:
  assumes "chan_inv log w m" "rw_entry_count w = 1"
    and "load_u64 m high_watermark = Some k" "unat k < length log"
    and "claim_slot w m = Some (Inr i, m')" "read_header m' = Some (Inr (Some h))"
    and "validate_header h (rw_payload_bytes w) 1 = Inr ()"
  shows "\<exists>w'. raw_writer_attach m' h = Some w' \<and> rw_last_entry_seq w' = k \<and>
     unat (rw_last_entry_seq w' + 1) \<le> length log"
proof -
  let ?pb = "rw_payload_bytes w"
  note c = chan_invD [OF assms(1)]
  have g: "seg_geom ?pb 1 (length m)" using c(1) assms(2) by (simp add: rw_wf_def)
  from claim_slot_eq [OF c(1)] assms(5) obtain j where
    j: "ring_free_slot (unat (rw_current_index w)) (rw_ring w m) = Some j" and m': "m' = set_seq ?pb m j 0"
    by (auto split: option.splits)
  have j0: "j = 0" using ring_free_slot_bound [OF c(1) j] assms(2) by simp
  have k: "hdr_at m OFF_LAST_ENTRY_SEQ = k" using assms(3) seg_geom_72 [OF g] by simp
  have g': "seg_geom ?pb 1 (length m')" using g by (simp add: m' j0 length_set_seq)
  have h: "hdr_payload_bytes h = ?pb" "hdr_entry_count h = 1" "hdr_last_entry_seq h = k"
    using assms(6,7) seg_geom_72 [OF g'] k g
    by (auto simp: validate_header_def read_header_def m' j0 split: if_splits)
  have "seq_at ?pb m' 0 = 0" using g by (simp add: m' j0 slots.gseq_sseq)
  then have "ring_max_seq k (ring_of ?pb 1 m') = k"
    by (simp add: ring_max_seq_def ring_of_def)
  with h have "\<exists>w'. raw_writer_attach m' h = Some w' \<and> rw_last_entry_seq w' = k"
    by (simp add: raw_writer_attach_def recover_state_eq [OF g'])
  moreover have "unat (k + 1) \<le> length log"
    using assms(4) c(4) by (simp add: unat_add_no_wrap)
  ultimately show ?thesis by auto
qed

text \<open>The one-slot channel as a crash before the watermark store leaves it.\<close>

definition one_stale :: mem where
  "one_stale = set_hdr one_written OFF_LAST_ENTRY_SEQ 0"

lemma one_written_geom: "seg_geom 8 1 (length one_written)"
  using chan_invD(1) [OF one_written_chan] by (simp add: rw_wf_def)

lemma one_stale_ring:
  "rw_ring one_committed one_stale = (rw_ring one_committed one_written)\<lparr>rg_wmark := 0\<rparr>"
  using ring_of_set_wmark [OF one_written_geom, of 0] by (simp add: rw_ring_def one_stale_def)

lemma one_stale_length: "length one_stale = length one_written"
  using seg_geom_72 [OF one_written_geom] by (simp add: one_stale_def)

lemma one_stale_chan: "chan_inv [replicate 8 9] one_committed one_stale"
  using one_written_chan ring_inv_cong [of "rw_ring one_committed one_stale" "rw_ring one_committed one_written"]
    one_stale_ring one_stale_length
  by (simp add: chan_inv_def rw_wf_def)

lemma one_stale_claim: "claim_slot one_committed one_stale = Some (Inr 0, set_seq 8 one_stale 0 0)"
proof -
  have "ring_free_slot 0 (rw_ring one_committed one_stale) = Some 0"
    by (intro ring_free_slot_cursor) (simp_all add: one_stale_ring one_written_ring)
  then show ?thesis using claim_slot_eq [OF chan_invD(1) [OF one_stale_chan]] by simp
qed

lemma one_stale_header:
  "read_header (set_seq 8 one_stale 0 0) = Some (Inr (Some
     \<lparr>hdr_payload_bytes = 8, hdr_entry_count = 1, hdr_write_index = 0, hdr_dtype = 0,
      hdr_last_entry_seq = 0\<rparr>))"
proof -
  have wf: "rw_wf one_writer (filled_mem one_writer one_mem 0 (replicate 8 9))"
    by (intro filled_mem_facts chan_invD(1) [OF one_chan]) simp_all
  have eq: "hdr_at one_written off = hdr_at one_mem off" if "hdr_off off" "off \<notin> {56, 64}" for off
    using that published_mem_facts(4) [OF wf, of 0 off]
      filled_mem_facts(4) [OF chan_invD(1) [OF one_chan], of 0 "replicate 8 9" off]
    by (simp add: one_written_def)
  have wi: "hdr_at one_written 56 = 0" using one_written_ring by (simp add: rw_ring_def ring_of_def)
  have g: "seg_geom 8 1 (length one_stale)" using one_written_geom one_stale_length by simp
  have 72: "72 \<le> length one_written" using one_written_geom by (rule seg_geom_72)
  have "72 \<le> length (set_seq 8 one_stale 0 0)" using g 72 one_stale_length by (simp add: length_set_seq)
  moreover have "hdr_at (set_seq 8 one_stale 0 0) off = (if off = 64 then 0 else hdr_at one_written off)"
    if "hdr_off off" for off
    using that g 72 by (simp add: one_stale_def hdr_at_set_hdr)
  ultimately show ?thesis
    using wi by (subst read_header_valid) (simp_all add: eq one_mem_def initialized_views [OF one_geom])
qed

theorem second_crash_reuses_number_witness:
  "\<exists>w'. raw_writer_attach (set_seq 8 one_stale 0 0)
      \<lparr>hdr_payload_bytes = 8, hdr_entry_count = 1, hdr_write_index = 0, hdr_dtype = 0,
       hdr_last_entry_seq = 0\<rparr> = Some w' \<and>
     unat (rw_last_entry_seq w' + 1) \<le> length [replicate 8 (9 :: byte)]"
proof -
  have "load_u64 one_stale high_watermark = Some 0"
    using seg_geom_72 [OF one_written_geom] by (simp add: one_stale_def hdr_at_set_hdr)
  from second_crash_reuses_number [OF one_stale_chan _ this _ one_stale_claim one_stale_header]
  show ?thesis by (auto simp: validate_header_def)
qed

end
