(* ===== verification/Zc_Acquire.thy ===== *)
theory Zc_Acquire
  imports Zc_Concurrent
begin

text \<open>
  The reader among arbitrary other accesses. First, whatever the bytes of the segment are and
  however they change under it, every operation of the reader stays inside the segment and returns
  after a bounded number of accesses. Second, on a segment that only the protocol changes, a
  zero-copy acquisition is one atomic hold of the system of \<open>Zc_Machine\<close>.
\<close>

subsection \<open>Bounded accesses\<close>

lemma locate_moments:
  assumes "locate r v t wm = Some (res, t')"
  shows "t' \<le> t + Suc (unat (rr_entry_count r))" "t < t'"
proof -
  let ?is = "usize_range (rr_entry_count r)"
  from assms have "t' = Suc t \<or> locate_scan r v wm ?is (Suc t) None = Some (res, t')"
    by (auto simp: locate_def Let_def bind_eq_Some_conv split: if_splits)
  with locate_scan_sound [of r v wm ?is "Suc t" None res t']
  show "t' \<le> t + Suc (unat (rr_entry_count r))" "t < t'" by auto
qed

lemma read_loop_moments:
  "read_loop r v wm k t dst = Some (res, r', bytes, t') \<Longrightarrow>
   t \<le> t' \<and> t' \<le> t + k * (unat (rr_entry_count r) + unat (rr_payload_bytes r) + 2) \<and>
   (length dst = unat (rr_payload_bytes r) \<longrightarrow> length bytes = length dst)"
proof (induction k arbitrary: t dst)
  case 0
  then show ?case by simp
next
  case (Suc k)
  from Suc.prems obtain loc t1 where l: "locate r v t wm = Some (loc, t1)" by (auto simp: bind_eq_Some_conv)
  note b = locate_moments [OF l]
  show ?case
  proof (cases loc)
    case None
    with Suc.prems l b show ?thesis by simp
  next
    case (Some p)
    obtain i s where p: "p = (i, s)" by (cases p)
    from Suc.prems l Some p obtain bs again where
        c: "copy_out v t1 (payload_offset (rr_payload_bytes r) i) (rr_payload_bytes r) = Some bs"
      and rest: "(if again \<noteq> s then read_loop r v wm k (Suc (t1 + unat (rr_payload_bytes r))) bs
         else Some (Some s, r\<lparr>rr_last_entry_seq := s, rr_last_read_idx := i\<rparr>, bs,
           Suc (t1 + unat (rr_payload_bytes r)))) = Some (res, r', bytes, t')"
      by (auto simp: bind_eq_Some_conv Let_def)
    have "length bs = unat (rr_payload_bytes r)" using c by (auto simp: copy_out_def split: if_splits)
    with rest b Suc.IH [of "Suc (t1 + unat (rr_payload_bytes r))" bs] show ?thesis by (auto split: if_splits)
  qed
qed

text \<open>What an acquisition has done when it returns: nothing, or one successful compare-and-swap.\<close>

lemma acquire_loop_runs:
  assumes g: "\<And>k. seg_geom (rr_payload_bytes r) (rr_entry_count r) (length (v k))"
  shows "\<exists>res r' m' t'. acquire_loop r v wm k t = Some (res, r', m', t') \<and>
     t \<le> t' \<and> t' \<le> t + k * (unat (rr_entry_count r) + 2) \<and>
     (case res of
        None \<Rightarrow> r' = r \<and> m' = v t'
      | Some h \<Rightarrow>
          t < t' \<and> rh_index h < rr_entry_count r \<and> committed (rh_entry_seq h) \<and> wm < rh_entry_seq h \<and>
          rh_ptr h = payload_offset (rr_payload_bytes r) (rh_index h) \<and> rh_len h = rr_payload_bytes r \<and>
          r' = r\<lparr>rr_last_entry_seq := rh_entry_seq h, rr_last_read_idx := rh_index h\<rparr> \<and>
          compare_exchange (v (t' - 1)) (seq_cell (rr_payload_bytes r) (rh_index h))
            (rh_entry_seq h) (- rh_entry_seq h) = Some (Inr (rh_entry_seq h), m'))"
proof (induction k arbitrary: t)
  case 0
  then show ?case by simp
next
  case (Suc k)
  from locate_defined [where v = v, OF g] obtain loc t1 where l: "locate r v t wm = Some (loc, t1)" "t < t1" by blast
  note b = locate_moments [OF l(1)]
  show ?case
  proof (cases loc)
    case None
    with l b show ?thesis by simp
  next
    case (Some p)
    obtain i s where p: "p = (i, s)" by (cases p)
    note ls = locate_seen [OF l(1) [unfolded Some p]]
    have ui: "unat i < unat (rr_entry_count r)" using ls(4) by (simp add: word_less_nat_alt)
    note cas = cas_seq_cell [OF g ui, of t1 s "- s"]
    show ?thesis
    proof (cases "seq_at (rr_payload_bytes r) (v t1) (unat i) = s")
      case True
      with l Some p cas ls b show ?thesis by (auto simp: Let_def)
    next
      case False
      then have "acquire_loop r v wm (Suc k) t = acquire_loop r v wm k (Suc t1)"
        using l Some p cas by simp
      moreover have "t1 \<le> t + Suc (unat (rr_entry_count r))" by (rule b)
      ultimately show ?thesis using Suc.IH [of "Suc t1"] l(2) by (fastforce split: option.splits)
    qed
  qed
qed

lemma watermark_defined:
  fixes fr :: "u64 option" and r :: raw_reader
  assumes "72 \<le> length (v t)"
  defines "wm \<equiv> (case fr of None \<Rightarrow> rr_last_entry_seq r | Some s \<Rightarrow> s)"
  shows "watermark r v t fr = Some (if hdr_at (v t) OFF_LAST_ENTRY_SEQ \<le> wm then None else Some wm)"
  using assms(1) by (simp add: watermark_def writer_entry_seq_def wm_def)

lemma try_acquire_runs:
  fixes fr :: "u64 option"
  assumes g: "\<And>k. seg_geom (rr_payload_bytes r) (rr_entry_count r) (length (v k))"
  defines "wm \<equiv> (case fr of None \<Rightarrow> rr_last_entry_seq r | Some s \<Rightarrow> s)"
  shows "\<exists>res r' m' t'. raw_reader_try_acquire r v t fr = Some (Inr res, r', m', t') \<and>
     t < t' \<and> t' \<le> t + 1 + READ_RETRIES * (unat (rr_entry_count r) + 2) \<and>
     (case res of
        None \<Rightarrow> r' = r \<and> (\<exists>k. m' = v k)
      | Some h \<Rightarrow>
          rh_index h < rr_entry_count r \<and> committed (rh_entry_seq h) \<and> wm < rh_entry_seq h \<and>
          rh_ptr h = payload_offset (rr_payload_bytes r) (rh_index h) \<and> rh_len h = rr_payload_bytes r \<and>
          r' = r\<lparr>rr_last_entry_seq := rh_entry_seq h, rr_last_read_idx := rh_index h\<rparr> \<and>
          compare_exchange (v (t' - 1)) (seq_cell (rr_payload_bytes r) (rh_index h))
            (rh_entry_seq h) (- rh_entry_seq h) = Some (Inr (rh_entry_seq h), m'))"
proof -
  note w = watermark_defined [where r = r and v = v and t = t and fr = fr, OF seg_geom_72 [OF g], folded wm_def]
  from acquire_loop_runs [where v = v, OF g, of wm READ_RETRIES "Suc t"] obtain res r' m' t' where
    a: "acquire_loop r v wm READ_RETRIES (Suc t) = Some (res, r', m', t')"
      "Suc t \<le> t'" "t' \<le> Suc t + READ_RETRIES * (unat (rr_entry_count r) + 2)"
    and res: "case res of None \<Rightarrow> r' = r \<and> m' = v t' | Some h \<Rightarrow> Suc t < t' \<and>
        rh_index h < rr_entry_count r \<and> committed (rh_entry_seq h) \<and> wm < rh_entry_seq h \<and>
        rh_ptr h = payload_offset (rr_payload_bytes r) (rh_index h) \<and> rh_len h = rr_payload_bytes r \<and>
        r' = r\<lparr>rr_last_entry_seq := rh_entry_seq h, rr_last_read_idx := rh_index h\<rparr> \<and>
        compare_exchange (v (t' - 1)) (seq_cell (rr_payload_bytes r) (rh_index h))
          (rh_entry_seq h) (- rh_entry_seq h) = Some (Inr (rh_entry_seq h), m')"
    by blast
  show ?thesis
  proof (cases "hdr_at (v t) OFF_LAST_ENTRY_SEQ \<le> wm")
    case True
    with w show ?thesis by (auto simp: raw_reader_try_acquire_def)
  next
    case False
    with w a(1) have "raw_reader_try_acquire r v t fr = Some (Inr res, r', m', t')"
      by (simp add: raw_reader_try_acquire_def)
    with a(2,3) res show ?thesis by (auto split: option.splits)
  qed
qed

lemma read_into_runs:
  assumes g: "\<And>k. seg_geom (rr_payload_bytes r) (rr_entry_count r) (length (v k))"
  shows "\<exists>res r' bytes t'. raw_reader_read_into r v t dst fr = Some (res, r', bytes, t') \<and>
     t \<le> t' \<and> t' \<le> t + 1 + READ_RETRIES * (unat (rr_entry_count r) + unat (rr_payload_bytes r) + 2) \<and>
     length bytes = length dst \<and>
     (r' = r \<or> (\<exists>s i. i < rr_entry_count r \<and> r' = r\<lparr>rr_last_entry_seq := s, rr_last_read_idx := i\<rparr>))"
proof -
  let ?wm = "case fr of None \<Rightarrow> rr_last_entry_seq r | Some s \<Rightarrow> s"
  note w = watermark_defined [where r = r and v = v and t = t and fr = fr, OF seg_geom_72 [OF g]]
  obtain res r' bytes t' where rl: "read_loop r v ?wm READ_RETRIES (Suc t) dst = Some (res, r', bytes, t')"
    and none: "res = None \<longrightarrow> r' = r"
    using read_loop_defined [where v = v, OF g] by blast
  have "r' = r \<or> (\<exists>s i. i < rr_entry_count r \<and> r' = r\<lparr>rr_last_entry_seq := s, rr_last_read_idx := i\<rparr>)"
    using rl none read_loop_sound [of r v ?wm READ_RETRIES "Suc t" dst _ r' bytes t'] by (cases res) blast+
  with rl w read_loop_moments [OF rl] show ?thesis by (auto simp: raw_reader_read_into_def)
qed

text \<open>
  C14: The reader is memory safe and always returns. Let the segment have the geometry the reader
  was attached with, let its bytes be arbitrary (a corrupted ring, a malicious or crashed peer) and
  let them change arbitrarily between any two accesses. Then reading and acquiring access only
  addresses inside the segment, never divide by zero, and return after at most \<open>READ_RETRIES\<close> searches
  and copies; the destination keeps its length and the reader its geometry.
\<close>
theorem reader_safe:
  assumes "\<And>k. seg_geom (rr_payload_bytes r) (rr_entry_count r) (length (v k))"
  shows "(\<exists>res r' bytes t'. raw_reader_read_into r v t dst fr = Some (res, r', bytes, t') \<and>
       t' \<le> t + 1 + READ_RETRIES * (unat (rr_entry_count r) + unat (rr_payload_bytes r) + 2) \<and>
       length bytes = length dst \<and> rr_payload_bytes r' = rr_payload_bytes r \<and> rr_entry_count r' = rr_entry_count r) \<and>
     (\<exists>res r' m' t'. raw_reader_try_acquire r v t fr = Some (Inr res, r', m', t') \<and>
       t' \<le> t + 1 + READ_RETRIES * (unat (rr_entry_count r) + 2) \<and>
       rr_payload_bytes r' = rr_payload_bytes r \<and> rr_entry_count r' = rr_entry_count r)"
proof
  show "\<exists>res r' bytes t'. raw_reader_read_into r v t dst fr = Some (res, r', bytes, t') \<and>
       t' \<le> t + 1 + READ_RETRIES * (unat (rr_entry_count r) + unat (rr_payload_bytes r) + 2) \<and>
       length bytes = length dst \<and> rr_payload_bytes r' = rr_payload_bytes r \<and> rr_entry_count r' = rr_entry_count r"
    using read_into_runs [where v = v, OF assms, of t dst fr] by fastforce
  show "\<exists>res r' m' t'. raw_reader_try_acquire r v t fr = Some (Inr res, r', m', t') \<and>
       t' \<le> t + 1 + READ_RETRIES * (unat (rr_entry_count r) + 2) \<and>
       rr_payload_bytes r' = rr_payload_bytes r \<and> rr_entry_count r' = rr_entry_count r"
    using try_acquire_runs [where v = v, OF assms, of t fr] by (fastforce split: option.splits)
qed

text \<open>A view that alternates between a well-formed ring and noise.\<close>

definition noisy :: view where
  "noisy k = (if even k then demo_written else replicate 104 255)"

theorem reader_safe_witness:
  "\<exists>res r' bytes t'. raw_reader_read_into demo_reader noisy 0
     (replicate 8 0) None = Some (res, r', bytes, t') \<and> t' \<le> 49 \<and> length bytes = 8"
proof -
  have g: "seg_geom (rr_payload_bytes demo_reader) (rr_entry_count demo_reader)
      (length (noisy k))" for k
    by (simp add: noisy_def demo_written_length seg_geom_def)
  from reader_safe [where t = 0 and dst = "replicate 8 0" and fr = None and r = demo_reader and v = noisy, OF g] show ?thesis
    by (auto simp: READ_RETRIES_def)
qed

subsection \<open>An acquisition is a hold\<close>

text \<open>
  C13: A zero-copy acquisition among the accesses of the writer and other holds, on condition that no
  reader takes a slot between the writer's probe of that slot and the store that clears it: neither
  the other readers (\<open>sys_step False\<close>) nor this acquisition at the moment of its compare-and-swap
  (\<open>claim_race\<close> shows what happens otherwise). If it returns a handle, its compare-and-swap was one
  atomic step of the system, a hold of a committed entry newer than the reader's position. From then
  on, whatever such a system does, until the hold is released the byte view of the handle is exactly
  the payload committed under the handle's number.
\<close>
theorem acquire_is_hold:
  fixes fr :: "u64 option"
  assumes "path (sys_step False) \<sigma>" "\<sigma> 0 = idle_sys w m log" "chan_inv log w m" "chan_sync w m" "same_geom w r"
    and "raw_reader_try_acquire r (\<lambda>k. sy_mem (\<sigma> k)) t fr = Some (Inr (Some h), r', m', t')"
    and "\<not> claiming (sy_ph (\<sigma> (t' - 1))) (rh_index h)"
  defines "s \<equiv> \<sigma> (t' - 1)"
  defines "s1 \<equiv> s\<lparr>sy_mem := m', sy_holds := insert (rh_index h, rh_entry_seq h) (sy_holds s)\<rparr>"
  shows "sys_step False s s1 \<and>
     (case fr of None \<Rightarrow> rr_last_entry_seq r | Some q \<Rightarrow> q) < rh_entry_seq h \<and>
     unat (rh_entry_seq h) \<le> length (sy_log s) \<and>
     (\<forall>s2. (sys_step False)\<^sup>*\<^sup>* s1 s2 \<longrightarrow> (rh_index h, rh_entry_seq h) \<in> sy_holds s2 \<longrightarrow>
        rh_as_bytes h (sy_mem s2) = Some (sy_log s ! (unat (rh_entry_seq h) - 1)))"
proof -
  let ?v = "\<lambda>k. sy_mem (\<sigma> k)" and ?q = "rh_entry_seq h" and ?i = "rh_index h"
  have inv: "sys_inv (\<sigma> 0)" using assms(2-4) sys_inv_idle by simp
  have g0: "sy_pb (\<sigma> 0) = rr_payload_bytes r" "sy_n (\<sigma> 0) = rr_entry_count r"
    using assms(2,5) by (simp_all add: idle_sys_def same_geom_def)
  note g = path_geom [OF assms(1) inv, unfolded g0]
  from try_acquire_runs [where v = ?v, OF g(3), of t fr] assms(6) have
    h: "?i < rr_entry_count r" "committed ?q" "(case fr of None \<Rightarrow> rr_last_entry_seq r | Some q \<Rightarrow> q) < ?q"
      "rh_ptr h = payload_offset (rr_payload_bytes r) ?i" "rh_len h = rr_payload_bytes r"
    and cas: "compare_exchange (sy_mem s) (seq_cell (rr_payload_bytes r) ?i) ?q (- ?q) = Some (Inr ?q, m')"
    by (auto simp: s_def)
  have pb: "sy_pb s = rr_payload_bytes r" "sy_n s = rr_entry_count r" using g(1,2) by (simp_all add: s_def)
  have step: "sys_step False s s1"
    unfolding s1_def using h(1,2) cas assms(7) [folded s_def]
    by (intro sys_step.hold) (simp_all add: pb word_less_nat_alt)
  have invs: "sys_inv s" unfolding s_def by (rule ring_sys.inv_path [OF assms(1) inv])
  then have inv1: "sys_inv s1" using step by (rule ring_sys.inv_step)
  have l: "sy_log s1 = sy_log s" "(?i, ?q) \<in> sy_holds s1" "sy_pb s1 = sy_pb s" "sy_n s1 = sy_n s" by (simp_all add: s1_def)
  have len: "unat ?q \<le> length (sy_log s)" using hold_payload(2) [OF inv1 l(2)] l(1) by simp
  have "0 < unat ?q" using h(2) by (simp add: sint_pos_iff)
  with len have q0: "unat ?q - 1 < length (sy_log s)" by linarith
  have "rh_as_bytes h (sy_mem s2) = Some (sy_log s ! (unat ?q - 1))"
    if st: "(sys_step False)\<^sup>*\<^sup>* s1 s2" and hold: "(?i, ?q) \<in> sy_holds s2" for s2
  proof -
    have inv2: "sys_inv s2" using ring_sys.inv_star [OF st inv1] .
    obtain l2 where "sy_log s2 = sy_log s @ l2" using log_grows.stab_star [OF st inv1, of "sy_log s"] l(1) by auto
    moreover have "sy_pb s2 = rr_payload_bytes r"
      using geom_kept.stab_star [OF st inv1, of "sy_pb s1" "sy_n s1"] l(3) pb by simp
    ultimately show ?thesis
      using hold_payload(3) [OF inv2 hold] h(4,5) q0 by (simp add: rh_as_bytes_def nth_append)
  qed
  with step h(3) len show ?thesis by blast
qed

text \<open>
  An acquisition during which the entry it found is overwritten: the compare-and-swap fails, and the
  second attempt takes the new entry.
\<close>

lemma rewriting_acquire:
  "raw_reader_try_acquire one_reader rewriting_view 4 None =
     Some (Inr (Some \<lparr>rh_index = 0, rh_entry_seq = 2, rh_ptr = payload_offset 8 0, rh_len = 8\<rparr>),
       one_reader\<lparr>rr_last_entry_seq := 2, rr_last_read_idx := 0\<rparr>, set_seq 8 (rewriting_view 9) 0 (- 2), 10)"
proof -
  have cas: "compare_exchange (rewriting_view k) (seq_cell 8 0) old new =
      Some (if (if k < 6 then 1 else 2) = old then (Inr old, set_seq 8 (rewriting_view k) 0 new)
        else (Inl (if k < 6 then 1 else 2), rewriting_view k))" for k old new
    using cas_seq_cell [OF rewriting_geom, of 0] by (simp add: rewriting_slot)
  note f = rewriting_locate cas one_reader_geom(2)
  let ?res = "Some (Some \<lparr>rh_index = 0, rh_entry_seq = 2, rh_ptr = payload_offset 8 0, rh_len = 8\<rparr>,
      one_reader\<lparr>rr_last_entry_seq := 2, rr_last_read_idx := 0\<rparr>, set_seq 8 (rewriting_view 9) 0 (- 2), 10)"
  have "acquire_loop one_reader rewriting_view 0 (Suc k) 7 = ?res" for k by (simp add: f)
  then have "acquire_loop one_reader rewriting_view 0 (Suc (Suc k)) 5 = ?res" for k
    by (subst acquire_loop.simps(2)) (simp add: f del: acquire_loop.simps(2))
  from this [of 2] have "acquire_loop one_reader rewriting_view 0 READ_RETRIES 5 = ?res" by (simp add: READ_RETRIES_def)
  then show ?thesis by (simp add: raw_reader_try_acquire_def rewriting_watermark)
qed

theorem acquire_is_hold_witness:
  "\<exists>h r' m' t'. raw_reader_try_acquire one_reader rewriting_view 4 None = Some (Inr (Some h), r', m', t') \<and>
     sys_step False (rewriting 9) ((rewriting 9)\<lparr>sy_mem := m', sy_holds := {(rh_index h, rh_entry_seq h)}\<rparr>) \<and>
     rh_as_bytes h m' = Some (replicate 8 5)"
proof -
  have idle: "sy_ph (rewriting 9) = Idle" "sy_holds (rewriting 9) = {}" by (simp_all add: rewriting_def idle_sys_def)
  from acquire_is_hold [OF rewriting_path rewriting_simps(1) one_written_chan one_sync_written one_reader_geom(1),
      unfolded rewriting_simps(2), OF rewriting_acquire]
  have "sys_step False (rewriting 9) ((rewriting 9)\<lparr>sy_mem := set_seq 8 (rewriting_view 9) 0 (- 2), sy_holds := {(0, 2)}\<rparr>)"
    "rh_as_bytes \<lparr>rh_index = 0, rh_entry_seq = 2, rh_ptr = payload_offset 8 0, rh_len = 8\<rparr> (set_seq 8 (rewriting_view 9) 0 (- 2)) =
      Some (replicate 8 5)"
    using idle by (auto simp: rewriting_simps(3))
  with rewriting_acquire show ?thesis by simp
qed

end
