(* ===== verification/Zc_Stream.thy ===== *)
theory Zc_Stream
  imports Zc_Acquire "HOL-Library.Sublist"
begin

text \<open>
  What a one-copy reader receives from a channel that is written, held and released while it polls.
  \<open>poll\<close> is a client of \<open>RawReader::read_into\<close>: it reads again and again, with pauses of any length in
  between, reuses one destination buffer and collects what it was given. What it collects is in
  order, without repetition and without corruption, and it leaves out no entry that was there all
  the time.
\<close>

fun poll ::
    "raw_reader \<Rightarrow> view \<Rightarrow> nat \<Rightarrow> nat list \<Rightarrow> byte list \<Rightarrow> ((u64 \<times> byte list) list \<times> raw_reader \<times> nat) option" where
  "poll r v t [] dst = Some ([], r, t)"
| "poll r v t (pause # pauses) dst =
     do {
       (res, r, dst, t) \<leftarrow> raw_reader_read_into r v (t + pause) dst None;
       (es, r, t) \<leftarrow> poll r v t pauses dst;
       Some (case res of Inr (Some s) \<Rightarrow> (s, dst) # es | _ \<Rightarrow> es, r, t)
     }"

subsection \<open>In order and uncorrupted\<close>

text \<open>Entries that are in a log under their numbers, above a position.\<close>

definition from_log :: "byte list list \<Rightarrow> u64 \<Rightarrow> (u64 \<times> byte list) list \<Rightarrow> bool" where
  "from_log log pos es \<longleftrightarrow>
     sorted_wrt (<) (map fst es) \<and>
     (\<forall>(s, bytes) \<in> set es. pos < s \<and> unat s \<le> length log \<and> bytes = log ! (unat s - 1))"

lemma from_log_Nil [simp]: "from_log log pos []"
  by (simp add: from_log_def)

lemma from_log_Cons:
  assumes "from_log log s es" "pos < s" "unat s \<le> length log" "bytes = log ! (unat s - 1)"
  shows "from_log log pos ((s, bytes) # es)"
  using assms by (fastforce simp: from_log_def)

lemma from_log_subseq:
  assumes "from_log log pos es"
  shows "subseq (map snd es) (drop (unat pos) log)"
proof -
  let ?is = "map (\<lambda>e. unat (fst e) - 1) es"
  have pos: "unat pos < unat s" "unat s \<le> length log" "b = log ! (unat s - 1)" if "(s, b) \<in> set es" for s b
    using assms that by (auto simp: from_log_def word_less_nat_alt)
  have "sorted_wrt (\<lambda>a b. fst a < fst b) es" using assms by (simp add: from_log_def sorted_wrt_map)
  moreover have "unat (fst a) - 1 < unat (fst b) - 1" if "a \<in> set es" "fst a < fst b" for a b
    using that pos(1) [of "fst a" "snd a"] by (auto simp: word_less_nat_alt)
  ultimately have "sorted_wrt (\<lambda>a b. unat (fst a) - 1 < unat (fst b) - 1) es"
    by (rule sorted_wrt_mono_rel [rotated])
  then have "sorted_wrt (<) ?is" by (simp add: sorted_wrt_map)
  moreover have "set ?is \<subseteq> set [unat pos..<length log]" using pos by fastforce
  ultimately have "subseq ?is [unat pos..<length log]"
    by (intro sorted_subset_imp_subseq) (simp_all add: sorted_wrt_upt)
  then have "subseq (map ((!) log) ?is) (map ((!) log) [unat pos..<length log])" by (rule subseq_map)
  moreover have "map ((!) log) ?is = map snd es" using pos by auto
  moreover have "map ((!) log) [unat pos..<length log] = drop (unat pos) log"
    by (rule nth_equalityI) simp_all
  ultimately show ?thesis by (simp only:)
qed

lemma poll_from_log:
  assumes p: "path (sys_step False) \<sigma>" "\<sigma> 0 = idle_sys w m log" "chan_inv log w m" "chan_sync w m"
  shows "same_geom w r \<Longrightarrow> length dst = unat (rr_payload_bytes r) \<Longrightarrow>
     \<exists>es r' t'. poll r (\<lambda>k. sy_mem (\<sigma> k)) t pauses dst = Some (es, r', t') \<and> t \<le> t' \<and>
       from_log (sy_log (\<sigma> t')) (rr_last_entry_seq r) es"
proof (induction pauses arbitrary: r t dst)
  case Nil
  then show ?case by simp
next
  case (Cons pause pauses)
  let ?v = "\<lambda>k. sy_mem (\<sigma> k)"
  from read_concurrent [OF p Cons.prems, of "t + pause" None, unfolded option.case] obtain res r1 bytes t1 where
    rd: "raw_reader_read_into r ?v (t + pause) dst None = Some (Inr res, r1, bytes, t1)"
    and res: "case res of None \<Rightarrow> r1 = r
      | Some s \<Rightarrow> rr_last_entry_seq r < s \<and> 0 < unat s \<and> unat s \<le> length (sy_log (\<sigma> t1)) \<and>
          bytes = sy_log (\<sigma> t1) ! (unat s - 1) \<and> rr_last_entry_seq r1 = s \<and> same_geom w r1"
    by blast
  have inv: "sys_inv (\<sigma> 0)" using p(2-4) sys_inv_idle by simp
  have g0: "sy_pb (\<sigma> 0) = rr_payload_bytes r" "sy_n (\<sigma> 0) = rr_entry_count r"
    using p(2) Cons.prems(1) by (simp_all add: idle_sys_def same_geom_def)
  from read_into_runs [where v = ?v, OF path_geom(3) [OF p(1) inv, unfolded g0], of "t + pause" dst None] rd
  have t1: "t + pause \<le> t1" "length bytes = length dst" by auto
  have sg: "same_geom w r1" "rr_payload_bytes r1 = rr_payload_bytes r"
    using res Cons.prems(1) by (auto simp: same_geom_def split: option.splits)
  with Cons.IH [of r1 bytes t1] Cons.prems(2) t1(2) obtain es r' t' where
    rest: "poll r1 ?v t1 pauses bytes = Some (es, r', t')" "t1 \<le> t'"
      "from_log (sy_log (\<sigma> t')) (rr_last_entry_seq r1) es" by auto
  obtain l where l: "sy_log (\<sigma> t') = sy_log (\<sigma> t1) @ l"
    using log_grows.stab_path [OF p(1) inv rest(2), of "sy_log (\<sigma> t1)"] by auto
  show ?case
  proof (cases res)
    case None
    with rd res rest t1(1) show ?thesis by simp
  next
    case (Some s)
    with res l have "from_log (sy_log (\<sigma> t')) (rr_last_entry_seq r) ((s, bytes) # es)"
      using rest(3) by (intro from_log_Cons) (auto simp: nth_append)
    with Some rd rest t1(1) show ?thesis by simp
  qed
qed

text \<open>
  C2: A reader that polls a channel in use receives a subsequence of what was written, on condition
  that no zero-copy reader takes a slot between the writer's probe of that slot and the store that
  clears it (\<open>sys_step False\<close>; always so on a channel without a zero-copy reader, and \<open>claim_race\<close>
  shows what happens otherwise). From a channel at rest whose header is in step with its writer, let
  the writer write and the zero-copy reader hold and release entries, in any other interleaving of
  their accesses with those of the polling reader. Polling always returns. The numbers received are
  strictly increasing and above the reader's position, every entry carries exactly the bytes
  committed under its number, and so the entries received are, in this order, a subsequence of the
  entries committed after the reader's position.
\<close>
theorem stream_in_order:
  assumes "path (sys_step False) \<sigma>" "\<sigma> 0 = idle_sys w m log" "chan_inv log w m" "chan_sync w m"
    and "same_geom w r" "length dst = unat (rr_payload_bytes r)"
  shows "\<exists>es r' t'. poll r (\<lambda>k. sy_mem (\<sigma> k)) t pauses dst = Some (es, r', t') \<and>
     sorted_wrt (<) (map fst es) \<and>
     (\<forall>(s, bytes) \<in> set es. rr_last_entry_seq r < s \<and> unat s \<le> length (sy_log (\<sigma> t')) \<and>
        bytes = sy_log (\<sigma> t') ! (unat s - 1)) \<and>
     subseq (map snd es) (drop (unat (rr_last_entry_seq r)) (sy_log (\<sigma> t')))"
proof -
  from poll_from_log [OF assms, of t pauses] obtain es r' t' where
    e: "poll r (\<lambda>k. sy_mem (\<sigma> k)) t pauses dst = Some (es, r', t')"
      "from_log (sy_log (\<sigma> t')) (rr_last_entry_seq r) es" by blast
  from e(1) e(2) [unfolded from_log_def] from_log_subseq [OF e(2)] show ?thesis by blast
qed

theorem stream_in_order_witness:
  "\<exists>es r' t'. poll one_reader rewriting_view 0 [0, 3] (replicate 8 0) = Some (es, r', t') \<and>
     (2, [5, 5, 5, 5, 5, 5, 5, 5]) \<in> set es \<and> sorted_wrt (<) (map fst es) \<and> subseq (map snd es) [replicate 8 9, replicate 8 5]"
proof -
  from stream_in_order [OF rewriting_path rewriting_simps(1) one_written_chan one_sync_written one_reader_geom(1),
      of "replicate 8 0" 0 "[0, 3]"]
  obtain es r' t' where p: "poll one_reader rewriting_view 0 [0, 3] (replicate 8 0) = Some (es, r', t')"
    "sorted_wrt (<) (map fst es)" "subseq (map snd es) (sy_log (rewriting t'))"
    by (auto simp: one_reader_geom rewriting_simps(2))
  obtain r1 t1 where rd: "raw_reader_read_into one_reader rewriting_view 0 (replicate 8 0) None =
      Some (Inr (Some 2), r1, [5, 5, 5, 5, 5, 5, 5, 5], t1)"
    using rewriting_read by auto
  with p(1) have "(2, [5, 5, 5, 5, 5, 5, 5, 5]) \<in> set es" by (auto simp: bind_eq_Some_conv split: prod.splits)
  moreover have "subseq (map snd es) [replicate 8 9, replicate 8 5]"
    using p(3) by (auto simp: rewriting_simps(3) split: if_splits elim: subseq_order.order_trans)
  ultimately show ?thesis using p by blast
qed

subsection \<open>Nothing is passed over\<close>

text \<open>A committed entry that stays in one slot from the moment \<open>t\<close> until before \<open>t'\<close>.\<close>

definition stays :: "raw_reader \<Rightarrow> view \<Rightarrow> nat \<Rightarrow> nat \<Rightarrow> usize \<Rightarrow> u64 \<Rightarrow> bool" where
  "stays r v t t' i x \<longleftrightarrow>
     i < rr_entry_count r \<and> committed x \<and>
     (\<forall>k. t \<le> k \<longrightarrow> k < t' \<longrightarrow> load_u64 (v k) (seq_cell (rr_payload_bytes r) i) = Some x)"

lemma stays_mono: "stays r v t t' i x \<Longrightarrow> t \<le> t1 \<Longrightarrow> t1' \<le> t' \<Longrightarrow> stays r v t1 t1' i x"
  by (auto simp: stays_def)

lemma locate_not_beyond:
  assumes l: "locate r v t wm = Some (loc, t')" and st: "stays r v t t' i x" and x: "wm < x"
  shows "\<exists>j s. loc = Some (j, s) \<and> s \<le> x"
proof -
  let ?is = "usize_range (rr_entry_count r)"
  from l consider (fast) j s where "loc = Some (j, s)" "0 < sint s" "s = saturating_add wm 1"
    | (scan) "locate_scan r v wm ?is (Suc t) None = Some (loc, t')"
    by (auto simp: locate_def Let_def bind_eq_Some_conv split: if_splits)
  then show ?thesis
  proof cases
    case fast
    with saturating_succ(2) [OF fast(2,3) x] show ?thesis by blast
  next
    case scan
    note sc = locate_scan_sound [OF scan]
    have "i \<in> set ?is" using st by (simp add: stays_def set_usize_range)
    then obtain k where k: "k < length ?is" "?is ! k = i" by (auto simp: in_set_conv_nth)
    then have "load_u64 (v (Suc t + k)) (seq_cell (rr_payload_bytes r) (?is ! k)) = Some x"
      using st sc by (simp add: stays_def)
    with sc k(1) x st show ?thesis unfolding scan_spec_def stays_def by blast
  qed
qed

lemma read_loop_not_beyond:
  "read_loop r v wm k t dst = Some (Some s, r', bytes, t') \<Longrightarrow> stays r v t t' i x \<Longrightarrow> wm < x \<Longrightarrow> s \<le> x"
proof (induction k arbitrary: t dst)
  case 0
  then show ?case by simp
next
  case (Suc k)
  let ?pb = "rr_payload_bytes r"
  from Suc.prems(1) obtain j q t1 bs again where
      l: "locate r v t wm = Some (Some (j, q), t1)"
    and rest: "(if again \<noteq> q then read_loop r v wm k (Suc (t1 + unat ?pb)) bs
       else Some (Some q, r\<lparr>rr_last_entry_seq := q, rr_last_read_idx := j\<rparr>, bs, Suc (t1 + unat ?pb))) =
         Some (Some s, r', bytes, t')"
    by (auto simp: bind_eq_Some_conv Let_def split: option.splits)
  note t1 = locate_moments(2) [OF l]
  show ?case
  proof (cases "again = q")
    case True
    with rest have "q = s" "t1 \<le> t'" by auto
    with locate_not_beyond [OF l _ Suc.prems(3)] stays_mono [OF Suc.prems(2)] show ?thesis by blast
  next
    case False
    with rest have "read_loop r v wm k (Suc (t1 + unat ?pb)) bs = Some (Some s, r', bytes, t')" by simp
    moreover have "stays r v (Suc (t1 + unat ?pb)) t' i x" using Suc.prems(2) t1 by (auto elim: stays_mono)
    ultimately show ?thesis using Suc.prems(3) by (rule Suc.IH)
  qed
qed

lemma read_not_beyond:
  fixes fr :: "u64 option"
  assumes "raw_reader_read_into r v t dst fr = Some (Inr (Some s), r', bytes, t')" "stays r v t t' i x"
    and "(case fr of None \<Rightarrow> rr_last_entry_seq r | Some q \<Rightarrow> q) < x"
  shows "s \<le> x"
proof -
  let ?wm = "case fr of None \<Rightarrow> rr_last_entry_seq r | Some q \<Rightarrow> q"
  from assms(1) have "read_loop r v ?wm READ_RETRIES (Suc t) dst = Some (Some s, r', bytes, t')"
    by (auto simp: raw_reader_read_into_def watermark_def bind_eq_Some_conv Let_def split: if_splits option.splits)
  then show ?thesis using stays_mono [OF assms(2)] assms(3) by (rule read_loop_not_beyond) simp_all
qed

lemma read_position:
  assumes g: "\<And>k. seg_geom (rr_payload_bytes r) (rr_entry_count r) (length (v k))"
    and rd: "raw_reader_read_into r v t dst fr = Some (res, r', bytes, t')"
  shows "case res of Inr (Some s) \<Rightarrow> (\<exists>i. r' = r\<lparr>rr_last_entry_seq := s, rr_last_read_idx := i\<rparr>) | _ \<Rightarrow> r' = r"
proof -
  from rd consider (early) "r' = r" "\<forall>s. res \<noteq> Inr (Some s)"
    | (loop) wm q where "read_loop r v wm READ_RETRIES (Suc t) dst = Some (q, r', bytes, t')" "res = Inr q"
    by (auto simp: raw_reader_read_into_def bind_eq_Some_conv split: if_splits option.splits)
  then show ?thesis
  proof cases
    case early
    then show ?thesis by (auto split: sum.splits option.splits)
  next
    case loop
    with read_loop_defined [where v = v, OF g, of wm READ_RETRIES "Suc t" dst]
      read_loop_sound [of r v wm READ_RETRIES "Suc t" dst _ r' bytes t'] show ?thesis
      by (cases q) auto
  qed
qed

lemma poll_moments:
  "(\<And>k. seg_geom (rr_payload_bytes r) (rr_entry_count r) (length (v k))) \<Longrightarrow>
   poll r v t pauses dst = Some (es, r', t') \<Longrightarrow> t \<le> t'"
proof (induction pauses arbitrary: r t dst es)
  case Nil
  then show ?case by simp
next
  case (Cons pause pauses)
  from Cons.prems(2) obtain res r1 bytes t1 es' where
    rd: "raw_reader_read_into r v (t + pause) dst None = Some (res, r1, bytes, t1)"
      "poll r1 v t1 pauses bytes = Some (es', r', t')"
    by (auto simp: bind_eq_Some_conv)
  from read_into_runs [where v = v, OF Cons.prems(1), of "t + pause" dst None] rd(1)
  have "t + pause \<le> t1" "rr_payload_bytes r1 = rr_payload_bytes r" "rr_entry_count r1 = rr_entry_count r" by auto
  with Cons.IH [OF _ rd(2)] Cons.prems(1) show ?case by simp
qed

text \<open>
  C3: Polling passes over no entry that is there. Let the segment have the reader's geometry and change
  arbitrarily. If a committed entry newer than the reader's position stays in its slot from the first
  access of the polling to the last, and the reader was given this entry or a later one, then it was
  given this entry. So what a reader misses was overwritten, held or not yet committed at some moment
  of the polling, although the search makes one access after another and is no snapshot.
\<close>
theorem stream_skips_nothing:
  assumes "\<And>k. seg_geom (rr_payload_bytes r) (rr_entry_count r) (length (v k))"
    and "poll r v t pauses dst = Some (es, r', t')" "stays r v t t' i x" "rr_last_entry_seq r < x"
    and "(s, bytes) \<in> set es" "x \<le> s"
  shows "x \<in> fst ` set es"
  using assms
proof (induction pauses arbitrary: r t dst es)
  case Nil
  then show ?case by simp
next
  case (Cons pause pauses)
  note g = Cons.prems(1)
  from Cons.prems(2) obtain res r1 dst1 t1 es' where
    rd: "raw_reader_read_into r v (t + pause) dst None = Some (res, r1, dst1, t1)"
    and rest: "poll r1 v t1 pauses dst1 = Some (es', r', t')"
    and es: "es = (case res of Inr (Some q) \<Rightarrow> (q, dst1) # es' | _ \<Rightarrow> es')"
    by (auto simp: bind_eq_Some_conv)
  from read_into_runs [where v = v, OF g, of "t + pause" dst None] rd
  have r1: "t + pause \<le> t1" "rr_payload_bytes r1 = rr_payload_bytes r" "rr_entry_count r1 = rr_entry_count r"
    by auto
  have t1: "t1 \<le> t'" using poll_moments [OF _ rest] g r1(2,3) by simp
  have st: "stays r v (t + pause) t1 i x" "stays r1 v t1 t' i x"
    using Cons.prems(3) r1 t1 by (auto simp: stays_def)
  have pos: "case res of Inr (Some q) \<Rightarrow> rr_last_entry_seq r1 = q | _ \<Rightarrow> r1 = r"
    using read_position [where v = v, OF g rd] by (auto split: sum.splits option.splits)
  have IH: "x \<in> fst ` set es'" if "rr_last_entry_seq r1 < x" "(s, bytes) \<in> set es'"
    using Cons.IH [OF _ rest st(2) that Cons.prems(6)] g r1(2,3) by simp
  show ?case
  proof (cases "\<exists>q. res = Inr (Some q)")
    case True
    then obtain q where q: "res = Inr (Some q)" by blast
    with read_not_beyond [OF rd [unfolded q] st(1)] Cons.prems(4) have "q \<le> x" by simp
    with q pos es IH Cons.prems(5,6) show ?thesis by (cases "q = x") auto
  next
    case False
    with pos es IH Cons.prems(4,5) show ?thesis by (auto split: sum.splits option.splits)
  qed
qed

theorem stream_skips_nothing_witness:
  "\<exists>es r' t'. poll demo_reader (still demo_written) 0 [0] (replicate 8 0) = Some (es, r', t') \<and> 1 \<in> fst ` set es"
proof -
  obtain r' t' where rd: "raw_reader_read_into demo_reader (still demo_written) 0 (replicate 8 0) None =
      Some (Inr (Some 1), r', replicate 8 9, t')"
    using read_into_still [OF demo_reader_wf demo_reader_unique, of "replicate 8 0" 0 None]
    by (auto simp: demo_read_next demo_reader_ring demo_written_ring)
  have g: "seg_geom 8 2 (length demo_written)" by (simp add: demo_written_length seg_geom_def)
  have p: "poll demo_reader (still demo_written) 0 [0] (replicate 8 0) = Some ([(1, replicate 8 9)], r', t')"
    using rd by simp
  have "rg_seqs (ring_of 8 2 demo_written) ! 0 = 1" by (simp add: demo_written_ring)
  then have "stays demo_reader (still demo_written) 0 t' 0 1"
    using g by (simp add: stays_def ring_of_def)
  from stream_skips_nothing [OF _ p this, of 1 "replicate 8 9"] g p show ?thesis by simp
qed

end
