(* ===== verification/Zc_Roles.thy ===== *)
theory Zc_Roles
  imports Zc_Layout Zc_Transition
begin

text \<open>
  Process liveness and the exclusive roles of a channel (first half of
  \<open>zerochannel/src/lifecycle.rs\<close>). The operating system's \<open>kill\<close> (and on Windows the process
  functions) are parameters; so are the identifier of the calling process and the liveness test,
  which the claims take as functions.

  A claim runs against other processes, so it takes a view: each of its compare-and-swaps acts on
  the segment as it is at its own moment. The retry loop of the source is unbounded; the model's
  value \<open>None\<close> covers the run that never ends.
\<close>

subsection \<open>Process liveness\<close>

definition EPERM :: nat where "EPERM = 1"

text \<open>\<open>kill p 0\<close> returns nothing on success and the error number on failure.\<close>

definition process_alive :: "(int \<Rightarrow> nat option) \<Rightarrow> u32 \<Rightarrow> bool" where
  "process_alive kill pid =
     (if pid = 0 then False
      else case kill (sint pid) of
             None \<Rightarrow> True
           | Some errno \<Rightarrow> errno = EPERM)"

definition STILL_ACTIVE :: u32 where "STILL_ACTIVE = 259"

text \<open>
  Windows: \<open>open_process\<close> returns a handle or nothing, \<open>exit_code\<close> the exit code of the process
  behind it or nothing on failure.
\<close>

definition process_alive_windows :: "(u32 \<Rightarrow> 'h option) \<Rightarrow> ('h \<Rightarrow> u32 option) \<Rightarrow> u32 \<Rightarrow> bool" where
  "process_alive_windows open_process exit_code pid =
     (if pid = 0 then False
      else case open_process pid of
             None \<Rightarrow> False
           | Some handle \<Rightarrow>
               (case exit_code handle of
                  None \<Rightarrow> False
                | Some code \<Rightarrow> code = STILL_ACTIVE))"

subsection \<open>Claims\<close>

definition squoted :: "string \<Rightarrow> string" where
  "squoted s = CHR 0x27 # s @ [CHR 0x27]"

definition role_conflict :: "string \<Rightarrow> string \<Rightarrow> u64 \<Rightarrow> zc_error" where
  "role_conflict role name holder =
     RoleConflict (''the '' @ role @ '' role on channel '' @ squoted name @
       '' is held by process '' @ show_u64 holder)"

partial_function (option) claim_role ::
    "u64 \<Rightarrow> (u32 \<Rightarrow> bool) \<Rightarrow> view \<Rightarrow> nat \<Rightarrow> usize \<Rightarrow> string \<Rightarrow> string \<Rightarrow>
     (unit zc_result \<times> mem \<times> nat) option" where
  "claim_role me alive v t cell role name =
     do {
       (c, m) \<leftarrow> compare_exchange (v t) cell 0 me;
       case c of
         Inr _ \<Rightarrow> Some (Inr (), m, Suc t)
       | Inl holder \<Rightarrow>
           if alive (ucast holder) then Some (Inl (role_conflict role name holder), m, Suc t)
           else do {
             (c', m') \<leftarrow> compare_exchange (v (Suc t)) cell holder me;
             case c' of
               Inr _ \<Rightarrow> Some (Inr (), m', Suc (Suc t))
             | Inl _ \<Rightarrow> claim_role me alive v (Suc (Suc t)) cell role name
           }
     }"

definition release_role :: "u64 \<Rightarrow> mem \<Rightarrow> usize \<Rightarrow> mem option" where
  "release_role me m cell = map_option snd (compare_exchange m cell me 0)"

partial_function (option) claim_segment ::
    "u64 \<Rightarrow> (u32 \<Rightarrow> bool) \<Rightarrow> view \<Rightarrow> nat \<Rightarrow> usize \<Rightarrow> (bool \<times> mem \<times> nat) option" where
  "claim_segment me alive v t cell =
     do {
       (c, m) \<leftarrow> compare_exchange (v t) cell 0 me;
       case c of
         Inr _ \<Rightarrow> Some (True, m, Suc t)
       | Inl holder \<Rightarrow>
           if holder = me \<or> alive (ucast holder) then Some (False, m, Suc t)
           else do {
             (c', m') \<leftarrow> compare_exchange (v (Suc t)) cell holder me;
             case c' of
               Inr _ \<Rightarrow> Some (True, m', Suc (Suc t))
             | Inl _ \<Rightarrow> claim_segment me alive v (Suc (Suc t)) cell
           }
     }"

subsection \<open>What a claim does\<close>

text \<open>
  The interface of a role: a word of the header. The claim's effect is one compare-and-swap, at the
  last moment of its run, on a cell that is free or whose holder is dead; so a claim among other
  processes has the effect of a claim that runs alone at that moment.
\<close>

definition claim_spec ::
    "u64 \<Rightarrow> (u32 \<Rightarrow> bool) \<Rightarrow> view \<Rightarrow> nat \<Rightarrow> usize \<Rightarrow> string \<Rightarrow> string \<Rightarrow> unit zc_result \<times> mem \<times> nat \<Rightarrow> bool" where
  "claim_spec me alive v t cell role name = (\<lambda>(res, m', t').
     \<exists>k. t \<le> k \<and> t' = Suc k \<and>
       (case res of
          Inr u \<Rightarrow> m' = set_hdr (v k) cell me \<and>
            (hdr_at (v k) cell = 0 \<or> \<not> alive (ucast (hdr_at (v k) cell)))
        | Inl e \<Rightarrow> m' = v k \<and> hdr_at (v k) cell \<noteq> 0 \<and> alive (ucast (hdr_at (v k) cell)) \<and>
            e = role_conflict role name (hdr_at (v k) cell)))"

lemma claim_role_spec:
  assumes "claim_role me alive v t cell role name = Some y"
  shows "hdr_off cell \<longrightarrow> (\<forall>k. 72 \<le> length (v k)) \<longrightarrow> claim_spec me alive v t cell role name y"
proof (rule claim_role.raw_induct [OF _ assms], intro impI)
  fix claim and me :: u64 and alive :: "u32 \<Rightarrow> bool" and v :: view and t cell role name y
  assume IH: "\<And>me alive v t cell role name y. claim me alive v t cell role name = Some y \<Longrightarrow>
      hdr_off cell \<longrightarrow> (\<forall>k. 72 \<le> length (v k)) \<longrightarrow> claim_spec me alive v t cell role name y"
    and run: "do {
       (c, m) \<leftarrow> compare_exchange (v t) cell 0 me;
       case c of
         Inl holder \<Rightarrow>
           if alive (ucast holder) then Some (Inl (role_conflict role name holder), m, Suc t)
           else do {
             (c', m') \<leftarrow> compare_exchange (v (Suc t)) cell holder me;
             case c' of
               Inl _ \<Rightarrow> claim me alive v (Suc (Suc t)) cell role name
             | Inr _ \<Rightarrow> Some (Inr (), m', Suc (Suc t))
           }
       | Inr _ \<Rightarrow> Some (Inr (), m, Suc t)
     } = Some y"
    and hdr: "hdr_off cell" and len: "\<forall>k. 72 \<le> length (v k)"
  note cas = cas_hdr [OF spec [OF len] hdr]
  let ?c = "hdr_at (v t) cell" and ?c' = "hdr_at (v (Suc t)) cell"
  consider "?c = 0 \<or> alive (ucast ?c)" | "?c \<noteq> 0" "\<not> alive (ucast ?c)" "?c' = ?c"
    | "?c \<noteq> 0" "\<not> alive (ucast ?c)" "?c' \<noteq> ?c" by blast
  then show "claim_spec me alive v t cell role name y"
  proof cases
    case 1
    with run show ?thesis by (auto simp: cas claim_spec_def split: if_splits)
  next
    case 2
    with run show ?thesis by (auto simp: cas claim_spec_def intro!: exI [of _ "Suc t"])
  next
    case 3
    with run have "claim me alive v (Suc (Suc t)) cell role name = Some y" by (simp add: cas)
    with IH hdr len have "claim_spec me alive v (Suc (Suc t)) cell role name y" by blast
    then show ?thesis by (force simp: claim_spec_def)
  qed
qed

locale role_cell =
  fixes cell :: usize
  assumes hdr: "hdr_off cell"
begin

lemma claim_alone:
  assumes "72 \<le> length m"
  shows "claim_role me alive (still m) t cell role name =
     Some (if hdr_at m cell = 0 then (Inr (), set_hdr m cell me, Suc t)
           else if alive (ucast (hdr_at m cell))
           then (Inl (role_conflict role name (hdr_at m cell)), m, Suc t)
           else (Inr (), set_hdr m cell me, Suc (Suc t)))"
  using assms hdr by (subst claim_role.simps) auto

lemma claim_linear:
  assumes "claim_role me alive v t cell role name = Some (res, m', t')" "\<And>k. 72 \<le> length (v k)"
  shows "claim_spec me alive v t cell role name (res, m', t')"
  using claim_role_spec [OF assms(1)] hdr assms(2) by simp

lemma claim_returns:
  assumes "\<And>k. 72 \<le> length (v k)" "\<And>k. T \<le> k \<Longrightarrow> hdr_at (v k) cell = c"
  shows "\<exists>res. claim_role me alive v t cell role name = Some res"
proof (induction "T - t" arbitrary: t rule: less_induct)
  case less
  let ?c = "hdr_at (v t) cell" and ?c' = "hdr_at (v (Suc t)) cell"
  show ?case
  proof (cases "T \<le> t \<or> ?c = 0 \<or> alive (ucast ?c)")
    case True
    with assms(2) [of t] assms(2) [of "Suc t"] assms(1) [of t] assms(1) [of "Suc t"] hdr
    show ?thesis by (subst claim_role.simps) auto
  next
    case False
    then have "\<exists>res. claim_role me alive v (Suc (Suc t)) cell role name = Some res"
      by (intro less) auto
    with False assms(1) [of t] assms(1) [of "Suc t"] hdr show ?thesis
      by (subst claim_role.simps) auto
  qed
qed

lemma release_own:
  assumes "72 \<le> length m"
  shows "release_role me m cell = Some (if hdr_at m cell = me then set_hdr m cell 0 else m)"
  using assms hdr by (simp add: release_role_def)

end

subsection \<open>Exclusivity\<close>

text \<open>
  The life of a role: processes claim it (the claim may have been running for any time among other
  accesses; it takes effect now), release it and die, and the rest of the segment changes. A
  process that died does not come back: identifiers are not reused. The set of holders are the
  processes whose claim succeeded and that have not released it since.
\<close>

record role_sys =
  rs_mem :: mem
  rs_alive :: "u32 set"
  rs_holders :: "u32 set"

inductive role_step :: "usize \<Rightarrow> role_sys \<Rightarrow> role_sys \<Rightarrow> bool" for cell where
  claim:
    "p \<in> rs_alive s \<Longrightarrow> p \<noteq> 0 \<Longrightarrow> \<forall>k. 72 \<le> length (v k) \<Longrightarrow>
     claim_role (ucast p) (\<lambda>q. q \<in> rs_alive s) v t cell role name = Some (Inr (), m', t') \<Longrightarrow>
     v (t' - 1) = rs_mem s \<Longrightarrow>
     role_step cell s (s\<lparr>rs_mem := m', rs_holders := insert p (rs_holders s)\<rparr>)"
| release:
    "p \<in> rs_holders s \<Longrightarrow> p \<in> rs_alive s \<Longrightarrow> release_role (ucast p) (rs_mem s) cell = Some m' \<Longrightarrow>
     role_step cell s (s\<lparr>rs_mem := m', rs_holders := rs_holders s - {p}\<rparr>)"
| die: "role_step cell s (s\<lparr>rs_alive := rs_alive s - {p}\<rparr>)"
| other:
    "length m' = length (rs_mem s) \<Longrightarrow> hdr_at m' cell = hdr_at (rs_mem s) cell \<Longrightarrow>
     role_step cell s (s\<lparr>rs_mem := m'\<rparr>)"

inductive_cases role_stepE: "role_step cell s s'"

definition role_inv :: "usize \<Rightarrow> role_sys \<Rightarrow> bool" where
  "role_inv cell s \<longleftrightarrow>
     72 \<le> length (rs_mem s) \<and>
     (\<forall>p \<in> rs_holders s \<inter> rs_alive s. p \<noteq> 0 \<and> hdr_at (rs_mem s) cell = ucast p)"

lemma ucast_u32_u64 [simp]:
  "ucast (ucast (p :: u32) :: u64) = p" "(ucast p :: u64) = ucast q \<longleftrightarrow> p = (q :: u32)"
  "(ucast p :: u64) = 0 \<longleftrightarrow> p = 0"
proof -
  show 1: "ucast (ucast (p :: u32) :: u64) = p" for p :: u32
    by transfer simp
  show "(ucast p :: u64) = ucast q \<longleftrightarrow> p = (q :: u32)" by (metis 1)
  show "(ucast p :: u64) = 0 \<longleftrightarrow> p = 0" by (metis 1 unsigned_0)
qed

context role_cell
begin

lemma inv_claim:
  assumes inv: "role_inv cell s" and p: "p \<in> rs_alive s" "p \<noteq> 0" and len: "\<forall>k. 72 \<le> length (v k)"
    and cl: "claim_role (ucast p) (\<lambda>q. q \<in> rs_alive s) v t cell role name = Some (Inr (), m', t')"
    and now: "v (t' - 1) = rs_mem s"
  shows "role_inv cell (s\<lparr>rs_mem := m', rs_holders := insert p (rs_holders s)\<rparr>)"
proof -
  from claim_linear [OF cl] len now have m': "m' = set_hdr (rs_mem s) cell (ucast p)"
    and free: "hdr_at (rs_mem s) cell = 0 \<or> ucast (hdr_at (rs_mem s) cell) \<notin> rs_alive s"
    by (auto simp: claim_spec_def)
  have none: "q \<notin> rs_holders s \<inter> rs_alive s" for q
  proof
    assume q: "q \<in> rs_holders s \<inter> rs_alive s"
    with inv have "q \<noteq> 0" "hdr_at (rs_mem s) cell = ucast q" by (auto simp: role_inv_def)
    with free q show False by auto
  qed
  have 72: "72 \<le> length (rs_mem s)" using inv by (simp add: role_inv_def)
  with none p hdr show ?thesis by (auto simp: role_inv_def m' hdr_at_set_hdr)
qed

lemma inv_release:
  assumes inv: "role_inv cell s" and p: "p \<in> rs_holders s" "p \<in> rs_alive s"
    and rel: "release_role (ucast p) (rs_mem s) cell = Some m'"
  shows "role_inv cell (s\<lparr>rs_mem := m', rs_holders := rs_holders s - {p}\<rparr>)"
proof -
  have 72: "72 \<le> length (rs_mem s)" and c: "hdr_at (rs_mem s) cell = ucast p"
    using inv p by (auto simp: role_inv_def)
  with rel release_own have m': "m' = set_hdr (rs_mem s) cell 0" by simp
  have "q = p" if "q \<in> rs_holders s \<inter> rs_alive s" for q
    using inv that c by (auto simp: role_inv_def)
  with 72 hdr show ?thesis by (auto simp: role_inv_def m')
qed

lemma inv_role_step: "role_inv cell s \<Longrightarrow> role_step cell s s' \<Longrightarrow> role_inv cell s'"
proof (erule role_stepE, goal_cases)
  case (1 p v t role name m' t')
  with inv_claim [OF 1(1,3-6)] show ?case by simp
next
  case (2 p m')
  then show ?case using inv_release by blast
qed (auto simp: role_inv_def)

end

sublocale role_cell \<subseteq> step_invariant "role_step cell" "role_inv cell"
  by unfold_locales (rule inv_role_step)

interpretation writer_role: role_cell writer_owner
  by unfold_locales simp

interpretation zc_role: role_cell zc_reader_owner
  by unfold_locales simp

text \<open>
  C6: A role is exclusive. Start from a segment whose role cell is free, and let processes claim
  the writer role (or the zero-copy reader role) concurrently, release it, and crash at any time,
  so that claims of dead processes are adopted. In every reachable state at most one live process
  holds the role, and the cell names it.
\<close>
theorem role_exclusive:
  assumes "cell = writer_owner \<or> cell = zc_reader_owner"
    and "72 \<le> length m" "load_u64 m cell = Some 0"
    and "(role_step cell)\<^sup>*\<^sup>* \<lparr>rs_mem = m, rs_alive = A, rs_holders = {}\<rparr> s"
    and "p \<in> rs_holders s \<inter> rs_alive s" "q \<in> rs_holders s \<inter> rs_alive s"
  shows "p = q \<and> load_u64 (rs_mem s) cell = Some (ucast p)"
proof -
  have init: "role_inv cell \<lparr>rs_mem = m, rs_alive = A, rs_holders = {}\<rparr>"
    using assms(2) by (simp add: role_inv_def)
  have "role_inv cell s"
    using assms(1,4) init writer_role.inv_star zc_role.inv_star by blast
  then have "72 \<le> length (rs_mem s)" "hdr_at (rs_mem s) cell = ucast p" "hdr_at (rs_mem s) cell = ucast q"
    using assms(5,6) unfolding role_inv_def by blast+
  moreover from this(2,3) have "(ucast p :: u64) = ucast q" by simp
  ultimately show ?thesis using assms(1) by auto
qed

text \<open>
  C17: A claim among other processes. Whatever the others do to the cell between the claim's
  accesses, a claim that returns has the effect of one compare-and-swap at its last moment: it
  succeeds only on a cell that is free or whose holder is dead, and stores the claimant there; it
  is refused only because of a live holder, named in the error, and then changes nothing. It never
  evicts a live holder, and it returns as soon as the cell stops changing.
\<close>
theorem claim_role_linearizable:
  assumes "cell = writer_owner \<or> cell = zc_reader_owner" "\<forall>k. 72 \<le> length (v k)"
  shows "(claim_role me alive v t cell role name = Some (Inr (), m', t') \<longrightarrow>
       (\<exists>k. t \<le> k \<and> t' = Suc k \<and> m' = set_hdr (v k) cell me \<and>
          (hdr_at (v k) cell = 0 \<or> \<not> alive (ucast (hdr_at (v k) cell))))) \<and>
     (claim_role me alive v t cell role name = Some (Inl e, m', t') \<longrightarrow>
       (\<exists>k. t \<le> k \<and> t' = Suc k \<and> m' = v k \<and> alive (ucast (hdr_at (v k) cell)) \<and>
          e = role_conflict role name (hdr_at (v k) cell))) \<and>
     ((\<exists>T c. \<forall>k \<ge> T. hdr_at (v k) cell = c) \<longrightarrow>
       (\<exists>res. claim_role me alive v t cell role name = Some res))"
proof (intro conjI impI)
  have c: "claim_role me alive v t cell role name = Some (res, m', t') \<Longrightarrow>
      claim_spec me alive v t cell role name (res, m', t')" for res
    using assms writer_role.claim_linear zc_role.claim_linear by blast
  show "\<exists>k. t \<le> k \<and> t' = Suc k \<and> m' = set_hdr (v k) cell me \<and>
          (hdr_at (v k) cell = 0 \<or> \<not> alive (ucast (hdr_at (v k) cell)))"
    if "claim_role me alive v t cell role name = Some (Inr (), m', t')"
    using c [OF that] by (simp add: claim_spec_def)
  show "\<exists>k. t \<le> k \<and> t' = Suc k \<and> m' = v k \<and> alive (ucast (hdr_at (v k) cell)) \<and>
          e = role_conflict role name (hdr_at (v k) cell)"
    if "claim_role me alive v t cell role name = Some (Inl e, m', t')"
    using c [OF that] by (auto simp: claim_spec_def)
  assume "\<exists>T c. \<forall>k \<ge> T. hdr_at (v k) cell = c"
  then obtain T c where T: "\<And>k. T \<le> k \<Longrightarrow> hdr_at (v k) cell = c" by blast
  have len: "72 \<le> length (v k)" for k using assms(2) by simp
  from assms(1) show "\<exists>res. claim_role me alive v t cell role name = Some res"
  proof
    assume e: "cell = writer_owner"
    show ?thesis unfolding e by (rule writer_role.claim_returns [OF len T [unfolded e]])
  next
    assume e: "cell = zc_reader_owner"
    show ?thesis unfolding e by (rule zc_role.claim_returns [OF len T [unfolded e]])
  qed
qed

text \<open>Two processes and a fresh header, for the witnesses.\<close>

definition free_mem :: mem where "free_mem = initialized 8 1 U8 1 (replicate 88 0)"

lemma free_mem_facts:
  "length free_mem = 88" "hdr_at free_mem 40 = 0" "hdr_at free_mem 48 = 0"
proof -
  have g: "seg_geom 8 1 (length (replicate 88 (0 :: byte)))" by (simp add: seg_geom_def)
  show "length free_mem = 88" "hdr_at free_mem 40 = 0" "hdr_at free_mem 48 = 0"
    by (simp_all add: free_mem_def initialized_views [OF g])
qed

lemma free_claim:
  "claim_role 7 (\<lambda>q. q \<in> {7, 9}) (still free_mem) 0 writer_owner role name =
     Some (Inr (), set_hdr free_mem 40 7, Suc 0)"
  using writer_role.claim_alone [of free_mem 7 "\<lambda>q. q \<in> {7, 9}" 0 role name] by (simp add: free_mem_facts)

theorem role_exclusive_witness:
  "load_u64 (set_hdr free_mem 40 7) writer_owner = Some 7"
proof -
  have "role_step writer_owner \<lparr>rs_mem = free_mem, rs_alive = {7, 9}, rs_holders = {}\<rparr>
      \<lparr>rs_mem = set_hdr free_mem 40 7, rs_alive = {7, 9}, rs_holders = {7}\<rparr>"
    using role_step.claim [of 7 "\<lparr>rs_mem = free_mem, rs_alive = {7, 9}, rs_holders = {}\<rparr>" "still free_mem" 0
        writer_owner "''writer''" "''c''" "set_hdr free_mem 40 7" "Suc 0"]
      free_claim [of "''writer''" "''c''"] by (simp add: free_mem_facts)
  from role_exclusive [OF disjI1 [OF refl] _ _ r_into_rtranclp [of "role_step writer_owner", OF this], of 7 7]
  show ?thesis by (simp add: free_mem_facts)
qed

theorem claim_role_linearizable_witness:
  "\<exists>k. set_hdr free_mem 40 7 = set_hdr (still free_mem k) writer_owner 7 \<and> hdr_at (still free_mem k) writer_owner = 0"
  using claim_role_linearizable [of writer_owner "still free_mem" 7 "\<lambda>q. q \<in> {7, 9}" 0 "''writer''" "''c''"
      "set_hdr free_mem 40 7" "Suc 0"] free_claim [of "''writer''" "''c''"]
  by (simp add: free_mem_facts)

text \<open>
  A claim and a release on a cell nobody else touches, on every branch. A free cell is taken; a
  cell whose holder is alive is refused and unchanged, even when the holder is the claimant's own
  process; a cell whose holder is dead is adopted. A release clears the cell if the releaser still
  holds it and is otherwise a no-op, so a late release cannot evict the process that adopted it.
\<close>
theorem claim_release_alone:
  assumes "cell = writer_owner \<or> cell = zc_reader_owner" "72 \<le> length m"
  shows "(\<exists>t'. claim_role me alive (still m) t cell role name =
       Some (if hdr_at m cell \<noteq> 0 \<and> alive (ucast (hdr_at m cell))
             then (Inl (role_conflict role name (hdr_at m cell)), m, t')
             else (Inr (), set_hdr m cell me, t'))) \<and>
     release_role me m cell = Some (if hdr_at m cell = me then set_hdr m cell 0 else m) \<and>
     (hdr_at m cell = 0 \<longrightarrow> release_role me (set_hdr m cell me) cell = Some m)"
proof -
  have h: "hdr_off cell" using assms(1) by auto
  have "\<exists>t'. claim_role me alive (still m) t cell role name =
       Some (if hdr_at m cell \<noteq> 0 \<and> alive (ucast (hdr_at m cell))
             then (Inl (role_conflict role name (hdr_at m cell)), m, t')
             else (Inr (), set_hdr m cell me, t'))"
  proof -
    let ?c = "hdr_at m cell"
    have "claim_role me alive (still m) t cell role name =
       Some (if ?c = 0 then (Inr (), set_hdr m cell me, Suc t)
             else if alive (ucast ?c) then (Inl (role_conflict role name ?c), m, Suc t)
             else (Inr (), set_hdr m cell me, Suc (Suc t)))"
      using assms(1) writer_role.claim_alone [OF assms(2)] zc_role.claim_alone [OF assms(2)] by blast
    then show ?thesis by (cases "?c = 0"; cases "alive (ucast ?c)") simp_all
  qed
  moreover have "hdr_at (set_hdr m cell me) cell = me" "set_hdr (set_hdr m cell me) cell (hdr_at m cell) = m"
    using assms(2) h hdr_off_end [OF h]
    by (simp_all add: hdr_at_set_hdr) (simp add: set_hdr_def hdr_at_def poke_poke_same poke_word_at_same)
  ultimately show ?thesis
    using assms h by (auto simp: release_role_def)
qed

theorem claim_release_alone_witness:
  "(\<exists>t'. claim_role 9 (\<lambda>q. q = 9) (still (set_hdr free_mem 40 7)) 0 writer_owner ''writer'' ''c'' =
      Some (Inr (), set_hdr (set_hdr free_mem 40 7) 40 9, t')) \<and>
   release_role 7 (set_hdr free_mem 40 9) writer_owner = Some (set_hdr free_mem 40 9)"
  using claim_release_alone [of writer_owner "set_hdr free_mem 40 7" 9 "\<lambda>q. q = 9" 0 "''writer''" "''c''"]
    claim_release_alone [of writer_owner "set_hdr free_mem 40 9" 7 "\<lambda>q. q = 9" 0 "''writer''" "''c''"]
  by (simp add: free_mem_facts hdr_at_set_hdr)

subsection \<open>The deed\<close>

lemma claim_segment_alone:
  assumes "72 \<le> length m" "hdr_off cell"
  shows "claim_segment me alive (still m) t cell =
     Some (if hdr_at m cell = 0 then (True, set_hdr m cell me, Suc t)
           else if hdr_at m cell = me \<or> alive (ucast (hdr_at m cell)) then (False, m, Suc t)
           else (True, set_hdr m cell me, Suc (Suc t)))"
  using assms by (subst claim_segment.simps) auto

end
