(* ===== verification/Zc_Lifecycle.thy ===== *)
theory Zc_Lifecycle
  imports Zc_Roles
begin

text \<open>
  Naming, mapping and ownership of segments (second half of \<open>zerochannel/src/lifecycle.rs\<close>).

  The \<open>shared_memory\<close> crate is a parameter: the record \<open>shmem_api\<close> has one field per function of it
  that the source calls, over an abstract state of the operating system and an abstract type of
  mappings (\<open>Shmem\<close>). \<open>shmem_ok\<close> is what its documentation promises. A \<open>Shmem\<close> that goes out of
  scope is dropped; the drops that Rust inserts on the early returns are written out.

  The functions here run without interference from other processes; the races between them are
  decided by \<open>create\<close> and by the compare-and-swap claims.
\<close>

subsection \<open>The shared-memory library\<close>

datatype 'h created = Created 'h | MappingIdExists | CreateFailed string

record ('os, 'h) shmem_api =
  sm_create :: "string \<Rightarrow> usize \<Rightarrow> 'os \<Rightarrow> 'h created \<times> 'os"
  sm_open :: "string \<Rightarrow> 'os \<Rightarrow> 'h option"
  sm_get :: "'h \<Rightarrow> 'os \<Rightarrow> mem"
  sm_put :: "'h \<Rightarrow> mem \<Rightarrow> 'os \<Rightarrow> 'os"
  sm_set_owner :: "bool \<Rightarrow> 'h \<Rightarrow> 'h"
  sm_drop :: "'h \<Rightarrow> 'os \<Rightarrow> 'os"
  sm_is_owner :: "'h \<Rightarrow> bool"
  sm_name :: "'h \<Rightarrow> string"
  sm_seg :: "'h \<Rightarrow> nat"
  sm_find :: "string \<Rightarrow> 'os \<Rightarrow> nat option"

text \<open>
  The documented behaviour. \<open>create\<close> binds a free name to a new zero-filled mapping of the given
  size, whose creator owns it, or fails; a taken name is reported. \<open>open\<close> maps the segment a name is
  bound to, as a non-owner, or fails. Dropping a mapping removes its name exactly if it is an owner.
  All mappings of one segment see the same bytes.
\<close>

fun created_ok :: "('os, 'h) shmem_api \<Rightarrow> string \<Rightarrow> usize \<Rightarrow> 'os \<Rightarrow> 'os \<Rightarrow> 'h created \<Rightarrow> bool" where
  "created_ok api name sz os os' MappingIdExists \<longleftrightarrow> False"
| "created_ok api name sz os os' (CreateFailed e) \<longleftrightarrow> os' = os"
| "created_ok api name sz os os' (Created h) \<longleftrightarrow>
     sm_name api h = name \<and> sm_is_owner api h \<and>
     sm_find api name os' = Some (sm_seg api h) \<and>
     sm_get api h os' = replicate (unat sz) 0 \<and>
     (\<forall>other. other \<noteq> name \<longrightarrow> sm_find api other os' = sm_find api other os) \<and>
     (\<forall>h'. sm_seg api h' \<noteq> sm_seg api h \<longrightarrow> sm_get api h' os' = sm_get api h' os)"

definition create_ok :: "('os, 'h) shmem_api \<Rightarrow> bool" where
  "create_ok api \<longleftrightarrow>
     (\<forall>name sz os k. sm_find api name os = Some k \<longrightarrow> sm_create api name sz os = (MappingIdExists, os)) \<and>
     (\<forall>name sz os r os'. sm_find api name os = None \<longrightarrow> sm_create api name sz os = (r, os') \<longrightarrow>
        created_ok api name sz os os' r)"

definition open_ok :: "('os, 'h) shmem_api \<Rightarrow> bool" where
  "open_ok api \<longleftrightarrow>
     (\<forall>name os. sm_find api name os = None \<longrightarrow> sm_open api name os = None) \<and>
     (\<forall>name os h. sm_open api name os = Some h \<longrightarrow>
        sm_find api name os = Some (sm_seg api h) \<and> sm_name api h = name \<and> \<not> sm_is_owner api h)"

definition drop_ok :: "('os, 'h) shmem_api \<Rightarrow> bool" where
  "drop_ok api \<longleftrightarrow>
     (\<forall>h os name. sm_find api name (sm_drop api h os) =
        (if sm_is_owner api h \<and> name = sm_name api h then None else sm_find api name os)) \<and>
     (\<forall>h os h'. sm_get api h' (sm_drop api h os) = sm_get api h' os) \<and>
     (\<forall>h b. sm_is_owner api (sm_set_owner api b h) = b \<and> sm_name api (sm_set_owner api b h) = sm_name api h \<and>
        sm_seg api (sm_set_owner api b h) = sm_seg api h)"

definition bytes_ok :: "('os, 'h) shmem_api \<Rightarrow> bool" where
  "bytes_ok api \<longleftrightarrow>
     (\<forall>h h' m os. sm_get api h' (sm_put api h m os) =
        (if sm_seg api h' = sm_seg api h then m else sm_get api h' os)) \<and>
     (\<forall>h h' os. sm_seg api h' = sm_seg api h \<longrightarrow> sm_get api h' os = sm_get api h os) \<and>
     (\<forall>h m os name. sm_find api name (sm_put api h m os) = sm_find api name os) \<and>
     (\<forall>h os. sm_put api h (sm_get api h os) os = os)"

definition shmem_ok :: "('os, 'h) shmem_api \<Rightarrow> bool" where
  "shmem_ok api \<longleftrightarrow> create_ok api \<and> open_ok api \<and> drop_ok api \<and> bytes_ok api"

subsection \<open>Opening and creating\<close>

definition try_open :: "('os, 'h) shmem_api \<Rightarrow> string \<Rightarrow> 'os \<Rightarrow> 'h option" where
  "try_open api name os = sm_open api name os"

definition header_of :: "('os, 'h) shmem_api \<Rightarrow> 'h \<Rightarrow> 'os \<Rightarrow> (header option) zc_result option" where
  "header_of api h os = read_header (sm_get api h os)"

definition init_segment ::
    "('os, 'h) shmem_api \<Rightarrow> u64 \<Rightarrow> 'h \<Rightarrow> usize \<Rightarrow> usize \<Rightarrow> dtype \<Rightarrow> 'os \<Rightarrow> 'os option" where
  "init_segment api me h payload_bytes entry_count dt os =
     do {
       m \<leftarrow> init_header (sm_get api h os) payload_bytes entry_count dt me;
       Some (sm_put api h m os)
     }"

definition create_segment ::
    "('os, 'h) shmem_api \<Rightarrow> u64 \<Rightarrow> string \<Rightarrow> usize \<Rightarrow> usize \<Rightarrow> dtype \<Rightarrow> 'os \<Rightarrow>
     (('h option) zc_result \<times> 'os) option" where
  "create_segment api me name payload_bytes entry_count dt os =
     (let size = required_bytes payload_bytes entry_count in
      case sm_create api name size os of
        (MappingIdExists, os) \<Rightarrow> Some (Inr None, os)
      | (CreateFailed e, os) \<Rightarrow>
          Some (Inl (OsError (''failed to create shared memory: '' @ e)), os)
      | (Created shmem, os) \<Rightarrow>
          do {
            os \<leftarrow> init_segment api me shmem payload_bytes entry_count dt os;
            Some (Inr (Some shmem), os)
          })"

text \<open>The second pass: an existing segment, mapped as \<open>shmem\<close>.\<close>

definition adopt_existing ::
    "('os, 'h) shmem_api \<Rightarrow> u64 \<Rightarrow> (u32 \<Rightarrow> bool) \<Rightarrow> string \<Rightarrow> usize \<Rightarrow> usize \<Rightarrow> dtype \<Rightarrow> 'h \<Rightarrow> 'os \<Rightarrow>
     ((('h \<times> header) option) zc_result \<times> 'os) option" where
  "adopt_existing api me alive name pb tc dt shmem os =
     do {
       r \<leftarrow> header_of api shmem os;
       case r of
         Inl e \<Rightarrow> Some (Inl e, sm_drop api shmem os)
       | Inr (Some header) \<Rightarrow>
           (case validate_header header pb tc of
              Inl e \<Rightarrow> Some (Inl e, sm_drop api shmem os)
            | Inr _ \<Rightarrow>
                (case check_dtype header dt of
                   Inl e \<Rightarrow> Some (Inl e, sm_drop api shmem os)
                 | Inr _ \<Rightarrow>
                     do {
                       (won, m, t) \<leftarrow> claim_segment me alive (still (sm_get api shmem os)) 0 segment_owner;
                       Some (Inr (Some (sm_set_owner api won shmem, header)), sm_put api shmem m os)
                     }))
       | Inr None \<Rightarrow>
           if length (sm_get api shmem os) < unat (required_bytes pb tc)
           then Some (Inl (InvalidArgument (''abandoned segment '' @ squoted name @
                  '' is too small for the requested geometry'')), sm_drop api shmem os)
           else do {
             os \<leftarrow> init_segment api me shmem pb tc dt os;
             r \<leftarrow> header_of api shmem os;
             case r of
               Inl e \<Rightarrow> Some (Inl e, sm_drop api shmem os)
             | Inr None \<Rightarrow>
                 Some (Inl (OsError ''segment has no header after init''), sm_drop api shmem os)
             | Inr (Some header) \<Rightarrow> Some (Inr (Some (sm_set_owner api True shmem, header)), os)
           }
     }"

definition try_attach ::
    "('os, 'h) shmem_api \<Rightarrow> string \<Rightarrow> dtype \<Rightarrow> 'os \<Rightarrow> ((('h \<times> header) option) zc_result \<times> 'os) option" where
  "try_attach api name dt os =
     (case try_open api name os of
        None \<Rightarrow> Some (Inr None, os)
      | Some shmem \<Rightarrow>
          do {
            r \<leftarrow> header_of api shmem os;
            case r of
              Inl e \<Rightarrow> Some (Inl e, sm_drop api shmem os)
            | Inr None \<Rightarrow> Some (Inr None, sm_drop api shmem os)
            | Inr (Some header) \<Rightarrow>
                if hdr_payload_bytes header = 0 \<or> hdr_entry_count header = 0
                then Some (Inr None, sm_drop api shmem os)
                else (case check_dtype header dt of
                        Inl e \<Rightarrow> Some (Inl e, sm_drop api shmem os)
                      | Inr _ \<Rightarrow> Some (Inr (Some (shmem, header)), os))
          })"

definition open_or_create ::
    "('os, 'h) shmem_api \<Rightarrow> u64 \<Rightarrow> (u32 \<Rightarrow> bool) \<Rightarrow> string \<Rightarrow> usize option \<Rightarrow> usize option \<Rightarrow> dtype \<Rightarrow> bool \<Rightarrow>
     'os \<Rightarrow> ((('h \<times> header) option) zc_result \<times> 'os) option" where
  "open_or_create api me alive name payload_bytes entry_count dt delayed_connect os =
     (case (payload_bytes, entry_count) of
        (Some pb, Some tc) \<Rightarrow>
          (case check_geometry pb tc of
             Inl e \<Rightarrow> Some (Inl e, os)
           | Inr _ \<Rightarrow>
               do {
                 (r, os) \<leftarrow> create_segment api me name pb tc dt os;
                 case r of
                   Inl e \<Rightarrow> Some (Inl e, os)
                 | Inr (Some shmem) \<Rightarrow>
                     do {
                       r \<leftarrow> header_of api shmem os;
                       case r of
                         Inl e \<Rightarrow> Some (Inl e, sm_drop api shmem os)
                       | Inr None \<Rightarrow>
                           Some (Inl (OsError ''freshly created segment has no header''),
                             sm_drop api shmem os)
                       | Inr (Some header) \<Rightarrow> Some (Inr (Some (shmem, header)), os)
                     }
                 | Inr None \<Rightarrow>
                     (case try_open api name os of
                        None \<Rightarrow>
                          Some (Inl (OsError (''shared memory segment '' @ squoted name @
                            '' exists but could not be opened'')), os)
                      | Some shmem \<Rightarrow> adopt_existing api me alive name pb tc dt shmem os)
               })
      | (None, None) \<Rightarrow>
          do {
            (r, os) \<leftarrow> try_attach api name dt os;
            case r of
              Inl e \<Rightarrow> Some (Inl e, os)
            | Inr (Some pair) \<Rightarrow> Some (Inr (Some pair), os)
            | Inr None \<Rightarrow>
                if delayed_connect then Some (Inr None, os)
                else Some (Inl (OsError
                  ''shared memory segment does not exist and sizes were not supplied''), os)
          }
      | _ \<Rightarrow>
          Some (Inl (InvalidArgument
            ''entry_length and entry_count must both be supplied or both omitted''), os))"

definition unlink :: "('os, 'h) shmem_api \<Rightarrow> string \<Rightarrow> 'os \<Rightarrow> unit zc_result \<times> 'os" where
  "unlink api name os =
     (case try_open api name os of
        None \<Rightarrow> (Inr (), os)
      | Some shmem \<Rightarrow> (Inr (), sm_drop api (sm_set_owner api True shmem) os))"

lemmas [open_defs] = try_open_def header_of_def try_attach_def open_or_create_def

subsection \<open>A simulated operating system\<close>

text \<open>An implementation of the library interface in memory, which shows that \<open>shmem_ok\<close> can hold.\<close>

record sim_os =
  so_names :: "string \<Rightarrow> nat option"
  so_segs :: "nat \<Rightarrow> mem"
  so_next :: nat

record sim_shmem =
  ss_seg :: nat
  ss_name :: string
  ss_owner :: bool

definition sim_api :: "(sim_os, sim_shmem) shmem_api" where
  "sim_api =
     \<lparr>sm_create = (\<lambda>name sz os.
        (case so_names os name of
           Some k \<Rightarrow> (MappingIdExists, os)
         | None \<Rightarrow> (Created \<lparr>ss_seg = so_next os, ss_name = name, ss_owner = True\<rparr>,
             \<lparr>so_names = (so_names os)(name \<mapsto> so_next os),
              so_segs = (so_segs os)(so_next os := replicate (unat sz) 0),
              so_next = Suc (so_next os)\<rparr>))),
      sm_open = (\<lambda>name os. map_option (\<lambda>k. \<lparr>ss_seg = k, ss_name = name, ss_owner = False\<rparr>) (so_names os name)),
      sm_get = (\<lambda>h os. so_segs os (ss_seg h)),
      sm_put = (\<lambda>h m os. os\<lparr>so_segs := (so_segs os)(ss_seg h := m)\<rparr>),
      sm_set_owner = (\<lambda>b h. h\<lparr>ss_owner := b\<rparr>),
      sm_drop = (\<lambda>h os. if ss_owner h then os\<lparr>so_names := (so_names os)(ss_name h := None)\<rparr> else os),
      sm_is_owner = ss_owner, sm_name = ss_name, sm_seg = ss_seg,
      sm_find = (\<lambda>name os. so_names os name)\<rparr>"

definition empty_os :: sim_os where
  "empty_os = \<lparr>so_names = \<lambda>_. None, so_segs = \<lambda>_. [], so_next = 0\<rparr>"

lemma sim_ok: "shmem_ok sim_api"
proof -
  have "create_ok sim_api" by (auto simp: create_ok_def sim_api_def split: option.splits)
  moreover have "open_ok sim_api" by (auto simp: open_ok_def sim_api_def)
  moreover have "drop_ok sim_api" by (auto simp: drop_ok_def sim_api_def)
  moreover have "bytes_ok sim_api" by (simp add: bytes_ok_def sim_api_def)
  ultimately show ?thesis by (simp add: shmem_ok_def)
qed

subsection \<open>The library's laws as rewrite rules\<close>

lemma shmem_okD:
  assumes "shmem_ok api"
  shows "create_ok api" "open_ok api" "drop_ok api" "bytes_ok api"
  using assms by (simp_all only: shmem_ok_def)

lemma find_drop:
  "shmem_ok api \<Longrightarrow> sm_find api name (sm_drop api h os) =
     (if sm_is_owner api h \<and> name = sm_name api h then None else sm_find api name os)"
  by (drule shmem_okD(3)) (unfold drop_ok_def, blast)

lemma get_drop: "shmem_ok api \<Longrightarrow> sm_get api h' (sm_drop api h os) = sm_get api h' os"
  by (drule shmem_okD(3)) (unfold drop_ok_def, blast)

lemma set_owner_facts:
  assumes "shmem_ok api"
  shows "sm_is_owner api (sm_set_owner api b h) = b"
    "sm_name api (sm_set_owner api b h) = sm_name api h"
    "sm_seg api (sm_set_owner api b h) = sm_seg api h"
  using shmem_okD(3) [OF assms] unfolding drop_ok_def by blast+

lemma get_put:
  "shmem_ok api \<Longrightarrow> sm_get api h' (sm_put api h m os) =
     (if sm_seg api h' = sm_seg api h then m else sm_get api h' os)"
  by (drule shmem_okD(4)) (unfold bytes_ok_def, blast)

lemma get_same_seg:
  "shmem_ok api \<Longrightarrow> sm_seg api h' = sm_seg api h \<Longrightarrow> sm_get api h' os = sm_get api h os"
  by (drule shmem_okD(4)) (unfold bytes_ok_def, blast)

lemma find_put: "shmem_ok api \<Longrightarrow> sm_find api name (sm_put api h m os) = sm_find api name os"
  by (drule shmem_okD(4)) (unfold bytes_ok_def, blast)

lemma put_get: "shmem_ok api \<Longrightarrow> sm_put api h (sm_get api h os) os = os"
  by (drule shmem_okD(4)) (unfold bytes_ok_def, blast)

lemma open_facts:
  assumes "shmem_ok api" "sm_open api name os = Some h"
  shows "sm_find api name os = Some (sm_seg api h)" "sm_name api h = name" "\<not> sm_is_owner api h"
  using shmem_okD(2) [OF assms(1)] assms(2) unfolding open_ok_def by blast+

lemma open_missing: "shmem_ok api \<Longrightarrow> sm_find api name os = None \<Longrightarrow> sm_open api name os = None"
  by (drule shmem_okD(2)) (unfold open_ok_def, blast)

lemma create_taken:
  "shmem_ok api \<Longrightarrow> sm_find api name os = Some k \<Longrightarrow> sm_create api name sz os = (MappingIdExists, os)"
  by (drule shmem_okD(1)) (unfold create_ok_def, blast)

lemma create_free:
  assumes "shmem_ok api" "sm_find api name os = None" "sm_create api name sz os = (r, os')"
  obtains (failed) e where "r = CreateFailed e" "os' = os"
    | (made) h where "r = Created h" "sm_name api h = name" "sm_is_owner api h"
        "sm_find api name os' = Some (sm_seg api h)" "sm_get api h os' = replicate (unat sz) 0"
        "\<And>other. other \<noteq> name \<Longrightarrow> sm_find api other os' = sm_find api other os"
        "\<And>h'. sm_seg api h' \<noteq> sm_seg api h \<Longrightarrow> sm_get api h' os' = sm_get api h' os"
proof -
  have "created_ok api name sz os os' r"
    using shmem_okD(1) [OF assms(1)] assms(2,3) unfolding create_ok_def by blast
  then show ?thesis using failed made by (cases r) auto
qed

text \<open>Two states of the system with the same names and the same bytes.\<close>

definition same_os :: "('os, 'h) shmem_api \<Rightarrow> 'os \<Rightarrow> 'os \<Rightarrow> bool" where
  "same_os api os' os \<longleftrightarrow>
     (\<forall>name. sm_find api name os' = sm_find api name os) \<and> (\<forall>h. sm_get api h os' = sm_get api h os)"

lemma same_os_refl [simp]: "same_os api os os"
  by (simp add: same_os_def)

lemma same_os_drop: "shmem_ok api \<Longrightarrow> \<not> sm_is_owner api h \<Longrightarrow> same_os api (sm_drop api h os) os"
  by (simp add: same_os_def find_drop get_drop)

subsection \<open>Refused opens\<close>

lemma run_stores_append:
  "run_stores (fs @ gs) m = do { m' \<leftarrow> run_stores fs m; run_stores gs m' }"
proof (induction fs arbitrary: m)
  case Nil
  then show ?case by simp
next
  case (Cons f fs)
  then show ?case by (cases "f m") simp_all
qed

lemma init_header_magic: "init_header m pb n d pid = Some m' \<Longrightarrow> load_u64 m' OFF_MAGIC = Some MAGIC_VERSION"
  by (auto simp: init_header_def init_header_stores_def bind_eq_Some_conv dest!: seg.load_same)

lemma read_header_magic:
  "load_u64 m OFF_MAGIC = Some MAGIC_VERSION \<Longrightarrow> read_header m = Some r \<Longrightarrow> \<exists>h. r = Inr (Some h)"
  by (auto simp: read_header_def bind_eq_Some_conv)

lemma adopt_existing_refused:
  assumes "shmem_ok api" "\<not> sm_is_owner api h"
    and "adopt_existing api me alive name pb tc dt h os = Some (Inl e, os')"
  shows "same_os api os' os"
proof -
  note d = same_os_drop [OF assms(1,2)] and run = assms(3) [unfolded adopt_existing_def]
  from run obtain r where r: "header_of api h os = Some r" by (cases "header_of api h os") auto
  consider (bad) e' where "r = Inl e'" | (found) hx where "r = Inr (Some hx)" | (blank) "r = Inr None"
    by (cases r) (auto split: option.splits)
  then show ?thesis
  proof cases
    case bad
    with run r d show ?thesis by auto
  next
    case (found hx)
    show ?thesis
    proof (cases "validate_header hx pb tc")
      case Inl
      with run r found d show ?thesis by auto
    next
      case (Inr u)
      with run r found d show ?thesis by (cases "check_dtype hx dt") (auto simp: bind_eq_Some_conv)
    qed
  next
    case blank
    show ?thesis
    proof (cases "length (sm_get api h os) < unat (required_bytes pb tc)")
      case True
      with run r blank d show ?thesis by auto
    next
      case False
      with run r blank obtain m r2 where
        m: "init_header (sm_get api h os) pb tc dt me = Some m"
        and r2: "read_header m = Some r2"
        by (auto simp: init_segment_def header_of_def get_put [OF assms(1)] bind_eq_Some_conv)
      then obtain hx where "r2 = Inr (Some hx)" using read_header_magic init_header_magic [OF m] by blast
      with m r2 run r blank False show ?thesis
        by (simp add: init_segment_def header_of_def get_put [OF assms(1)])
    qed
  qed
qed

lemma try_attach_same:
  assumes "shmem_ok api" "try_attach api name dt os = Some (r, os')"
  shows "same_os api os' os \<and> (\<forall>h hx. r = Inr (Some (h, hx)) \<longrightarrow> sm_open api name os = Some h \<and>
     header_of api h os = Some (Inr (Some hx)) \<and> check_dtype hx dt = Inr ())"
proof (cases "sm_open api name os")
  case None
  with assms(2) show ?thesis by (auto simp: try_attach_def try_open_def)
next
  case (Some h)
  note d = same_os_drop [OF assms(1) open_facts(3) [OF assms(1) Some]]
    and run = assms(2) [unfolded try_attach_def try_open_def Some]
  from run obtain x where x: "header_of api h os = Some x" by (cases "header_of api h os") auto
  consider (bad) e' where "x = Inl e'" | (found) hx where "x = Inr (Some hx)" | (blank) "x = Inr None"
    by (cases x) (auto split: option.splits)
  then show ?thesis
  proof cases
    case (found hx)
    with run x d Some show ?thesis
      by (cases "hdr_payload_bytes hx = 0 \<or> hdr_entry_count hx = 0"; cases "check_dtype hx dt") auto
  qed (use run x d in auto)
qed

text \<open>
  C25: A refused open is harmless. When a segment of the given name exists, an open that returns an
  error (wrong sizes, wrong element type, another layout version, foreign memory, only one of the
  two sizes given, a segment too small to initialise, or one that cannot be mapped) leaves every
  name bound as it was and every byte of every segment unchanged: it does not unlink the healthy
  channel it was refused.
\<close>
theorem refused_open_harmless:
  assumes "shmem_ok api" "sm_find api name os = Some k"
    and "open_or_create api me alive name pb tc dt delayed os = Some (Inl e, os')"
  shows "same_os api os' os"
proof -
  have cr: "create_segment api me name p n dt os = Some (Inr None, os)" for p n
    by (simp add: create_segment_def create_taken [OF assms(1,2)] Let_def)
  show ?thesis
  proof (cases pb)
    case None
    then show ?thesis
    proof (cases tc)
      case None
      with \<open>pb = None\<close> assms(3) obtain r os1 where ta: "try_attach api name dt os = Some (r, os1)"
        by (auto simp: open_or_create_def bind_eq_Some_conv)
      have "os' = os1"
        using \<open>pb = None\<close> None assms(3) ta
        by (cases r) (auto simp: open_or_create_def split: option.splits if_splits)
      with try_attach_same [OF assms(1) ta] show ?thesis by simp
    qed (use assms(3) in \<open>auto simp: open_or_create_def\<close>)
  next
    case (Some p)
    show ?thesis
    proof (cases tc)
      case None
      with Some assms(3) show ?thesis by (auto simp: open_or_create_def)
    next
      case n: (Some n)
      show ?thesis
      proof (cases "sm_open api name os")
        case None
        with Some n assms(3) cr show ?thesis
          by (auto simp: open_or_create_def try_open_def split: sum.splits)
      next
        case h: (Some h)
        with Some n assms(3) cr adopt_existing_refused [OF assms(1) open_facts(3) [OF assms(1) h]]
        show ?thesis by (auto simp: open_or_create_def try_open_def split: sum.splits)
      qed
    qed
  qed
qed

theorem refused_open_harmless_witness:
  "\<exists>e os'. open_or_create sim_api 7 (\<lambda>p. True) ''c'' (Some 8) None U8 False
       \<lparr>so_names = [''c'' \<mapsto> 0], so_segs = \<lambda>_. [], so_next = 1\<rparr> = Some (Inl e, os') \<and>
     so_names os' ''c'' = Some 0"
proof -
  let ?os = "\<lparr>so_names = [''c'' \<mapsto> 0], so_segs = \<lambda>_. [], so_next = 1\<rparr> :: sim_os"
  obtain e os' where r: "open_or_create sim_api 7 (\<lambda>p. True) ''c'' (Some 8) None U8 False ?os = Some (Inl e, os')"
    by (simp add: open_or_create_def)
  have "same_os sim_api os' ?os"
    by (rule refused_open_harmless [OF sim_ok _ r, of 0]) (simp add: sim_api_def)
  then have "so_names os' ''c'' = Some 0" by (simp add: same_os_def sim_api_def)
  with r show ?thesis by blast
qed

subsection \<open>Accepted opens\<close>

definition fresh_header :: "usize \<Rightarrow> usize \<Rightarrow> dtype \<Rightarrow> header" where
  "fresh_header pb n dt = \<lparr>hdr_payload_bytes = pb, hdr_entry_count = n, hdr_write_index = 0,
     hdr_dtype = dtype_code dt, hdr_last_entry_seq = 0\<rparr>"

lemma read_initialized:
  assumes "seg_geom pb n (length m)"
  shows "read_header (initialized pb n dt pid m) = Some (Inr (Some (fresh_header pb n dt)))"
proof -
  have "72 \<le> length (initialized pb n dt pid m)"
    using seg_geom_72 [OF assms] by (simp add: initialized_views(1) [OF assms])
  then show ?thesis
    by (subst read_header_valid) (simp_all add: initialized_views [OF assms] fresh_header_def)
qed

lemma init_segment_eq:
  assumes "seg_geom pb n (length (sm_get api h os))"
  shows "init_segment api me h pb n dt os = Some (sm_put api h (initialized pb n dt me (sm_get api h os)) os)"
  by (simp add: init_segment_def init_header_eq [OF assms])

lemma seg_geom_check: "seg_geom pb n len \<Longrightarrow> check_geometry pb n = Inr ()"
  by (auto simp: check_geometry_ok seg_geom_def)

lemma seg_geom_required: "seg_geom pb n len \<Longrightarrow> unat (required_bytes pb n) \<le> len"
  using seg_geom_no_wrap [of pb n len] by (simp add: unat_required_bytes seg_geom_def)

lemma open_free:
  assumes "shmem_ok api" "sm_find api name os = None" "seg_geom pb n (unat (required_bytes pb n))"
  obtains (failed) msg where
      "open_or_create api me alive name (Some pb) (Some n) dt delayed os = Some (Inl (OsError msg), os)"
      "\<exists>e. fst (sm_create api name (required_bytes pb n) os) = CreateFailed e"
    | (made) h os1 where
      "open_or_create api me alive name (Some pb) (Some n) dt delayed os =
         Some (Inr (Some (h, fresh_header pb n dt)),
           sm_put api h (initialized pb n dt me (replicate (unat (required_bytes pb n)) 0)) os1)"
      "sm_name api h = name" "sm_is_owner api h" "sm_find api name os1 = Some (sm_seg api h)"
      "\<And>other. other \<noteq> name \<Longrightarrow> sm_find api other os1 = sm_find api other os"
      "\<And>h'. sm_seg api h' \<noteq> sm_seg api h \<Longrightarrow> sm_get api h' os1 = sm_get api h' os"
proof -
  let ?m = "replicate (unat (required_bytes pb n)) 0 :: mem"
  have g: "seg_geom pb n (length ?m)" using assms(3) by simp
  obtain r os1 where cr: "sm_create api name (required_bytes pb n) os = (r, os1)" by fastforce
  from assms(1,2) cr show ?thesis
  proof (cases rule: create_free)
    case (failed e)
    with cr that(1) show ?thesis
      by (simp add: open_or_create_def seg_geom_check [OF assms(3)] create_segment_def Let_def)
  next
    case (made h)
    let ?os = "sm_put api h (initialized pb n dt me ?m) os1"
    have get: "sm_get api h ?os = initialized pb n dt me ?m" by (simp add: get_put [OF assms(1)])
    have "create_segment api me name pb n dt os = Some (Inr (Some h), ?os)"
      using cr made(1,5) init_segment_eq [of pb n api h os1] g by (simp add: create_segment_def Let_def)
    moreover have "header_of api h ?os = Some (Inr (Some (fresh_header pb n dt)))"
      by (simp add: header_of_def get read_initialized [OF g])
    ultimately have "open_or_create api me alive name (Some pb) (Some n) dt delayed os =
        Some (Inr (Some (h, fresh_header pb n dt)), ?os)"
      by (simp add: open_or_create_def seg_geom_check [OF assms(3)])
    with made that(2) show ?thesis by blast
  qed
qed

text \<open>
  Opening a free name with valid sizes. Either the operating system refuses, which is reported
  and changes nothing, or the name is bound to a new segment whose header carries the requested
  sizes and element type; the caller owns the mapping and its identifier is in the deed, both
  exclusive roles are free and every slot is empty. No other name changes.
\<close>
theorem create_fresh:
  assumes "shmem_ok api" "sm_find api name os = None" "seg_geom pb n (unat (required_bytes pb n))"
  shows "(\<exists>msg. open_or_create api me alive name (Some pb) (Some n) dt delayed os = Some (Inl (OsError msg), os)) \<or>
     (\<exists>h os'. open_or_create api me alive name (Some pb) (Some n) dt delayed os =
          Some (Inr (Some (h, fresh_header pb n dt)), os') \<and>
        sm_is_owner api h \<and> sm_find api name os' = Some (sm_seg api h) \<and>
        (\<forall>other. other \<noteq> name \<longrightarrow> sm_find api other os' = sm_find api other os) \<and>
        length (sm_get api h os') = unat (required_bytes pb n) \<and>
        hdr_at (sm_get api h os') segment_owner = me \<and>
        hdr_at (sm_get api h os') writer_owner = 0 \<and> hdr_at (sm_get api h os') zc_reader_owner = 0 \<and>
        (\<forall>i < unat n. seq_at pb (sm_get api h os') i = 0))"
proof -
  let ?m = "replicate (unat (required_bytes pb n)) 0 :: mem"
  have g: "seg_geom pb n (length ?m)" using assms(3) by simp
  from assms show ?thesis
  proof (cases rule: open_free [where me = me and alive = alive and dt = dt and delayed = delayed])
    case (failed msg)
    then show ?thesis by blast
  next
    case (made h os1)
    let ?os = "sm_put api h (initialized pb n dt me ?m) os1"
    have get: "sm_get api h ?os = initialized pb n dt me ?m" by (simp add: get_put [OF assms(1)])
    show ?thesis
      using made initialized_views [OF g]
      by (intro disjI2 exI [of _ h] exI [of _ ?os]) (simp add: get find_put [OF assms(1)])
  qed
qed

theorem create_fresh_witness:
  "\<exists>h os'. open_or_create sim_api 7 (\<lambda>p. True) ''c'' (Some 8) (Some 2) F64 False empty_os =
       Some (Inr (Some (h, fresh_header 8 2 F64)), os') \<and> sm_is_owner sim_api h"
proof -
  have g: "seg_geom 8 2 (unat (required_bytes 8 2))"
    by (simp add: seg_geom_def required_bytes_def entry_bytes_def)
  have "\<nexists>msg os. open_or_create sim_api 7 (\<lambda>p. True) ''c'' (Some 8) (Some 2) F64 False empty_os = Some (Inl (OsError msg), os)"
    using g init_segment_eq [of 8 2 sim_api]
    by (simp add: open_or_create_def seg_geom_check [OF g] create_segment_def Let_def sim_api_def empty_os_def
        header_of_def read_initialized init_segment_def init_header_eq)
  with create_fresh [OF sim_ok _ g, of "''c''" empty_os 7 "\<lambda>p. True" F64 False] show ?thesis
    by (auto simp: sim_api_def empty_os_def)
qed

text \<open>Existing segments: the deed is bid for only after the segment has been accepted.\<close>

definition deed_free :: "u64 \<Rightarrow> (u32 \<Rightarrow> bool) \<Rightarrow> mem \<Rightarrow> bool" where
  "deed_free me alive m \<longleftrightarrow>
     hdr_at m segment_owner = 0 \<or>
     hdr_at m segment_owner \<noteq> me \<and> \<not> alive (ucast (hdr_at m segment_owner))"

lemma read_header_72: "read_header m = Some (Inr (Some h)) \<Longrightarrow> 72 \<le> length m"
  by (auto simp: read_header_def bind_eq_Some_conv load_u64_def split: if_splits)

lemma claim_segment_deed:
  assumes "72 \<le> length m"
  shows "\<exists>t. claim_segment me alive (still m) 0 segment_owner =
     Some (deed_free me alive m, if deed_free me alive m then set_hdr m segment_owner me else m, t)"
  using claim_segment_alone [OF assms, of segment_owner me alive 0]
  by (cases "hdr_at m 32 = 0"; cases "hdr_at m 32 = me"; cases "alive (ucast (hdr_at m 32))")
    (simp_all add: deed_free_def)

lemma open_existing:
  assumes "shmem_ok api" "sm_open api name os = Some h" "check_geometry pb n = Inr ()"
    and "read_header (sm_get api h os) = Some (Inr (Some hx))"
    and "validate_header hx pb n = Inr ()" "check_dtype hx dt = Inr ()"
  defines "m \<equiv> sm_get api h os"
  shows "open_or_create api me alive name (Some pb) (Some n) dt delayed os =
     Some (Inr (Some (sm_set_owner api (deed_free me alive m) h, hx)),
       sm_put api h (if deed_free me alive m then set_hdr m segment_owner me else m) os)"
proof -
  have "create_segment api me name pb n dt os = Some (Inr None, os)"
    using create_taken [OF assms(1) open_facts(1) [OF assms(1,2)]] by (simp add: create_segment_def Let_def)
  moreover obtain t where "claim_segment me alive (still m) 0 segment_owner =
     Some (deed_free me alive m, if deed_free me alive m then set_hdr m segment_owner me else m, t)"
    using claim_segment_deed read_header_72 assms(4) by (metis m_def)
  ultimately show ?thesis
    using assms(2-6)
    by (simp add: open_or_create_def try_open_def adopt_existing_def header_of_def m_def
        del: cell_addrs)
qed

text \<open>
  C26: Opening an existing segment with matching sizes and type is accepted, and is a bid for the
  deed. The caller becomes the owner, and its identifier replaces the one in the deed, exactly if
  the deed is free or its holder is dead; with a live holder, or if this process holds the deed
  already, the caller is a tenant and the segment is unchanged. Names are untouched either way.
\<close>
theorem deed_bid:
  assumes "shmem_ok api" "sm_open api name os = Some h" "check_geometry pb n = Inr ()"
    and "read_header (sm_get api h os) = Some (Inr (Some hx))"
    and "validate_header hx pb n = Inr ()" "check_dtype hx dt = Inr ()"
  defines "deed \<equiv> hdr_at (sm_get api h os) segment_owner"
  shows "\<exists>h' os'. open_or_create api me alive name (Some pb) (Some n) dt delayed os =
       Some (Inr (Some (h', hx)), os') \<and>
     sm_seg api h' = sm_seg api h \<and> (\<forall>x. sm_find api x os' = sm_find api x os) \<and>
     (sm_is_owner api h' \<longleftrightarrow> deed = 0 \<or> deed \<noteq> me \<and> \<not> alive (ucast deed)) \<and>
     (sm_is_owner api h' \<longrightarrow> hdr_at (sm_get api h' os') segment_owner = me \<and>
        (\<forall>off. hdr_off off \<and> off \<noteq> segment_owner \<longrightarrow>
           hdr_at (sm_get api h' os') off = hdr_at (sm_get api h os) off)) \<and>
     (\<not> sm_is_owner api h' \<longrightarrow> os' = os)"
proof -
  let ?m = "sm_get api h os"
  let ?h = "sm_set_owner api (deed_free me alive ?m) h"
  have 72: "72 \<le> length ?m" using assms(4) by (rule read_header_72)
  note so = set_owner_facts [OF assms(1)]
  show ?thesis
    using open_existing [OF assms(1-6), of me alive delayed] 72 put_get [OF assms(1), of h os]
    by (intro exI [of _ ?h]) (auto simp: so get_put [OF assms(1)] find_put [OF assms(1)] hdr_at_set_hdr
        deed_free_def deed_def)
qed

text \<open>A simulated system with one initialised channel of two slots.\<close>

definition chan_os :: "u64 \<Rightarrow> sim_os" where
  "chan_os deed = \<lparr>so_names = [''c'' \<mapsto> 0],
     so_segs = (\<lambda>_. initialized 8 2 F64 deed (replicate 104 0)), so_next = 1\<rparr>"

definition chan_shmem :: sim_shmem where
  "chan_shmem = \<lparr>ss_seg = 0, ss_name = ''c'', ss_owner = False\<rparr>"

lemma chan_geom: "seg_geom 8 2 (length (replicate 104 (0 :: byte)))"
  by (simp add: seg_geom_def)

lemma chan_os_facts:
  "sm_open sim_api ''c'' (chan_os deed) = Some chan_shmem"
  "sm_find sim_api ''c'' (chan_os deed) = Some 0"
  "sm_get sim_api chan_shmem (chan_os deed) = initialized 8 2 F64 deed (replicate 104 0)"
  by (simp_all add: sim_api_def chan_os_def chan_shmem_def)

lemma chan_os_header:
  "read_header (sm_get sim_api chan_shmem (chan_os deed)) = Some (Inr (Some (fresh_header 8 2 F64)))"
  by (simp add: chan_os_facts read_initialized [OF chan_geom])

theorem deed_bid_witness:
  "\<exists>h' os'. open_or_create sim_api 7 (\<lambda>p. p = 7) ''c'' (Some 8) (Some 2) F64 False (chan_os 5) =
       Some (Inr (Some (h', fresh_header 8 2 F64)), os') \<and> sm_is_owner sim_api h'"
proof -
  have c: "check_geometry 8 2 = Inr ()" "validate_header (fresh_header 8 2 F64) 8 2 = Inr ()"
    "check_dtype (fresh_header 8 2 F64) F64 = Inr ()"
    by (simp_all add: check_geometry_ok validate_header_def check_dtype_def fresh_header_def)
  have d: "hdr_at (sm_get sim_api chan_shmem (chan_os 5)) segment_owner = 5"
    by (simp add: chan_os_facts initialized_views [OF chan_geom])
  from deed_bid [OF sim_ok chan_os_facts(1) c(1) chan_os_header c(2,3), of 7 "\<lambda>p. p = 7" False 5, unfolded d]
  show ?thesis by auto
qed

text \<open>
  Opening without sizes only attaches. It never bids for the deed: it changes no name and no
  byte, and a mapping it returns does not own the segment, so dropping it later keeps the name.
  When there is no usable segment it waits (returns nothing) in delayed mode and is an error
  otherwise.
\<close>
theorem attach_without_sizes:
  assumes "shmem_ok api"
    and "open_or_create api me alive name None None dt delayed os = Some (r, os')"
  shows "same_os api os' os \<and>
     (\<forall>h hx. r = Inr (Some (h, hx)) \<longrightarrow> \<not> sm_is_owner api h \<and> sm_find api name os = Some (sm_seg api h) \<and>
        read_header (sm_get api h os) = Some (Inr (Some hx)) \<and> check_dtype hx dt = Inr ()) \<and>
     (r = Inr None \<longrightarrow> delayed) \<and> (sm_find api name os = None \<longrightarrow> delayed \<longrightarrow> r = Inr None)"
proof -
  from assms(2) obtain x os1 where ta: "try_attach api name dt os = Some (x, os1)"
    by (auto simp: open_or_create_def bind_eq_Some_conv)
  note t = try_attach_same [OF assms(1) ta]
  consider (bad) e where "x = Inl e" "r = Inl e" "os' = os1"
    | (got) p where "x = Inr (Some p)" "r = x" "os' = os1"
    | (none) "x = Inr None" "os' = os1" "r = Inr None" delayed
    | (missing) e where "x = Inr None" "os' = os1" "r = Inl e" "\<not> delayed"
    using assms(2) ta by (cases x) (auto simp: open_or_create_def split: option.splits if_splits)
  then show ?thesis
  proof cases
    case (got p)
    obtain h hx where p: "p = (h, hx)" by (cases p)
    with got t have o: "sm_open api name os = Some h" "header_of api h os = Some (Inr (Some hx))"
        "check_dtype hx dt = Inr ()" by auto
    with open_facts [OF assms(1) o(1)] got p t show ?thesis by (auto simp: header_of_def)
  next
    case (bad e)
    have "sm_find api name os = None \<Longrightarrow> False"
      using ta bad(1) open_missing [OF assms(1)] by (auto simp: try_attach_def try_open_def)
    with bad t show ?thesis by auto
  qed (use t in auto)
qed

theorem attach_without_sizes_witness:
  "\<exists>r os'. open_or_create sim_api 7 (\<lambda>p. True) ''c'' None None F64 False (chan_os 5) = Some (r, os') \<and>
     same_os sim_api os' (chan_os 5)"
proof -
  have "open_or_create sim_api 7 (\<lambda>p. True) ''c'' None None F64 False (chan_os 5) =
      Some (Inr (Some (chan_shmem, fresh_header 8 2 F64)), chan_os 5)"
    using chan_os_header [of 5]
    by (simp add: open_or_create_def try_attach_def try_open_def chan_os_facts header_of_def)
      (simp add: fresh_header_def check_dtype_def)
  with attach_without_sizes [OF sim_ok this] show ?thesis by blast
qed

lemma create_open_taken:
  assumes "shmem_ok api" "sm_open api name os = Some h"
  shows "create_segment api me name pb n dt os = Some (Inr None, os)"
  using create_taken [OF assms(1) open_facts(1) [OF assms]] by (simp add: create_segment_def Let_def)

lemma open_abandoned:
  assumes "shmem_ok api" "sm_open api name os = Some h" "seg_geom pb n (length (sm_get api h os))"
    and "read_header (sm_get api h os) = Some (Inr None)"
  shows "open_or_create api me alive name (Some pb) (Some n) dt delayed os =
     Some (Inr (Some (sm_set_owner api True h, fresh_header pb n dt)),
       sm_put api h (initialized pb n dt me (sm_get api h os)) os)"
  using assms(2,4) create_open_taken [OF assms(1,2)] seg_geom_check [OF assms(3)] seg_geom_required [OF assms(3)]
  by (simp add: open_or_create_def try_open_def adopt_existing_def header_of_def init_segment_eq [OF assms(3)]
      get_put [OF assms(1)] read_initialized [OF assms(3)] not_less)

text \<open>
  C28: A segment abandoned before its header was complete (no magic) is taken over by a bidder whose
  sizes fit: it is initialised afresh with the bidder's sizes, type and identifier, and the bidder
  owns it; a bidder whose sizes do not fit is refused.
\<close>
theorem abandoned_segment:
  assumes "shmem_ok api" "sm_open api name os = Some h" "check_geometry pb n = Inr ()" "no_wrap pb n"
    and "read_header (sm_get api h os) = Some (Inr None)" "length (sm_get api h os) < 2 ^ 63"
  shows "if unat (required_bytes pb n) \<le> length (sm_get api h os)
     then open_or_create api me alive name (Some pb) (Some n) dt delayed os =
       Some (Inr (Some (sm_set_owner api True h, fresh_header pb n dt)),
         sm_put api h (initialized pb n dt me (sm_get api h os)) os)
     else \<exists>msg. open_or_create api me alive name (Some pb) (Some n) dt delayed os =
       Some (Inl (InvalidArgument msg), sm_drop api h os)"
proof (cases "unat (required_bytes pb n) \<le> length (sm_get api h os)")
  case True
  with assms(3,4,6) have "seg_geom pb n (length (sm_get api h os))" by (intro seg_geom_of_check) simp_all
  from open_abandoned [OF assms(1,2) this assms(5)] True show ?thesis by simp
next
  case False
  with assms(2,3,5) create_open_taken [OF assms(1,2)] show ?thesis
    by (simp add: open_or_create_def try_open_def adopt_existing_def header_of_def)
qed

lemma blank_header: "72 \<le> k \<Longrightarrow> read_header (replicate k 0) = Some (Inr None)"
proof -
  assume k: "72 \<le> k"
  then have "hdr_at (replicate k 0) OFF_MAGIC = 0"
    by (simp add: hdr_at_def word_at_def bytes_at_def u64_of_le_zeros take_replicate min_def)
  with k show ?thesis by (simp add: read_header_cases_facts(1))
qed

definition blank_os :: sim_os where
  "blank_os = \<lparr>so_names = [''c'' \<mapsto> 0], so_segs = \<lambda>_. replicate 104 0, so_next = 1\<rparr>"

theorem abandoned_segment_witness:
  "open_or_create sim_api 7 (\<lambda>p. True) ''c'' (Some 8) (Some 2) U8 False blank_os =
     Some (Inr (Some (sm_set_owner sim_api True chan_shmem, fresh_header 8 2 U8)),
       sm_put sim_api chan_shmem (initialized 8 2 U8 7 (replicate 104 0)) blank_os)"
proof -
  have o: "sm_open sim_api ''c'' blank_os = Some chan_shmem" "sm_get sim_api chan_shmem blank_os = replicate 104 0"
    by (simp_all add: sim_api_def chan_shmem_def blank_os_def)
  show ?thesis
    using abandoned_segment [OF sim_ok o(1), of 8 2 7 "\<lambda>p. True" U8 False]
    by (simp add: o(2) blank_header check_geometry_ok no_wrap_def required_bytes_def entry_bytes_def)
qed

text \<open>
  \<open>unlink\<close> always succeeds. It removes the name of a segment that can be mapped and nothing
  else: other names and all bytes stay, so existing participants keep their channel; a name that
  is not bound is left alone.
\<close>
theorem unlink_removes_name:
  assumes "shmem_ok api"
  shows "fst (unlink api name os) = Inr () \<and>
     (\<forall>h. sm_get api h (snd (unlink api name os)) = sm_get api h os) \<and>
     (\<forall>other. other \<noteq> name \<longrightarrow> sm_find api other (snd (unlink api name os)) = sm_find api other os) \<and>
     (sm_open api name os \<noteq> None \<longrightarrow> sm_find api name (snd (unlink api name os)) = None) \<and>
     (sm_find api name os = None \<longrightarrow> snd (unlink api name os) = os)"
proof (cases "sm_open api name os")
  case None
  then show ?thesis by (simp add: unlink_def try_open_def)
next
  case (Some h)
  note o = open_facts [OF assms Some]
  from Some show ?thesis
    by (simp add: unlink_def try_open_def get_drop [OF assms] find_drop [OF assms] set_owner_facts [OF assms] o)
qed

theorem unlink_removes_name_witness:
  "sm_find sim_api ''c'' (snd (unlink sim_api ''c'' (chan_os 5))) = None"
  using unlink_removes_name [OF sim_ok, of "''c''" "chan_os 5"] by (simp add: chan_os_facts)

end
