(* ===== verification/Zc_Typed.thy ===== *)
theory Zc_Typed
  imports Zc_Channel
begin

text \<open>
  Typed access to payloads: the element codec behind the reinterpretation of a slice of elements as
  bytes, and the typed reads of the ring reader (\<open>read_into_as\<close>, \<open>read\<close>, \<open>read_as\<close> of
  \<open>zerochannel-core/src/reader.rs\<close>). An element of any of the three types is its bit pattern, a
  64-bit word; for \<open>u8\<close> the upper bits are zero. The machine is little-endian.
\<close>

subsection \<open>Elements as bytes\<close>

fun elem_to_bytes :: "dtype \<Rightarrow> u64 \<Rightarrow> byte list" where
  "elem_to_bytes U8 x = [ucast x]"
| "elem_to_bytes I64 x = u64_to_le x"
| "elem_to_bytes F64 x = u64_to_le x"

fun elem_of_bytes :: "dtype \<Rightarrow> byte list \<Rightarrow> u64" where
  "elem_of_bytes U8 bs = ucast (hd bs)"
| "elem_of_bytes I64 bs = u64_of_le bs"
| "elem_of_bytes F64 bs = u64_of_le bs"

definition elem_ok :: "dtype \<Rightarrow> u64 \<Rightarrow> bool" where
  "elem_ok d x \<longleftrightarrow> (d = U8 \<longrightarrow> unat x < 256)"

definition slice_bytes :: "dtype \<Rightarrow> u64 list \<Rightarrow> byte list" where
  "slice_bytes d xs = concat (map (elem_to_bytes d) xs)"

fun slice_elems :: "dtype \<Rightarrow> nat \<Rightarrow> byte list \<Rightarrow> u64 list" where
  "slice_elems d 0 bs = []"
| "slice_elems d (Suc k) bs =
     elem_of_bytes d (take (unat (size_of d)) bs) # slice_elems d k (drop (unat (size_of d)) bs)"

lemma length_elem_to_bytes [simp]: "length (elem_to_bytes d x) = unat (size_of d)"
  by (cases d) simp_all

lemma length_slice_bytes [simp]: "length (slice_bytes d xs) = length xs * unat (size_of d)"
  by (induction xs) (simp_all add: slice_bytes_def)

lemma length_slice_elems [simp]: "length (slice_elems d k bs) = k"
  by (induction k arbitrary: bs) simp_all

lemma slice_bytes_Cons: "slice_bytes d (x # xs) = elem_to_bytes d x @ slice_bytes d xs"
  by (simp add: slice_bytes_def)

lemma elem_roundtrip: "elem_ok d x \<Longrightarrow> elem_of_bytes d (elem_to_bytes d x) = x"
proof (cases d)
  case U8
  moreover assume "elem_ok d x"
  ultimately have "unat x < 256" by (simp add: elem_ok_def)
  then have "take_bit 8 x = x" by (simp add: take_bit_eq_mod word_unat_eq_iff unat_mod_u64)
  with U8 show ?thesis by (simp add: unsigned_ucast_eq)
qed simp_all

lemma slice_roundtrip:
  "\<forall>x \<in> set xs. elem_ok d x \<Longrightarrow> slice_elems d (length xs) (slice_bytes d xs) = xs"
  by (induction xs) (simp_all add: slice_bytes_Cons elem_roundtrip)

lemma slice_bytes_elems:
  "length bs = k * unat (size_of d) \<Longrightarrow> slice_bytes d (slice_elems d k bs) = bs"
proof (induction k arbitrary: bs)
  case 0
  then show ?case by (simp add: slice_bytes_def)
next
  case (Suc k)
  have "elem_to_bytes d (elem_of_bytes d (take (unat (size_of d)) bs)) = take (unat (size_of d)) bs"
  proof (cases d)
    case U8
    with Suc.prems obtain b cs where "bs = b # cs" by (cases bs) auto
    moreover have "ucast (ucast b :: u64) = b" by transfer simp
    ultimately show ?thesis using U8 by simp
  qed (use Suc.prems in simp_all)
  with Suc show ?case by (simp add: slice_bytes_Cons)
qed

subsection \<open>Typed reads\<close>

definition raw_reader_read_into_as ::
    "raw_reader \<Rightarrow> view \<Rightarrow> nat \<Rightarrow> dtype \<Rightarrow> u64 list \<Rightarrow> u64 option \<Rightarrow>
     ((u64 option) zc_result \<times> raw_reader \<times> u64 list \<times> nat) option" where
  "raw_reader_read_into_as r v t d dst from_entry_seq =
     do {
       (res, r', bytes, t') \<leftarrow> raw_reader_read_into r v t (slice_bytes d dst) from_entry_seq;
       Some (res, r', slice_elems d (length dst) bytes, t')
     }"

definition raw_reader_read_as ::
    "raw_reader \<Rightarrow> view \<Rightarrow> nat \<Rightarrow> dtype \<Rightarrow> u64 option \<Rightarrow>
     (((u64 \<times> u64 list) option) zc_result \<times> raw_reader \<times> nat) option" where
  "raw_reader_read_as r v t d from_entry_seq =
     (let elem = size_of d in
      if elem = 0 \<or> \<not> is_multiple_of (rr_payload_bytes r) elem
      then Some (Inl (slice_error (rr_payload_bytes r) elem), r, t)
      else do {
        (res, r', buf, t') \<leftarrow>
          raw_reader_read_into_as r v t d (replicate (unat (rr_payload_bytes r div elem)) 0) from_entry_seq;
        Some (case res of
                Inl e \<Rightarrow> Inl e
              | Inr None \<Rightarrow> Inr None
              | Inr (Some seq) \<Rightarrow> Inr (Some (seq, buf)), r', t')
      })"

definition raw_reader_read ::
    "raw_reader \<Rightarrow> view \<Rightarrow> nat \<Rightarrow> u64 option \<Rightarrow>
     (((u64 \<times> u64 list) option) zc_result \<times> raw_reader \<times> nat) option" where
  "raw_reader_read r v t from_entry_seq = raw_reader_read_as r v t U8 from_entry_seq"

lemma is_multiple_of_dvd: "b \<noteq> 0 \<Longrightarrow> is_multiple_of a b \<longleftrightarrow> unat b dvd unat a"
  by (simp add: is_multiple_of_def u64_eq_iff unat_mod_u64 dvd_eq_mod_eq_0)

lemma elems_per_payload:
  assumes "8 dvd unat pb"
  shows "size_of d \<noteq> 0" "is_multiple_of pb (size_of d)"
    "unat (pb div size_of d) * unat (size_of d) = unat pb"
proof -
  show nz: "size_of d \<noteq> 0" by (cases d) simp_all
  have dv: "unat (size_of d) dvd unat pb" using assms by (cases d) simp_all
  with nz show "is_multiple_of pb (size_of d)" by (simp add: is_multiple_of_dvd)
  show "unat (pb div size_of d) * unat (size_of d) = unat pb"
    using dv by (simp add: unat_div_distrib)
qed

lemma read_as_still:
  fixes d :: dtype
  assumes "chan_inv log w m" "same_geom w r"
  defines "k \<equiv> unat (rr_payload_bytes r div size_of d)"
  shows "\<exists>t'. raw_reader_read_as r (still m) t d fr =
     Some (case read_next r m fr of
         None \<Rightarrow> (Inr None, r, t')
       | Some (i, s) \<Rightarrow> (Inr (Some (s, slice_elems d k (log ! (unat s - 1)))),
           r\<lparr>rr_last_entry_seq := s, rr_last_read_idx := word_of_nat i\<rparr>, t'))"
    and "k * unat (size_of d) = unat (rr_payload_bytes r)" "size_of d \<noteq> 0"
proof -
  note sg = same_geom_reader [OF assms(1,2)]
  have "8 dvd unat (rr_payload_bytes r)" using sg(1) by (simp add: rr_wf_def seg_geom_def)
  note e = elems_per_payload [OF this, of d]
  show "k * unat (size_of d) = unat (rr_payload_bytes r)" "size_of d \<noteq> 0" using e by (simp_all add: k_def)
  let ?dst = "slice_bytes d (replicate k 0)"
  have l: "length ?dst = unat (rr_payload_bytes r)" using e(3) by (simp add: k_def)
  obtain t' where rd: "raw_reader_read_into r (still m) t ?dst fr =
     Some (case read_next r m fr of
         None \<Rightarrow> (Inr None, r, ?dst, t')
       | Some (i, s) \<Rightarrow> (Inr (Some s), r\<lparr>rr_last_entry_seq := s, rr_last_read_idx := word_of_nat i\<rparr>,
                        rg_pays (rr_ring r m) ! i, t'))"
    using read_into_still [OF sg(1,3) l] by blast
  show "\<exists>t'. raw_reader_read_as r (still m) t d fr =
     Some (case read_next r m fr of
         None \<Rightarrow> (Inr None, r, t')
       | Some (i, s) \<Rightarrow> (Inr (Some (s, slice_elems d k (log ! (unat s - 1)))),
           r\<lparr>rr_last_entry_seq := s, rr_last_read_idx := word_of_nat i\<rparr>, t'))"
  proof (cases "read_next r m fr")
    case None
    with rd e show ?thesis by (simp add: raw_reader_read_as_def raw_reader_read_into_as_def Let_def k_def)
  next
    case (Some p)
    obtain i s where p: "p = (i, s)" by (cases p)
    with Some obtain wm where n: "ring_next wm (rw_ring w m) = Some (i, s)"
      by (auto simp: read_next_def Let_def sg(2) split: if_splits)
    with rd Some p e ring_inv_next(3) [OF chan_invD(2) [OF assms(1)] n] sg(2) show ?thesis
      by (simp add: raw_reader_read_as_def raw_reader_read_into_as_def Let_def k_def)
  qed
qed

lemma slice_elems_unique:
  assumes "k * unat (size_of d) = length bs" "size_of d \<noteq> 0" "bs = slice_bytes d ys" "\<forall>y \<in> set ys. elem_ok d y"
  shows "slice_elems d k bs = ys"
proof -
  have "length ys = k" using assms(1-3) by (simp add: u64_eq_iff)
  with slice_roundtrip [OF assms(4)] assms(3) show ?thesis by simp
qed

text \<open>
  A typed read that runs alone on a channel with log \<open>log\<close>. On any well-formed channel the
  payload is a whole number of elements, so the read is never refused for its size. If it returns
  entry number \<open>s\<close>, then reinterpreting the returned elements as bytes gives exactly the payload
  committed under \<open>s\<close>; in particular, when that payload was written from a slice of elements of the
  same type, the very slice is returned.
\<close>
theorem typed_read_returns_elements:
  assumes "chan_inv log w m" "same_geom w r"
  shows "\<exists>res r' t'. raw_reader_read_as r (still m) t d fr = Some (Inr res, r', t') \<and>
     (case res of
        None \<Rightarrow> r' = r
      | Some (s, xs) \<Rightarrow>
          0 < unat s \<and> unat s \<le> length log \<and> slice_bytes d xs = log ! (unat s - 1) \<and>
          length xs = unat (rr_payload_bytes r div size_of d) \<and> rr_last_entry_seq r' = s \<and>
          (\<forall>ys. log ! (unat s - 1) = slice_bytes d ys \<longrightarrow> (\<forall>y \<in> set ys. elem_ok d y) \<longrightarrow> xs = ys))"
proof -
  note sg = same_geom_reader [OF assms] and st = read_as_still [OF assms, where d = d]
  let ?k = "unat (rr_payload_bytes r div size_of d)"
  have g: "seg_geom (rr_payload_bytes r) (rr_entry_count r) (length m)" using sg(1) by (simp add: rr_wf_def)
  obtain t' where rd: "raw_reader_read_as r (still m) t d fr =
     Some (case read_next r m fr of
         None \<Rightarrow> (Inr None, r, t')
       | Some (i, s) \<Rightarrow> (Inr (Some (s, slice_elems d ?k (log ! (unat s - 1)))),
           r\<lparr>rr_last_entry_seq := s, rr_last_read_idx := word_of_nat i\<rparr>, t'))"
    using st(1) by blast
  show ?thesis
  proof (cases "read_next r m fr")
    case None
    with rd show ?thesis by simp
  next
    case (Some p)
    obtain i s where p: "p = (i, s)" by (cases p)
    with Some obtain wm where n: "ring_next wm (rw_ring w m) = Some (i, s)"
      by (auto simp: read_next_def Let_def sg(2) split: if_splits)
    note ri = ring_inv_next [OF chan_invD(2) [OF assms(1)] n]
    have "i < unat (rr_entry_count r)" using ring_next_Some(1) [OF n] assms(2) by (simp add: same_geom_def)
    then have lg: "?k * unat (size_of d) = length (log ! (unat s - 1))"
      using ri(3) slots.gpay_width [OF g, of i] assms(2) st(2) by (simp add: rw_ring_def same_geom_def)
    show ?thesis
      using rd Some p ri(1,2) slice_bytes_elems [of _ ?k d] lg slice_elems_unique [OF lg st(3)] by auto
  qed
qed

theorem typed_read_returns_elements_witness:
  "\<exists>res r' t'. raw_reader_read_as demo_reader (still demo_written) 0 F64 None = Some (Inr res, r', t') \<and>
     (case res of None \<Rightarrow> True | Some (s, xs) \<Rightarrow> slice_bytes F64 xs = [replicate 8 9] ! (unat s - 1))"
  using typed_read_returns_elements [OF demo_chan_written, of demo_reader 0 F64 None]
  by (fastforce simp: same_geom_def split: option.splits)

end
