(* ===== verification/Zc_Endpoints.thy ===== *)
theory Zc_Endpoints
  imports Zc_Lifecycle Zc_Typed
begin

text \<open>
  The named endpoints (\<open>zerochannel/src/writer.rs\<close> and \<open>zerochannel/src/reader.rs\<close>): the ring
  protocol paired with the mapping it runs in, the channel name, the exclusive role and deferred
  connection. The operating system's state is passed through; \<open>None\<close> is an undefined access or the
  panic of \<open>expect\<close>. Dropping an endpoint runs its \<open>Drop\<close> and then drops its mapping.
\<close>

subsection \<open>The writer\<close>

record 'h os_writer =
  ow_name :: string
  ow_dtype :: dtype
  ow_delayed :: bool
  ow_inner :: "raw_writer option"
  ow_shmem :: "'h option"

definition os_writer_bind ::
    "('os, 'h) shmem_api \<Rightarrow> u64 \<Rightarrow> (u32 \<Rightarrow> bool) \<Rightarrow> 'h os_writer \<Rightarrow> 'h \<Rightarrow> header \<Rightarrow> 'os \<Rightarrow>
     (unit zc_result \<times> 'h os_writer \<times> 'os) option" where
  "os_writer_bind api me alive this shmem header os =
     do {
       (r, m, t) \<leftarrow> claim_role me alive (still (sm_get api shmem os)) 0 writer_owner ''writer'' (ow_name this);
       let os = sm_put api shmem m os in
       case r of
         Inl e \<Rightarrow> Some (Inl e, this, sm_drop api shmem os)
       | Inr _ \<Rightarrow>
           do {
             w \<leftarrow> raw_writer_attach m header;
             Some (Inr (), this\<lparr>ow_inner := Some w, ow_shmem := Some shmem\<rparr>, os)
           }
     }"

definition os_writer_new ::
    "('os, 'h) shmem_api \<Rightarrow> u64 \<Rightarrow> (u32 \<Rightarrow> bool) \<Rightarrow> string \<Rightarrow> usize option \<Rightarrow> usize option \<Rightarrow> dtype \<Rightarrow> bool \<Rightarrow>
     'os \<Rightarrow> (('h os_writer) zc_result \<times> 'os) option" where
  "os_writer_new api me alive name payload_bytes entry_count dt delayed_connect os =
     (let this = \<lparr>ow_name = name, ow_dtype = dt, ow_delayed = delayed_connect, ow_inner = None, ow_shmem = None\<rparr> in
      do {
        (r, os) \<leftarrow> open_or_create api me alive name payload_bytes entry_count dt delayed_connect os;
        case r of
          Inl e \<Rightarrow> Some (Inl e, os)
        | Inr None \<Rightarrow> Some (Inr this, os)
        | Inr (Some (shmem, header)) \<Rightarrow>
            do {
              (r, this, os) \<leftarrow> os_writer_bind api me alive this shmem header os;
              case r of Inl e \<Rightarrow> Some (Inl e, os) | Inr _ \<Rightarrow> Some (Inr this, os)
            }
      })"

definition os_writer_payload_bytes :: "'h os_writer \<Rightarrow> usize" where
  "os_writer_payload_bytes this = (case ow_inner this of None \<Rightarrow> 0 | Some w \<Rightarrow> raw_writer_payload_bytes w)"

definition os_writer_last_entry_seq :: "'h os_writer \<Rightarrow> u64" where
  "os_writer_last_entry_seq this = (case ow_inner this of None \<Rightarrow> 0 | Some w \<Rightarrow> raw_writer_last_entry_seq w)"

definition os_writer_ensure_connected ::
    "('os, 'h) shmem_api \<Rightarrow> u64 \<Rightarrow> (u32 \<Rightarrow> bool) \<Rightarrow> 'h os_writer \<Rightarrow> 'os \<Rightarrow>
     (bool zc_result \<times> 'h os_writer \<times> 'os) option" where
  "os_writer_ensure_connected api me alive this os =
     (if ow_inner this \<noteq> None then Some (Inr True, this, os)
      else do {
        (r, os) \<leftarrow> try_attach api (ow_name this) (ow_dtype this) os;
        case r of
          Inl e \<Rightarrow> Some (Inl e, this, os)
        | Inr (Some (shmem, header)) \<Rightarrow>
            do {
              (r, this, os) \<leftarrow> os_writer_bind api me alive this shmem header os;
              case r of Inl e \<Rightarrow> Some (Inl e, this, os) | Inr _ \<Rightarrow> Some (Inr True, this, os)
            }
        | Inr None \<Rightarrow>
            if ow_delayed this then Some (Inr False, this, os)
            else Some (Inl (OsError ''shared memory segment not available''), this, os)
      })"

text \<open>\<open>self.inner.as_mut().expect("connected")\<close>, with the mapping it points into.\<close>

definition ow_connected :: "'h os_writer \<Rightarrow> (raw_writer \<times> 'h) option" where
  "ow_connected this =
     do { w \<leftarrow> ow_inner this; h \<leftarrow> ow_shmem this; Some (w, h) }"

definition os_writer_write ::
    "('os, 'h) shmem_api \<Rightarrow> u64 \<Rightarrow> (u32 \<Rightarrow> bool) \<Rightarrow> 'h os_writer \<Rightarrow> byte list \<Rightarrow> 'os \<Rightarrow>
     (unit zc_result \<times> 'h os_writer \<times> 'os) option" where
  "os_writer_write api me alive this data os =
     do {
       (c, this, os) \<leftarrow> os_writer_ensure_connected api me alive this os;
       case c of
         Inl e \<Rightarrow> Some (Inl e, this, os)
       | Inr connected \<Rightarrow>
           if \<not> connected then Some (Inr (), this, os)
           else do {
             (w, h) \<leftarrow> ow_connected this;
             (r, w, m) \<leftarrow> raw_writer_write w (sm_get api h os) data;
             Some (r, this\<lparr>ow_inner := Some w\<rparr>, sm_put api h m os)
           }
     }"

definition os_writer_try_acquire ::
    "('os, 'h) shmem_api \<Rightarrow> u64 \<Rightarrow> (u32 \<Rightarrow> bool) \<Rightarrow> 'h os_writer \<Rightarrow> 'os \<Rightarrow>
     ((write_handle option) zc_result \<times> 'h os_writer \<times> 'os) option" where
  "os_writer_try_acquire api me alive this os =
     do {
       (c, this, os) \<leftarrow> os_writer_ensure_connected api me alive this os;
       case c of
         Inl e \<Rightarrow> Some (Inl e, this, os)
       | Inr connected \<Rightarrow>
           if \<not> connected then Some (Inr None, this, os)
           else do {
             (w, h) \<leftarrow> ow_connected this;
             (r, m) \<leftarrow> raw_writer_try_acquire w (sm_get api h os);
             Some (case r of Inl e \<Rightarrow> Inl e | Inr handle \<Rightarrow> Inr (Some handle), this, sm_put api h m os)
           }
     }"

definition os_writer_commit ::
    "('os, 'h) shmem_api \<Rightarrow> 'h os_writer \<Rightarrow> write_handle \<Rightarrow> 'os \<Rightarrow> (u64 \<times> 'h os_writer \<times> 'os) option" where
  "os_writer_commit api this handle os =
     do {
       (w, h) \<leftarrow> ow_connected this;
       (seq, w, m) \<leftarrow> raw_writer_commit w (sm_get api h os) handle;
       Some (seq, this\<lparr>ow_inner := Some w\<rparr>, sm_put api h m os)
     }"

definition os_writer_drop :: "('os, 'h) shmem_api \<Rightarrow> u64 \<Rightarrow> 'h os_writer \<Rightarrow> 'os \<Rightarrow> 'os option" where
  "os_writer_drop api me this os =
     (case ow_shmem this of
        None \<Rightarrow> Some os
      | Some shmem \<Rightarrow>
          do {
            m \<leftarrow> release_role me (sm_get api shmem os) writer_owner;
            Some (sm_drop api shmem (sm_put api shmem m os))
          })"

subsection \<open>The reader\<close>

record 'h os_reader =
  or_name :: string
  or_dtype :: dtype
  or_delayed :: bool
  or_zero_copy :: bool
  or_inner :: "raw_reader option"
  or_shmem :: "'h option"

definition os_reader_bind ::
    "('os, 'h) shmem_api \<Rightarrow> u64 \<Rightarrow> (u32 \<Rightarrow> bool) \<Rightarrow> 'h os_reader \<Rightarrow> 'h \<Rightarrow> header \<Rightarrow> 'os \<Rightarrow>
     (unit zc_result \<times> 'h os_reader \<times> 'os) option" where
  "os_reader_bind api me alive this shmem header os =
     do {
       (r, os) \<leftarrow>
         (if or_zero_copy this
          then do {
            (r, m, t) \<leftarrow> claim_role me alive (still (sm_get api shmem os)) 0 zc_reader_owner
              ''zero-copy reader'' (or_name this);
            Some (r, sm_put api shmem m os)
          }
          else Some (Inr (), os));
       case r of
         Inl e \<Rightarrow> Some (Inl e, this, sm_drop api shmem os)
       | Inr _ \<Rightarrow>
           Some (Inr (), this\<lparr>or_inner := Some (raw_reader_attach header), or_shmem := Some shmem\<rparr>, os)
     }"

definition os_reader_open ::
    "('os, 'h) shmem_api \<Rightarrow> u64 \<Rightarrow> (u32 \<Rightarrow> bool) \<Rightarrow> string \<Rightarrow> usize option \<Rightarrow> usize option \<Rightarrow> dtype \<Rightarrow> bool \<Rightarrow>
     bool \<Rightarrow> 'os \<Rightarrow> (('h os_reader) zc_result \<times> 'os) option" where
  "os_reader_open api me alive name payload_bytes entry_count dt delayed_connect enable_zero_copy os =
     (let this = \<lparr>or_name = name, or_dtype = dt, or_delayed = delayed_connect, or_zero_copy = enable_zero_copy,
                  or_inner = None, or_shmem = None\<rparr> in
      do {
        (r, os) \<leftarrow> open_or_create api me alive name payload_bytes entry_count dt delayed_connect os;
        case r of
          Inl e \<Rightarrow> Some (Inl e, os)
        | Inr None \<Rightarrow> Some (Inr this, os)
        | Inr (Some (shmem, header)) \<Rightarrow>
            do {
              (r, this, os) \<leftarrow> os_reader_bind api me alive this shmem header os;
              case r of Inl e \<Rightarrow> Some (Inl e, os) | Inr _ \<Rightarrow> Some (Inr this, os)
            }
      })"

definition os_reader_new where
  "os_reader_new api me alive name payload_bytes entry_count dt delayed_connect os =
     os_reader_open api me alive name payload_bytes entry_count dt delayed_connect False os"

definition os_reader_new_zero_copy where
  "os_reader_new_zero_copy api me alive name payload_bytes entry_count dt delayed_connect os =
     os_reader_open api me alive name payload_bytes entry_count dt delayed_connect True os"

definition os_reader_payload_bytes :: "'h os_reader \<Rightarrow> usize" where
  "os_reader_payload_bytes this = (case or_inner this of None \<Rightarrow> 0 | Some r \<Rightarrow> raw_reader_payload_bytes r)"

definition os_reader_last_entry_seq :: "'h os_reader \<Rightarrow> u64" where
  "os_reader_last_entry_seq this = (case or_inner this of None \<Rightarrow> 0 | Some r \<Rightarrow> raw_reader_last_entry_seq r)"

definition or_connected :: "'h os_reader \<Rightarrow> (raw_reader \<times> 'h) option" where
  "or_connected this =
     do { r \<leftarrow> or_inner this; h \<leftarrow> or_shmem this; Some (r, h) }"

definition os_reader_writer_entry_seq :: "('os, 'h) shmem_api \<Rightarrow> 'h os_reader \<Rightarrow> 'os \<Rightarrow> u64 option" where
  "os_reader_writer_entry_seq api this os =
     (case or_inner this of
        None \<Rightarrow> Some 0
      | Some r \<Rightarrow> do { h \<leftarrow> or_shmem this; writer_entry_seq (still (sm_get api h os)) 0 })"

definition os_reader_ensure_connected ::
    "('os, 'h) shmem_api \<Rightarrow> u64 \<Rightarrow> (u32 \<Rightarrow> bool) \<Rightarrow> 'h os_reader \<Rightarrow> 'os \<Rightarrow>
     (bool zc_result \<times> 'h os_reader \<times> 'os) option" where
  "os_reader_ensure_connected api me alive this os =
     (if or_inner this \<noteq> None then Some (Inr True, this, os)
      else do {
        (r, os) \<leftarrow> try_attach api (or_name this) (or_dtype this) os;
        case r of
          Inl e \<Rightarrow> Some (Inl e, this, os)
        | Inr (Some (shmem, header)) \<Rightarrow>
            do {
              (r, this, os) \<leftarrow> os_reader_bind api me alive this shmem header os;
              case r of Inl e \<Rightarrow> Some (Inl e, this, os) | Inr _ \<Rightarrow> Some (Inr True, this, os)
            }
        | Inr None \<Rightarrow>
            if or_delayed this then Some (Inr False, this, os)
            else Some (Inl (OsError ''shared memory segment not available''), this, os)
      })"

definition os_reader_connect where
  "os_reader_connect api me alive this os = os_reader_ensure_connected api me alive this os"

definition os_reader_read_into ::
    "('os, 'h) shmem_api \<Rightarrow> u64 \<Rightarrow> (u32 \<Rightarrow> bool) \<Rightarrow> 'h os_reader \<Rightarrow> byte list \<Rightarrow> u64 option \<Rightarrow> 'os \<Rightarrow>
     ((u64 option) zc_result \<times> 'h os_reader \<times> byte list \<times> 'os) option" where
  "os_reader_read_into api me alive this dst from_entry_seq os =
     do {
       (c, this, os) \<leftarrow> os_reader_ensure_connected api me alive this os;
       case c of
         Inl e \<Rightarrow> Some (Inl e, this, dst, os)
       | Inr connected \<Rightarrow>
           if \<not> connected then Some (Inr None, this, dst, os)
           else do {
             (r, h) \<leftarrow> or_connected this;
             (res, r, dst, t) \<leftarrow> raw_reader_read_into r (still (sm_get api h os)) 0 dst from_entry_seq;
             Some (res, this\<lparr>or_inner := Some r\<rparr>, dst, os)
           }
     }"

definition os_reader_read_into_as ::
    "('os, 'h) shmem_api \<Rightarrow> u64 \<Rightarrow> (u32 \<Rightarrow> bool) \<Rightarrow> dtype \<Rightarrow> 'h os_reader \<Rightarrow> u64 list \<Rightarrow> u64 option \<Rightarrow> 'os \<Rightarrow>
     ((u64 option) zc_result \<times> 'h os_reader \<times> u64 list \<times> 'os) option" where
  "os_reader_read_into_as api me alive d this dst from_entry_seq os =
     do {
       (c, this, os) \<leftarrow> os_reader_ensure_connected api me alive this os;
       case c of
         Inl e \<Rightarrow> Some (Inl e, this, dst, os)
       | Inr connected \<Rightarrow>
           if \<not> connected then Some (Inr None, this, dst, os)
           else do {
             (r, h) \<leftarrow> or_connected this;
             (res, r, dst, t) \<leftarrow> raw_reader_read_into_as r (still (sm_get api h os)) 0 d dst from_entry_seq;
             Some (res, this\<lparr>or_inner := Some r\<rparr>, dst, os)
           }
     }"

definition os_reader_read_as ::
    "('os, 'h) shmem_api \<Rightarrow> u64 \<Rightarrow> (u32 \<Rightarrow> bool) \<Rightarrow> dtype \<Rightarrow> 'h os_reader \<Rightarrow> u64 option \<Rightarrow> 'os \<Rightarrow>
     (((u64 \<times> u64 list) option) zc_result \<times> 'h os_reader \<times> 'os) option" where
  "os_reader_read_as api me alive d this from_entry_seq os =
     do {
       (c, this, os) \<leftarrow> os_reader_ensure_connected api me alive this os;
       case c of
         Inl e \<Rightarrow> Some (Inl e, this, os)
       | Inr connected \<Rightarrow>
           if \<not> connected then Some (Inr None, this, os)
           else do {
             (r, h) \<leftarrow> or_connected this;
             (res, r, t) \<leftarrow> raw_reader_read_as r (still (sm_get api h os)) 0 d from_entry_seq;
             Some (res, this\<lparr>or_inner := Some r\<rparr>, os)
           }
     }"

definition os_reader_read where
  "os_reader_read api me alive this from_entry_seq os =
     os_reader_read_as api me alive U8 this from_entry_seq os"

definition os_reader_try_acquire ::
    "('os, 'h) shmem_api \<Rightarrow> u64 \<Rightarrow> (u32 \<Rightarrow> bool) \<Rightarrow> 'h os_reader \<Rightarrow> u64 option \<Rightarrow> 'os \<Rightarrow>
     ((read_handle option) zc_result \<times> 'h os_reader \<times> 'os) option" where
  "os_reader_try_acquire api me alive this from_entry_seq os =
     (if \<not> or_zero_copy this
      then Some (Inl (InvalidArgument ''zero-copy reads require a reader built with new_zero_copy''), this, os)
      else do {
        (c, this, os) \<leftarrow> os_reader_ensure_connected api me alive this os;
        case c of
          Inl e \<Rightarrow> Some (Inl e, this, os)
        | Inr connected \<Rightarrow>
            if \<not> connected then Some (Inr None, this, os)
            else do {
              (r, h) \<leftarrow> or_connected this;
              (res, r, m, t) \<leftarrow> raw_reader_try_acquire r (still (sm_get api h os)) 0 from_entry_seq;
              Some (res, this\<lparr>or_inner := Some r\<rparr>, sm_put api h m os)
            }
      })"

definition os_reader_release ::
    "('os, 'h) shmem_api \<Rightarrow> 'h os_reader \<Rightarrow> read_handle \<Rightarrow> 'os \<Rightarrow> 'os option" where
  "os_reader_release api this handle os =
     (case or_inner this of
        None \<Rightarrow> Some os
      | Some r \<Rightarrow>
          do {
            h \<leftarrow> or_shmem this;
            m \<leftarrow> raw_reader_release r (sm_get api h os) handle;
            Some (sm_put api h m os)
          })"

definition os_reader_drop :: "('os, 'h) shmem_api \<Rightarrow> u64 \<Rightarrow> 'h os_reader \<Rightarrow> 'os \<Rightarrow> 'os option" where
  "os_reader_drop api me this os =
     (case or_shmem this of
        None \<Rightarrow> Some os
      | Some shmem \<Rightarrow>
          do {
            os \<leftarrow> (if or_zero_copy this
                    then do {
                      m \<leftarrow> release_role me (sm_get api shmem os) zc_reader_owner;
                      Some (sm_put api shmem m os)
                    }
                    else Some os);
            Some (sm_drop api shmem os)
          })"

lemmas [conn_defs] =
  os_writer_ensure_connected_def ow_connected_def os_reader_ensure_connected_def or_connected_def

subsection \<open>Binding a writer\<close>

lemma ring_of_set_hdr_other:
  assumes "seg_geom pb n (length m)" "hdr_off off" "off \<noteq> OFF_WRITE_INDEX" "off \<noteq> OFF_LAST_ENTRY_SEQ"
  shows "ring_of pb n (set_hdr m off v) = ring_of pb n m"
  using assms seg_geom_72 [OF assms(1)] by (simp add: ring_of_def hdr_at_set_hdr)

lemma attach_fresh:
  fixes dt :: dtype and pid v :: u64
  assumes "seg_geom pb n (length m)"
  defines "w \<equiv> \<lparr>rw_payload_bytes = pb, rw_entry_count = n, rw_current_index = 0, rw_last_entry_seq = 0\<rparr>"
  defines "m' \<equiv> set_hdr (initialized pb n dt pid m) writer_owner v"
  shows "raw_writer_attach m' (fresh_header pb n dt) = Some w" "chan_inv [] w m'" "chan_sync w m'"
    "length m' = length m" "read_header m' = Some (Inr (Some (fresh_header pb n dt)))"
proof -
  let ?m = "initialized pb n dt pid m"
  have g: "seg_geom pb n (length ?m)" using assms(1) by (simp add: initialized_views(1) [OF assms(1)])
  have 72: "72 \<le> length ?m" using g by (rule seg_geom_72)
  show len: "length m' = length m" using 72 by (simp add: m'_def initialized_views(1) [OF assms(1)])
  have r: "ring_of pb n m' = ring_of pb n ?m" unfolding m'_def by (rule ring_of_set_hdr_other [OF g]) simp_all
  have g': "seg_geom pb n (length m')" using assms(1) len by simp
  have n: "0 < unat n" using assms(1) by (simp add: seg_geom_def)
  have "ring_max_seq 0 (ring_of pb n m') = 0"
    unfolding r ring_of_initialized [OF assms(1)] using n by (simp add: ring_max_seq_def)
  moreover have "seq_at pb m' 0 = 0" using n g by (simp add: m'_def initialized_views [OF assms(1)])
  ultimately show "raw_writer_attach m' (fresh_header pb n dt) = Some w"
    using n by (simp add: raw_writer_attach_def recover_state_eq [OF g'] fresh_header_def w_def)
  show "chan_inv [] w m'" "chan_sync w m'"
    using g' n by (simp_all add: chan_inv_def chan_sync_def rw_wf_def rw_ring_def w_def r
        ring_of_initialized [OF assms(1)] ring_inv_empty)
  show "read_header m' = Some (Inr (Some (fresh_header pb n dt)))"
    using 72 len by (subst read_header_valid)
      (simp_all add: m'_def hdr_at_set_hdr initialized_views [OF assms(1)] fresh_header_def)
qed

lemma writer_bind_eq:
  assumes "72 \<le> length (sm_get api h os)"
  defines "m \<equiv> sm_get api h os"
  shows "os_writer_bind api me alive this h hx os =
     (if hdr_at m writer_owner \<noteq> 0 \<and> alive (ucast (hdr_at m writer_owner))
      then Some (Inl (role_conflict ''writer'' (ow_name this) (hdr_at m writer_owner)), this,
             sm_drop api h (sm_put api h m os))
      else do {
        w \<leftarrow> raw_writer_attach (set_hdr m writer_owner me) hx;
        Some (Inr (), this\<lparr>ow_inner := Some w, ow_shmem := Some h\<rparr>,
          sm_put api h (set_hdr m writer_owner me) os)
      })"
  using writer_role.claim_alone [OF assms(1), of me alive 0 "''writer''" "ow_name this"]
  by (cases "hdr_at m writer_owner = 0"; cases "alive (ucast (hdr_at m writer_owner))")
    (simp_all add: os_writer_bind_def m_def Let_def del: cell_addrs)

lemma writer_bind_fresh:
  assumes "seg_geom pb n (length m)" "sm_get api h os = initialized pb n dt pid m"
  shows "os_writer_bind api me alive this h (fresh_header pb n dt) os =
     Some (Inr (), this\<lparr>ow_inner := Some \<lparr>rw_payload_bytes = pb, rw_entry_count = n, rw_current_index = 0,
         rw_last_entry_seq = 0\<rparr>, ow_shmem := Some h\<rparr>,
       sm_put api h (set_hdr (initialized pb n dt pid m) writer_owner me) os)"
proof -
  have "72 \<le> length (sm_get api h os)" "hdr_at (sm_get api h os) writer_owner = 0"
    using seg_geom_72 [OF assms(1)] by (simp_all add: assms(2) initialized_views [OF assms(1)])
  with writer_bind_eq [OF this(1), of me alive this "fresh_header pb n dt"] attach_fresh(1) [OF assms(1)] show ?thesis
    by (simp add: assms(2) del: cell_addrs)
qed

lemma writer_bind_refused:
  assumes "shmem_ok api" "72 \<le> length (sm_get api h os)"
    and "hdr_at (sm_get api h os) writer_owner = holder" "holder \<noteq> 0" "alive (ucast holder)"
  shows "os_writer_bind api me alive this h hx os =
     Some (Inl (role_conflict ''writer'' (ow_name this) holder), this, sm_drop api h os)"
  using assms(3-5) writer_bind_eq [OF assms(2), of me alive this hx] put_get [OF assms(1), of h os]
  by (simp del: cell_addrs)

subsection \<open>The writer role across processes\<close>

text \<open>The simulated channel of deed holder 5 with a bound writer, process 7.\<close>

definition bound_os :: sim_os where
  "bound_os = sm_put sim_api chan_shmem (set_hdr (initialized 8 2 F64 5 (replicate 104 0)) writer_owner 7) (chan_os 5)"

lemma bound_os_facts:
  "sm_open sim_api ''c'' bound_os = Some chan_shmem"
  "sm_get sim_api chan_shmem bound_os = set_hdr (initialized 8 2 F64 5 (replicate 104 0)) writer_owner 7"
  "read_header (sm_get sim_api chan_shmem bound_os) = Some (Inr (Some (fresh_header 8 2 F64)))"
  "hdr_at (sm_get sim_api chan_shmem bound_os) writer_owner = 7"
  "hdr_at (sm_get sim_api chan_shmem bound_os) segment_owner = 5"
proof -
  show get: "sm_get sim_api chan_shmem bound_os = set_hdr (initialized 8 2 F64 5 (replicate 104 0)) writer_owner 7"
    by (simp add: bound_os_def get_put [OF sim_ok])
  show "sm_open sim_api ''c'' bound_os = Some chan_shmem"
    by (simp add: bound_os_def sim_api_def chan_os_def chan_shmem_def)
  show "read_header (sm_get sim_api chan_shmem bound_os) = Some (Inr (Some (fresh_header 8 2 F64)))"
    unfolding get by (rule attach_fresh(5) [OF chan_geom])
  have "72 \<le> length (initialized 8 2 F64 5 (replicate 104 0))"
    by (simp add: initialized_views(1) [OF chan_geom])
  then show "hdr_at (sm_get sim_api chan_shmem bound_os) writer_owner = 7"
    "hdr_at (sm_get sim_api chan_shmem bound_os) segment_owner = 5"
    unfolding get by (simp_all add: hdr_at_set_hdr initialized_views [OF chan_geom])
qed

text \<open>
  C29: A second writer is refused without harm unless it wins the segment deed. On a channel whose
  writer role is held by a live process (this one included), constructing a writer fails with
  \<open>RoleConflict\<close> naming the holder, and leaves every name and every byte as it was, if no sizes are
  given, or if the channel's own sizes are given and the deed is held by this process or by another
  live one. (A deed whose holder is dead is the case of \<open>conflict_unlinks_live_channel\<close>.)
\<close>
theorem second_writer_refused:
  assumes "shmem_ok api" "sm_open api name os = Some h"
    and "read_header (sm_get api h os) = Some (Inr (Some hx))" "check_dtype hx dt = Inr ()"
    and "hdr_payload_bytes hx \<noteq> 0" "hdr_entry_count hx \<noteq> 0"
    and "hdr_at (sm_get api h os) writer_owner = holder" "holder \<noteq> 0" "alive (ucast holder)"
    and "hdr_at (sm_get api h os) segment_owner = owner"
  shows "(\<exists>os'. os_writer_new api me alive name None None dt delayed os =
       Some (Inl (role_conflict ''writer'' name holder), os') \<and> same_os api os' os) \<and>
     (\<forall>pb n. check_geometry pb n = Inr () \<longrightarrow> validate_header hx pb n = Inr () \<longrightarrow>
        owner \<noteq> 0 \<longrightarrow> owner = me \<or> alive (ucast owner) \<longrightarrow>
        (\<exists>os'. os_writer_new api me alive name (Some pb) (Some n) dt delayed os =
           Some (Inl (role_conflict ''writer'' name holder), os') \<and> same_os api os' os))"
proof (intro conjI allI impI)
  have 72: "72 \<le> length (sm_get api h os)" using assms(3) by (rule read_header_72)
  have "open_or_create api me alive name None None dt delayed os = Some (Inr (Some (h, hx)), os)"
    using assms(2-6) by (simp add: open_or_create_def try_attach_def try_open_def header_of_def)
  then have "os_writer_new api me alive name None None dt delayed os =
      Some (Inl (role_conflict ''writer'' name holder), sm_drop api h os)"
    using writer_bind_refused [OF assms(1) 72 assms(7,8), of alive] assms(9) by (simp add: os_writer_new_def Let_def)
  with same_os_drop [OF assms(1) open_facts(3) [OF assms(1,2)]]
  show "\<exists>os'. os_writer_new api me alive name None None dt delayed os =
       Some (Inl (role_conflict ''writer'' name holder), os') \<and> same_os api os' os" by blast
  fix pb n assume "check_geometry pb n = Inr ()" "validate_header hx pb n = Inr ()"
    and deed: "owner \<noteq> 0" "owner = me \<or> alive (ucast owner)"
  let ?h = "sm_set_owner api False h"
  have "\<not> deed_free me alive (sm_get api h os)" using deed assms(10) by (auto simp: deed_free_def)
  then have op: "open_or_create api me alive name (Some pb) (Some n) dt delayed os = Some (Inr (Some (?h, hx)), os)"
    using open_existing [OF assms(1,2) \<open>check_geometry pb n = Inr ()\<close> assms(3) \<open>validate_header hx pb n = Inr ()\<close> assms(4)]
    by (simp add: put_get [OF assms(1)])
  have "sm_get api ?h os = sm_get api h os" by (intro get_same_seg assms(1)) (simp add: set_owner_facts [OF assms(1)])
  then have "os_writer_new api me alive name (Some pb) (Some n) dt delayed os =
      Some (Inl (role_conflict ''writer'' name holder), sm_drop api ?h os)"
    using writer_bind_refused [OF assms(1), of ?h os holder alive] 72 assms(7-9) by (simp add: os_writer_new_def Let_def op)
  moreover have "same_os api (sm_drop api ?h os) os"
    by (intro same_os_drop assms(1)) (simp add: set_owner_facts [OF assms(1)])
  ultimately show "\<exists>os'. os_writer_new api me alive name (Some pb) (Some n) dt delayed os =
       Some (Inl (role_conflict ''writer'' name holder), os') \<and> same_os api os' os" by blast
qed

theorem second_writer_refused_witness:
  "(\<exists>os'. os_writer_new sim_api 9 (\<lambda>p. True) ''c'' None None F64 False bound_os =
       Some (Inl (role_conflict ''writer'' ''c'' 7), os') \<and> same_os sim_api os' bound_os) \<and>
   (\<exists>os'. os_writer_new sim_api 9 (\<lambda>p. True) ''c'' (Some 8) (Some 2) F64 False bound_os =
       Some (Inl (role_conflict ''writer'' ''c'' 7), os') \<and> same_os sim_api os' bound_os)"
  using second_writer_refused [OF sim_ok bound_os_facts(1,3) _ _ _ bound_os_facts(4) _ _ bound_os_facts(5),
      of F64 "\<lambda>p. True" 9 False]
  by (simp add: fresh_header_def check_dtype_def validate_header_def check_geometry_ok)

text \<open>
  C36: The same refusal with sizes can destroy the channel. If the deed's holder has died while the
  writer is still alive, a second process that declares the (correct) sizes first wins the deed and
  then loses the writer role; the mapping it drops on its way out owns the segment, so the name of
  the healthy channel, which its writer is still using, is removed.
\<close>
theorem conflict_unlinks_live_channel:
  assumes "shmem_ok api" "sm_open api name os = Some h" "check_geometry pb n = Inr ()"
    and "read_header (sm_get api h os) = Some (Inr (Some hx))"
    and "validate_header hx pb n = Inr ()" "check_dtype hx dt = Inr ()"
    and "hdr_at (sm_get api h os) segment_owner = dead" "dead \<noteq> 0" "dead \<noteq> me" "\<not> alive (ucast dead)"
    and "hdr_at (sm_get api h os) writer_owner = holder" "holder \<noteq> 0" "alive (ucast holder)"
  shows "\<exists>os'. os_writer_new api me alive name (Some pb) (Some n) dt delayed os =
       Some (Inl (role_conflict ''writer'' name holder), os') \<and>
     sm_find api name os \<noteq> None \<and> sm_find api name os' = None"
proof -
  let ?m = "sm_get api h os" and ?h = "sm_set_owner api True h"
  let ?os = "sm_put api h (set_hdr ?m segment_owner me) os"
  have 72: "72 \<le> length ?m" using assms(4) by (rule read_header_72)
  have "deed_free me alive ?m" using assms(7-10) by (simp add: deed_free_def)
  then have op: "open_or_create api me alive name (Some pb) (Some n) dt delayed os = Some (Inr (Some (?h, hx)), ?os)"
    using open_existing [OF assms(1-6), of me alive delayed] by simp
  have "sm_get api ?h ?os = set_hdr ?m segment_owner me"
    by (simp add: get_put [OF assms(1)] set_owner_facts [OF assms(1)])
  then have "os_writer_bind api me alive this ?h hx ?os =
      Some (Inl (role_conflict ''writer'' (ow_name this) holder), this, sm_drop api ?h ?os)" for this
    using 72 assms(11-13) by (intro writer_bind_refused [OF assms(1)]) (simp_all add: hdr_at_set_hdr)
  then have "os_writer_new api me alive name (Some pb) (Some n) dt delayed os =
      Some (Inl (role_conflict ''writer'' name holder), sm_drop api ?h ?os)"
    by (simp add: os_writer_new_def Let_def op)
  moreover have "sm_find api name (sm_drop api ?h ?os) = None"
    using open_facts(2) [OF assms(1,2)] by (simp add: find_drop [OF assms(1)] set_owner_facts [OF assms(1)])
  moreover have "sm_find api name os \<noteq> None" using open_facts(1) [OF assms(1,2)] by simp
  ultimately show ?thesis by blast
qed

theorem conflict_unlinks_live_channel_witness:
  "\<exists>os'. os_writer_new sim_api 9 (\<lambda>p. p = 7) ''c'' (Some 8) (Some 2) F64 False bound_os =
       Some (Inl (role_conflict ''writer'' ''c'' 7), os') \<and>
     sm_find sim_api ''c'' bound_os \<noteq> None \<and> sm_find sim_api ''c'' os' = None"
  by (rule conflict_unlinks_live_channel [OF sim_ok bound_os_facts(1) _ bound_os_facts(3) _ _
        bound_os_facts(5) _ _ _ bound_os_facts(4)])
    (simp_all add: fresh_header_def check_dtype_def validate_header_def check_geometry_ok)

end
