(* ===== verification/Zc_Delivery.thy ===== *)
theory Zc_Delivery
  imports Zc_Channel
begin

text \<open>
  The channel from end to end, without interference: a fresh segment, a sequence of writes and a
  reader that drains it. While no slot is held the ring is a sliding window: it retains exactly the
  newest entries, as many as it has slots, and the reader receives them oldest first.
\<close>

subsection \<open>The sliding window\<close>

definition dense :: "byte list list \<Rightarrow> ring \<Rightarrow> bool" where
  "dense log g \<longleftrightarrow>
     ring_inv log g \<and>
     (\<forall>s. 0 < s \<longrightarrow> s \<le> length log \<longrightarrow> length log < s + length (rg_seqs g) \<longrightarrow>
        rg_seqs g ! ((s - 1) mod length (rg_seqs g)) = word_of_nat s) \<and>
     (\<forall>v \<in> set (rg_seqs g). \<not> held v \<and> (v \<noteq> 0 \<longrightarrow> length log < unat v + length (rg_seqs g)))"

lemma denseD:
  assumes "dense log g"
  shows "ring_inv log g"
    and "\<And>s. 0 < s \<Longrightarrow> s \<le> length log \<Longrightarrow> length log < s + length (rg_seqs g) \<Longrightarrow>
        rg_seqs g ! ((s - 1) mod length (rg_seqs g)) = word_of_nat s"
    and "\<And>v. v \<in> set (rg_seqs g) \<Longrightarrow> \<not> held v"
    and "\<And>v. v \<in> set (rg_seqs g) \<Longrightarrow> v \<noteq> 0 \<Longrightarrow> length log < unat v + length (rg_seqs g)"
  using assms by (auto simp: dense_def)

lemma mod_window_inj:
  assumes "a mod n = b mod n" "a < b + n" "b < a + (n :: nat)"
  shows "a = b"
proof -
  have "False" if "x mod n = y mod n" "x < y" "y < x + n" for x y :: nat
  proof -
    have "n dvd y - x" using that(1,2) by (metis less_imp_le mod_eq_dvd_iff_nat)
    then have "n \<le> y - x" using that(2) by (intro dvd_imp_le) simp_all
    with that show False by simp
  qed
  from this [of a b] this [of b a] assms show ?thesis by (metis linorder_neqE_nat)
qed

lemma ring_write_seqs: "rg_seqs (ring_write i x s g) = (rg_seqs g)[i := s]"
  by (simp add: ring_write_def ring_publish_def ring_fill_def)

text \<open>Every slot but the one at the cursor stays inside the window when the log grows.\<close>

lemma dense_other_slot:
  assumes d: "dense log g" and n: "0 < length (rg_seqs g)"
    and j: "j < length (rg_seqs g)" "j \<noteq> length log mod length (rg_seqs g)" "rg_seqs g ! j \<noteq> 0"
  shows "Suc (length log) < unat (rg_seqs g ! j) + length (rg_seqs g)"
proof -
  let ?n = "length (rg_seqs g)" and ?L = "length log" and ?v = "rg_seqs g ! j"
  note dd = denseD [OF d]
  have v: "0 < unat ?v" using j(3) by (simp add: unat_gt_0)
  have "Suc ?L \<noteq> unat ?v + ?n"
  proof
    assume e: "Suc ?L = unat ?v + ?n"
    with v n have "rg_seqs g ! ((unat ?v - 1) mod ?n) = word_of_nat (unat ?v)"
      by (intro dd(2)) (simp_all del: length_greater_0_conv)
    moreover have "(unat ?v - 1) mod ?n = ?L mod ?n"
      using e v by (metis Suc_diff_1 add_Suc mod_add_self2 nat.inject)
    ultimately have "rg_seqs g ! (?L mod ?n) = ?v" by simp
    moreover have "seqs_unique g" using dd(1) by (simp add: ring_inv_def)
    ultimately show False using seqs_uniqueD [of g "?L mod ?n" j] n j by auto
  qed
  moreover have "?L < unat ?v + ?n" using dd(4) j(1,3) by simp
  ultimately show ?thesis by linarith
qed

lemma dense_write:
  assumes d: "dense log g" and n: "0 < length (rg_seqs g)" and len: "Suc (length log) < 2 ^ 63"
  shows "dense (log @ [x]) (ring_write (length log mod length (rg_seqs g)) x (word_of_nat (Suc (length log))) g)"
proof -
  let ?n = "length (rg_seqs g)" and ?L = "length log"
  let ?c = "?L mod ?n" and ?s = "word_of_nat (Suc (length log)) :: u64"
  let ?g = "ring_write ?c x ?s g"
  note dd = denseD [OF d]
  have c: "?c < ?n" using n by simp
  have sq: "rg_seqs ?g = (rg_seqs g)[?c := ?s]" by (simp only: ring_write_seqs)
  have us: "unat ?s = Suc ?L" using len by (intro unat_of_nat_u64) simp
  have cs: "committed ?s" using len by (intro committed_of_nat) auto
  have "ring_inv (log @ [x]) ?g" using dd(1) c len by (rule ring_inv_write)
  moreover have "rg_seqs ?g ! ((s - 1) mod ?n) = word_of_nat s"
    if s: "0 < s" "s \<le> Suc ?L" "Suc ?L < s + ?n" for s
  proof (cases "s = Suc ?L")
    case True
    then show ?thesis using c by (simp add: sq del: of_nat_Suc)
  next
    case False
    then have "(s - 1) mod ?n \<noteq> ?c" using s mod_window_inj [of "s - 1" ?n ?L] by fastforce
    with False s dd(2) [of s] show ?thesis by (simp add: sq del: of_nat_Suc)
  qed
  moreover have "\<not> held v \<and> (v \<noteq> 0 \<longrightarrow> Suc ?L < unat v + ?n)" if v: "v \<in> set (rg_seqs ?g)" for v
  proof -
    from v obtain j where j: "j < ?n" "v = rg_seqs ?g ! j" by (auto simp: in_set_conv_nth sq simp del: of_nat_Suc)
    show ?thesis
    proof (cases "j = ?c")
      case True
      with j c us cs n show ?thesis by (simp add: sq del: of_nat_Suc)
    next
      case False
      then have vj: "v = rg_seqs g ! j" "v \<in> set (rg_seqs g)" using j by (simp_all add: sq del: of_nat_Suc)
      with dd(3) [OF vj(2)] dense_other_slot [OF d n j(1) False] show ?thesis by simp
    qed
  qed
  ultimately show ?thesis by (simp add: dense_def sq del: of_nat_Suc)
qed

text \<open>The oldest retained entry above a position.\<close>

lemma dense_next:
  assumes d: "dense log g" and n: "0 < length (rg_seqs g)" and a: "a < length log"
  defines "s \<equiv> max (Suc a) (Suc (length log) - length (rg_seqs g))"
  shows "ring_next (word_of_nat a) g = Some ((s - 1) mod length (rg_seqs g), word_of_nat s)"
proof -
  let ?n = "length (rg_seqs g)" and ?L = "length log"
  let ?i = "(s - 1) mod ?n"
  note dd = denseD [OF d]
  have L: "?L < 2 ^ 63" using dd(1) by (simp add: ring_inv_def)
  have s: "0 < s" "s \<le> ?L" "?L < s + ?n" "a < s"
    using a n by (simp_all add: s_def del: length_greater_0_conv)
  have i: "?i < ?n" using n by simp
  have gi: "rg_seqs g ! ?i = word_of_nat s" using s by (intro dd(2))
  have us: "unat (word_of_nat s :: u64) = s" "unat (word_of_nat a :: u64) = a"
    using s L by (simp_all add: unat_of_nat_u64)
  have "ring_next (word_of_nat a) g = Some (?i, rg_seqs g ! ?i)"
  proof (rule ring_next_unique [OF i])
    show "committed (rg_seqs g ! ?i)" unfolding gi using s L by (intro committed_of_nat) simp_all
    show "word_of_nat a < rg_seqs g ! ?i" unfolding gi using s us by (simp add: word_less_nat_alt)
    show "j = ?i" if "j < ?n" "rg_seqs g ! j = rg_seqs g ! ?i" for j
    proof (rule seqs_uniqueD [OF _ that(1) i that(2)])
      show "seqs_unique g" using dd(1) by (simp add: ring_inv_def)
      show "rg_seqs g ! j \<noteq> 0" using that(2) gi us s by auto
    qed
    show "rg_seqs g ! ?i \<le> v" if "v \<in> set (rg_seqs g)" "committed v" "word_of_nat a < v" for v
    proof -
      have "v \<noteq> 0" using that(2) by auto
      then have "?L < unat v + ?n" using dd(4) that(1) by blast
      moreover have "a < unat v" using that(3) us by (simp add: word_less_nat_alt)
      ultimately have "s \<le> unat v" by (simp add: s_def)
      then show ?thesis unfolding gi by (simp add: word_le_nat_alt us(1))
    qed
  qed
  with gi show ?thesis by simp
qed

subsection \<open>A sequence of writes\<close>

fun write_all :: "raw_writer \<Rightarrow> mem \<Rightarrow> byte list list \<Rightarrow> (raw_writer \<times> mem) option" where
  "write_all w m [] = Some (w, m)"
| "write_all w m (d # ds) =
     do {
       (r, w', m') \<leftarrow> raw_writer_write w m d;
       case r of Inl e \<Rightarrow> None | Inr u \<Rightarrow> write_all w' m' ds
     }"

definition flowing :: "byte list list \<Rightarrow> raw_writer \<Rightarrow> mem \<Rightarrow> bool" where
  "flowing log w m \<longleftrightarrow>
     chan_inv log w m \<and> chan_sync w m \<and> dense log (rw_ring w m) \<and>
     unat (rw_current_index w) = length log mod unat (rw_entry_count w)"

lemma flowing_write:
  assumes f: "flowing log w m" and d: "length d = unat (rw_payload_bytes w)" and len: "Suc (length log) < 2 ^ 63"
  shows "\<exists>w' m'. raw_writer_write w m d = Some (Inr (), w', m') \<and> flowing (log @ [d]) w' m' \<and>
     rw_payload_bytes w' = rw_payload_bytes w \<and> rw_entry_count w' = rw_entry_count w"
proof -
  let ?c = "length log mod unat (rw_entry_count w)"
  have ci: "chan_inv log w m" and cur: "unat (rw_current_index w) = ?c" and dn: "dense log (rw_ring w m)"
    using f by (auto simp: flowing_def)
  note c = chan_invD [OF ci]
  have n: "0 < unat (rw_entry_count w)" using c(1) by (simp add: rw_wf_def)
  then have i: "?c < unat (rw_entry_count w)" by simp
  have ne: "rg_seqs (rw_ring w m) \<noteq> []" using n by (simp flip: length_greater_0_conv)
  have "rg_seqs (rw_ring w m) ! ?c \<in> set (rg_seqs (rw_ring w m))" using i by (intro nth_mem) simp
  then have free: "ring_free_slot (unat (rw_current_index w)) (rw_ring w m) = Some ?c"
    unfolding cur using denseD(3) [OF dn] i by (intro ring_free_slot_cursor ne) auto
  let ?w = "committed_writer w ?c" and ?m = "published_mem w (filled_mem w m ?c d) ?c"
  note wc = write_chan_inv_cases [OF ci d len free]
  have "dense (log @ [d]) (rw_ring ?w ?m)"
    using dense_write [OF dn _ len, of d] n
    by (simp add: rw_ring_written [OF c(1) i d] last_succ [OF ci len] del: of_nat_Suc)
  moreover have "unat (rw_current_index ?w) = length (log @ [d]) mod unat (rw_entry_count ?w)"
  proof -
    have "Suc ?c mod unat (rw_entry_count w) = Suc (length log) mod unat (rw_entry_count w)"
      by (simp add: mod_Suc_eq)
    moreover have "Suc (length log) mod unat (rw_entry_count w) < unat (rw_entry_count w)" using n by simp
    ultimately show ?thesis by (simp add: unat_of_nat_below del: of_nat_Suc)
  qed
  ultimately have "flowing (log @ [d]) ?w ?m" using wc by (simp add: flowing_def)
  with free show ?thesis by (simp add: raw_writer_write_eq [OF c(1) d])
qed

lemma flowing_write_all:
  assumes "flowing log w m" "\<forall>d \<in> set ds. length d = unat (rw_payload_bytes w)"
    and "length log + length ds < 2 ^ 63"
  shows "\<exists>w' m'. write_all w m ds = Some (w', m') \<and> flowing (log @ ds) w' m' \<and>
     rw_payload_bytes w' = rw_payload_bytes w \<and> rw_entry_count w' = rw_entry_count w"
  using assms
proof (induction ds arbitrary: log w m)
  case Nil
  then show ?case by simp
next
  case (Cons d ds)
  from Cons.prems flowing_write [of log w m d] obtain w1 m1 where
    1: "raw_writer_write w m d = Some (Inr (), w1, m1)" "flowing (log @ [d]) w1 m1"
      "rw_payload_bytes w1 = rw_payload_bytes w" "rw_entry_count w1 = rw_entry_count w"
    by auto
  with Cons.IH [OF 1(2)] Cons.prems show ?case by simp
qed

lemma flowing_fresh:
  assumes "seg_geom pb n (length m)"
  shows "flowing [] \<lparr>rw_payload_bytes = pb, rw_entry_count = n, rw_current_index = 0, rw_last_entry_seq = 0\<rparr>
     (initialized pb n d pid m)"
proof -
  have "seg_geom pb n (length (initialized pb n d pid m))"
    using assms by (simp add: initialized_views(1) [OF assms])
  moreover have "0 < unat n" using assms by (simp add: seg_geom_def)
  moreover have "dense [] \<lparr>rg_seqs = replicate (unat n) 0, rg_pays = replicate (unat n) (replicate (unat pb) 0),
      rg_windex = 0, rg_wmark = 0\<rparr>"
    using ring_inv_empty by (simp add: dense_def)
  ultimately show ?thesis
    by (simp add: flowing_def chan_inv_def chan_sync_def rw_wf_def rw_ring_def
        ring_of_initialized [OF assms] ring_inv_empty)
qed

subsection \<open>Draining\<close>

text \<open>At most \<open>k\<close> reads, stopping at the first that returns nothing.\<close>

fun read_all :: "nat \<Rightarrow> raw_reader \<Rightarrow> mem \<Rightarrow> (u64 \<times> byte list) list option" where
  "read_all 0 r m = Some []"
| "read_all (Suc k) r m =
     do {
       (res, r', bytes, t) \<leftarrow>
         raw_reader_read_into r (still m) 0 (replicate (unat (rr_payload_bytes r)) 0) None;
       case res of
         Inl e \<Rightarrow> None
       | Inr None \<Rightarrow> Some []
       | Inr (Some s) \<Rightarrow> map_option (Cons (s, bytes)) (read_all k r' m)
     }"

definition entries :: "byte list list \<Rightarrow> nat \<Rightarrow> (u64 \<times> byte list) list" where
  "entries log a = map (\<lambda>s. (word_of_nat s, log ! (s - 1))) [Suc a..<Suc (length log)]"

lemma flowing_read:
  assumes f: "flowing log w m" and sg: "same_geom w r" and a: "rr_last_entry_seq r = word_of_nat a" "a \<le> length log"
  defines "s \<equiv> max (Suc a) (Suc (length log) - unat (rw_entry_count w))"
  shows "\<exists>t. raw_reader_read_into r (still m) 0 (replicate (unat (rr_payload_bytes r)) 0) None =
     Some (if a = length log then (Inr None, r, replicate (unat (rr_payload_bytes r)) 0, t)
           else (Inr (Some (word_of_nat s)),
             r\<lparr>rr_last_entry_seq := word_of_nat s, rr_last_read_idx := word_of_nat ((s - 1) mod unat (rw_entry_count w))\<rparr>,
             log ! (s - 1), t))"
proof -
  have ci: "chan_inv log w m" and sy: "chan_sync w m" and dn: "dense log (rw_ring w m)"
    using f by (auto simp: flowing_def)
  note c = chan_invD [OF ci] and rd = same_geom_reader [OF ci sg]
  have n: "0 < unat (rw_entry_count w)" using c(1) by (simp add: rw_wf_def)
  have wm: "unat (rg_wmark (rw_ring w m)) = length log" using sy c(3) by (simp add: chan_sync_def)
  have ua: "unat (word_of_nat a :: u64) = a" using a(2) c(4) by (intro unat_of_nat_u64) simp
  obtain t where t: "raw_reader_read_into r (still m) 0 (replicate (unat (rr_payload_bytes r)) 0) None =
     Some (case read_next r m None of
         None \<Rightarrow> (Inr None, r, replicate (unat (rr_payload_bytes r)) 0, t)
       | Some (i, s) \<Rightarrow> (Inr (Some s), r\<lparr>rr_last_entry_seq := s, rr_last_read_idx := word_of_nat i\<rparr>,
                        rg_pays (rr_ring r m) ! i, t))"
    using read_into_still [OF rd(1,3)] by force
  show ?thesis
  proof (cases "a = length log")
    case True
    then have "read_next r m None = None" using wm ua a(1) by (simp add: read_next_def rd(2) word_le_nat_alt)
    with t True show ?thesis by auto
  next
    case False
    with a(2) have lt: "a < length log" by simp
    note nx = dense_next [OF dn _ lt, folded s_def]
    have nx': "ring_next (word_of_nat a) (rw_ring w m) = Some ((s - 1) mod unat (rw_entry_count w), word_of_nat s)"
      using nx n by (simp add: s_def flip: length_greater_0_conv)
    have sl: "s \<le> length log" using lt n by (simp add: s_def)
    then have us: "unat (word_of_nat s :: u64) = s" using c(4) by (intro unat_of_nat_u64) simp
    have "read_next r m None = Some ((s - 1) mod unat (rw_entry_count w), word_of_nat s)"
      using wm ua a(1) lt nx' by (simp add: read_next_def rd(2) word_le_nat_alt)
    with t False ring_inv_next(3) [OF c(2) nx'] us show ?thesis by (auto simp: rd(2))
  qed
qed

lemma flowing_read_all:
  assumes "flowing log w m" "same_geom w r" "rr_last_entry_seq r = word_of_nat a" "a \<le> length log"
    and "length log - a \<le> k" "length log - a \<le> unat (rw_entry_count w)"
  shows "read_all (Suc k) r m = Some (entries log a)"
  using assms
proof (induction "length log - a" arbitrary: a r k)
  case 0
  then have "a = length log" by simp
  with flowing_read [OF 0(2-5)] show ?case by (auto simp: entries_def)
next
  case (Suc x)
  let ?r = "r\<lparr>rr_last_entry_seq := word_of_nat (Suc a), rr_last_read_idx := word_of_nat (a mod unat (rw_entry_count w))\<rparr>"
  have lt: "a < length log" using Suc(2) by simp
  have mx: "max (Suc a) (Suc (length log) - unat (rw_entry_count w)) = Suc a" using Suc(8) by simp
  obtain k' where k: "k = Suc k'" using Suc(2,7) by (cases k) simp_all
  have n: "0 < unat (rw_entry_count w)" using Suc(8) lt by simp
  have "same_geom w ?r" using Suc(4) n unat_of_nat_below [of "a mod unat (rw_entry_count w)" "rw_entry_count w"]
    by (simp add: same_geom_def)
  then have "read_all (Suc k') ?r m = Some (entries log (Suc a))"
    using Suc(2,3,7,8) lt k by (intro Suc(1)) simp_all
  moreover have "entries log a = (word_of_nat (Suc a), log ! a) # entries log (Suc a)"
    using lt unfolding entries_def by (subst upt_conv_Cons) simp_all
  ultimately show ?case
    using flowing_read [OF Suc(3-6), unfolded mx] lt k by (auto simp del: of_nat_Suc)
qed

text \<open>The first read of a new reader jumps to the oldest retained entry.\<close>

lemma flowing_read_fresh:
  assumes "flowing log w m" "same_geom w r" "rr_last_entry_seq r = 0"
  shows "read_all (Suc (unat (rw_entry_count w))) r m =
     Some (entries log (length log - unat (rw_entry_count w)))"
proof (cases "length log \<le> unat (rw_entry_count w)")
  case True
  with flowing_read_all [OF assms(1,2), of 0] assms(3) show ?thesis by simp
next
  case False
  let ?n = "unat (rw_entry_count w)"
  let ?s = "Suc (length log - ?n)"
  let ?r = "r\<lparr>rr_last_entry_seq := word_of_nat ?s, rr_last_read_idx := word_of_nat ((?s - 1) mod ?n)\<rparr>"
  have n: "0 < ?n" using assms(1) by (simp add: flowing_def chan_inv_def rw_wf_def)
  have mx: "max (Suc 0) (Suc (length log) - ?n) = ?s" using False by simp
  have "same_geom w ?r"
    using assms(2) n unat_of_nat_below [of "(?s - 1) mod ?n" "rw_entry_count w"] by (simp add: same_geom_def)
  then have "read_all (Suc (?n - 1)) ?r m = Some (entries log ?s)"
    using False n by (intro flowing_read_all [OF assms(1)]) simp_all
  moreover have "Suc (?n - 1) = ?n" using n by simp
  moreover have "entries log (length log - ?n) = (word_of_nat ?s, log ! (length log - ?n)) # entries log ?s"
    using False n unfolding entries_def by (subst upt_conv_Cons) simp_all
  ultimately show ?thesis
    using flowing_read [OF assms(1,2), of 0, unfolded mx] assms(3) False
    by (auto simp del: of_nat_Suc)
qed

text \<open>
  C7: Delivery from end to end. Initialise a segment, attach a writer, write any sequence \<open>ds\<close> of
  payloads, and let a reader that attaches to the same header drain the channel. Every step
  succeeds. With \<open>n\<close> slots the reader receives exactly the newest \<open>n\<close> payloads (all of them if there
  are fewer), in the order they were written, each once, each under its number, and then nothing.
\<close>
theorem channel_delivers:
  assumes "seg_geom pb n (length m)" "\<forall>d \<in> set ds. length d = unat pb" "length ds < 2 ^ 63"
  shows "\<exists>m0 h w w' m'. init_header m pb n dt pid = Some m0 \<and> read_header m0 = Some (Inr (Some h)) \<and>
     raw_writer_attach m0 h = Some w \<and> write_all w m0 ds = Some (w', m') \<and>
     read_all (Suc (unat n)) (raw_reader_attach h) m' =
       Some (map (\<lambda>s. (word_of_nat s, ds ! (s - 1))) [Suc (length ds - unat n)..<Suc (length ds)])"
proof -
  let ?m0 = "initialized pb n dt pid m"
  let ?h = "\<lparr>hdr_payload_bytes = pb, hdr_entry_count = n, hdr_write_index = 0,
      hdr_dtype = dtype_code dt, hdr_last_entry_seq = 0\<rparr>"
  let ?w = "\<lparr>rw_payload_bytes = pb, rw_entry_count = n, rw_current_index = 0, rw_last_entry_seq = 0\<rparr>"
  have g: "seg_geom pb n (length ?m0)" using assms(1) by (simp add: initialized_views(1) [OF assms(1)])
  have h: "read_header ?m0 = Some (Inr (Some ?h))"
    using seg_geom_72 [OF g] by (subst read_header_valid) (simp_all add: initialized_views [OF assms(1)])
  have at: "raw_writer_attach ?m0 ?h = Some ?w" by (rule attach_initialized [OF assms(1)]) simp_all
  obtain w' m' where wa: "write_all ?w ?m0 ds = Some (w', m')" and f: "flowing ds w' m'"
    and sm: "rw_payload_bytes w' = pb" "rw_entry_count w' = n"
    using flowing_write_all [OF flowing_fresh [OF assms(1), of dt pid], of ds] assms(2,3) by auto
  have "0 < unat n" using assms(1) by (simp add: seg_geom_def)
  then have "same_geom w' (raw_reader_attach ?h)" by (simp add: same_geom_def raw_reader_attach_def sm)
  then have "read_all (Suc (unat n)) (raw_reader_attach ?h) m' = Some (entries ds (length ds - unat n))"
    using flowing_read_fresh [OF f, of "raw_reader_attach ?h"] sm by (simp add: raw_reader_attach_def)
  with init_header_eq [OF assms(1)] h at wa show ?thesis by (auto simp: entries_def)
qed

theorem channel_delivers_witness:
  "\<exists>m0 h w w' m'. init_header (replicate 104 7) 8 2 U8 42 = Some m0 \<and>
     read_header m0 = Some (Inr (Some h)) \<and> raw_writer_attach m0 h = Some w \<and>
     write_all w m0 [replicate 8 1, replicate 8 2, replicate 8 3] = Some (w', m') \<and>
     read_all 3 (raw_reader_attach h) m' = Some [(2, replicate 8 2), (3, replicate 8 3)]"
proof -
  let ?ds = "[replicate 8 1, replicate 8 2, replicate 8 (3 :: byte)]"
  have e: "map (\<lambda>s. (word_of_nat s, ?ds ! (s - 1))) [Suc (length ?ds - unat (2 :: usize))..<Suc (length ?ds)] =
      [(2, replicate 8 2), (3, replicate 8 3)]"
    by (simp add: upt_rec)
  have k: "Suc (unat (2 :: usize)) = 3" by simp
  show ?thesis
    using channel_delivers [of 8 2 "replicate 104 7" ?ds U8 42, unfolded e k]
    by (simp add: seg_geom_def del: write_all.simps read_all.simps)
qed

end
