(* ===== verification/Zc_Sessions.thy ===== *)
theory Zc_Sessions
  imports Zc_Endpoints Zc_Delivery
begin

text \<open>
  Sessions of named endpoints: a reader that waits for its channel, the writer that creates it,
  writes, and goes away. The laws of the ring (\<open>Zc_Delivery\<close>) are carried to the endpoints through
  the mapping: an endpoint that is connected acts on the bytes of its segment as the ring writer
  and the ring reader do, and changes no name.
\<close>

subsection \<open>Connected endpoints\<close>

lemma connected_write:
  assumes "ow_inner this = Some w" "ow_shmem this = Some h"
    and "raw_writer_write w (sm_get api h os) data = Some (r, w', m')"
  shows "os_writer_write api me alive this data os = Some (r, this\<lparr>ow_inner := Some w'\<rparr>, sm_put api h m' os)"
  using assms by (simp add: os_writer_write_def conn_defs)

lemma connected_read:
  assumes "or_inner this = Some r" "or_shmem this = Some h"
    and "raw_reader_read_into r (still (sm_get api h os)) 0 dst fr = Some (res, r', bytes, t)"
  shows "os_reader_read_into api me alive this dst fr os =
     Some (res, this\<lparr>or_inner := Some r'\<rparr>, bytes, os)"
  using assms by (simp add: os_reader_read_into_def conn_defs)

fun os_write_all ::
    "('os, 'h) shmem_api \<Rightarrow> u64 \<Rightarrow> (u32 \<Rightarrow> bool) \<Rightarrow> 'h os_writer \<Rightarrow> 'os \<Rightarrow> byte list list \<Rightarrow>
     ('h os_writer \<times> 'os) option" where
  "os_write_all api me alive this os [] = Some (this, os)"
| "os_write_all api me alive this os (d # ds) =
     do {
       (r, this', os') \<leftarrow> os_writer_write api me alive this d os;
       case r of Inl e \<Rightarrow> None | Inr u \<Rightarrow> os_write_all api me alive this' os' ds
     }"

fun os_read_all ::
    "('os, 'h) shmem_api \<Rightarrow> u64 \<Rightarrow> (u32 \<Rightarrow> bool) \<Rightarrow> nat \<Rightarrow> nat \<Rightarrow> 'h os_reader \<Rightarrow> 'os \<Rightarrow>
     (u64 \<times> byte list) list option" where
  "os_read_all api me alive len 0 this os = Some []"
| "os_read_all api me alive len (Suc k) this os =
     do {
       (res, this', bytes, os') \<leftarrow> os_reader_read_into api me alive this (replicate len 0) None os;
       case res of
         Inl e \<Rightarrow> None
       | Inr None \<Rightarrow> Some []
       | Inr (Some s) \<Rightarrow> map_option (Cons (s, bytes)) (os_read_all api me alive len k this' os')
     }"

lemma write_all_ConsE:
  assumes "write_all w m (d # ds) = Some p"
  obtains w1 m1 where "raw_writer_write w m d = Some (Inr (), w1, m1)" "write_all w1 m1 ds = Some p"
proof -
  from assms obtain r w1 m1 where x: "raw_writer_write w m d = Some (r, w1, m1)"
    by (auto simp: bind_eq_Some_conv)
  with assms that show ?thesis by (cases r) auto
qed

lemma connected_write_all:
  assumes "shmem_ok api" "ow_inner this = Some w" "ow_shmem this = Some h"
    and "write_all w (sm_get api h os) ds = Some (w', m')"
  shows "\<exists>os'. os_write_all api me alive this os ds = Some (this\<lparr>ow_inner := Some w'\<rparr>, os') \<and>
     sm_get api h os' = m' \<and> (\<forall>x. sm_find api x os' = sm_find api x os)"
  using assms(2-)
proof (induction ds arbitrary: this w os)
  case Nil
  then show ?case by simp
next
  case (Cons d ds)
  from Cons.prems(3) obtain w1 m1 where
    1: "raw_writer_write w (sm_get api h os) d = Some (Inr (), w1, m1)" "write_all w1 m1 ds = Some (w', m')"
    by (rule write_all_ConsE)
  let ?os = "sm_put api h m1 os"
  have get: "sm_get api h ?os = m1" by (simp add: get_put [OF assms(1)])
  from Cons.IH [of "this\<lparr>ow_inner := Some w1\<rparr>" w1 ?os] Cons.prems 1(2) get
  show ?case by (simp add: connected_write [OF Cons.prems(1,2) 1(1)] find_put [OF assms(1)])
qed

text \<open>Reading moves the position of the ring reader but neither its geometry nor any byte.\<close>

lemma read_loop_geometry:
  "read_loop r v wm k t dst = Some (res, r', bytes, t') \<Longrightarrow> rr_payload_bytes r' = rr_payload_bytes r"
proof (induction k arbitrary: t dst)
  case 0
  then show ?case by simp
next
  case (Suc k)
  from Suc.prems obtain loc t1 where l: "locate r v t wm = Some (loc, t1)" by (auto simp: bind_eq_Some_conv)
  show ?case
  proof (cases loc)
    case None
    with Suc.prems l show ?thesis by simp
  next
    case (Some p)
    obtain i s where "p = (i, s)" by (cases p)
    with Some Suc.prems l show ?thesis
      by (auto simp: bind_eq_Some_conv Let_def dest: Suc.IH split: if_split_asm)
  qed
qed

lemma read_keeps_geometry:
  "raw_reader_read_into r v t dst fr = Some (res, r', bytes, t') \<Longrightarrow> rr_payload_bytes r' = rr_payload_bytes r"
  by (auto simp: raw_reader_read_into_def bind_eq_Some_conv dest: read_loop_geometry
      split: if_splits option.splits)

lemma connected_read_all:
  assumes "or_inner this = Some r" "or_shmem this = Some h" "unat (rr_payload_bytes r) = len"
    and "read_all k r (sm_get api h os) = Some xs"
  shows "os_read_all api me alive len k this os = Some xs"
  using assms
proof (induction k arbitrary: this r xs)
  case 0
  then show ?case by simp
next
  case (Suc k)
  from Suc.prems(3,4) obtain res r1 bytes t where
    1: "raw_reader_read_into r (still (sm_get api h os)) 0 (replicate len 0) None = Some (res, r1, bytes, t)"
    by (auto simp: bind_eq_Some_conv)
  note c = connected_read [OF Suc.prems(1,2) 1, of me alive]
  have pb: "unat (rr_payload_bytes r1) = len" using read_keeps_geometry [OF 1] Suc.prems(3) by simp
  consider e where "res = Inl e" | "res = Inr None" | s where "res = Inr (Some s)"
    by (cases res) (auto split: option.splits)
  then show ?case
  proof cases
    case (3 s)
    with Suc.prems(3,4) 1 obtain ys where "read_all k r1 (sm_get api h os) = Some ys" "xs = (s, bytes) # ys" by auto
    with 3 Suc.IH [of "this\<lparr>or_inner := Some r1\<rparr>" r1 ys] Suc.prems(2) pb c show ?thesis by simp
  qed (use Suc.prems(3,4) 1 c in auto)
qed

text \<open>Writes leave the words of the header that a participant attaches by.\<close>

lemma write_keeps_header:
  assumes "rw_wf w m" "length d = unat (rw_payload_bytes w)" "raw_writer_write w m d = Some (r, w', m')"
  shows "rw_wf w' m'" "rw_payload_bytes w' = rw_payload_bytes w" "length m' = length m"
    "hdr_off off \<Longrightarrow> off \<notin> {OFF_WRITE_INDEX, OFF_LAST_ENTRY_SEQ} \<Longrightarrow> hdr_at m' off = hdr_at m off"
proof -
  have "rw_wf w' m' \<and> rw_payload_bytes w' = rw_payload_bytes w \<and> length m' = length m \<and>
    (hdr_off off \<longrightarrow> off \<notin> {OFF_WRITE_INDEX, OFF_LAST_ENTRY_SEQ} \<longrightarrow> hdr_at m' off = hdr_at m off)"
  proof (cases "ring_free_slot (unat (rw_current_index w)) (rw_ring w m)")
    case None
    with assms raw_writer_write_eq [OF assms(1,2)] show ?thesis by simp
  next
    case (Some i)
    have i: "i < unat (rw_entry_count w)" using ring_free_slot_bound [OF assms(1) Some] .
    note f = filled_mem_facts [OF assms(1) i assms(2)]
    have "w' = committed_writer w i" "m' = published_mem w (filled_mem w m i d) i"
      using assms(3) Some raw_writer_write_eq [OF assms(1,2)] by simp_all
    with published_mem_facts [OF f(1) i] f show ?thesis by auto
  qed
  then show "rw_wf w' m'" "rw_payload_bytes w' = rw_payload_bytes w" "length m' = length m"
    "hdr_off off \<Longrightarrow> off \<notin> {OFF_WRITE_INDEX, OFF_LAST_ENTRY_SEQ} \<Longrightarrow> hdr_at m' off = hdr_at m off"
    by blast+
qed

lemma write_all_keeps_header:
  assumes "rw_wf w m" "\<forall>d \<in> set ds. length d = unat (rw_payload_bytes w)" "write_all w m ds = Some (w', m')"
    and "hdr_off off" "off \<notin> {OFF_WRITE_INDEX, OFF_LAST_ENTRY_SEQ}"
  shows "hdr_at m' off = hdr_at m off \<and> length m' = length m"
  using assms
proof (induction ds arbitrary: w m)
  case Nil
  then show ?case by simp
next
  case (Cons d ds)
  from Cons.prems(3) obtain w1 m1 where
    1: "raw_writer_write w m d = Some (Inr (), w1, m1)" "write_all w1 m1 ds = Some (w', m')"
    by (rule write_all_ConsE)
  have "length d = unat (rw_payload_bytes w)" using Cons.prems(2) by simp
  note k = write_keeps_header [OF Cons.prems(1) this 1(1)]
  from Cons.IH [OF k(1) _ 1(2)] Cons.prems(2,4,5) k(2,3) k(4) [of off] show ?case by simp
qed

lemma flowing_set_owner:
  assumes "flowing log w m" "hdr_off off" "off \<noteq> OFF_WRITE_INDEX" "off \<noteq> OFF_LAST_ENTRY_SEQ"
  shows "flowing log w (set_hdr m off v)"
proof -
  have wf: "rw_wf w m" using assms(1) by (simp add: flowing_def chan_inv_def)
  then have g: "seg_geom (rw_payload_bytes w) (rw_entry_count w) (length m)" by (simp add: rw_wf_def)
  have "rw_ring w (set_hdr m off v) = rw_ring w m"
    unfolding rw_ring_def by (rule ring_of_set_hdr_other [OF g assms(2-4)])
  moreover have "rw_wf w (set_hdr m off v)" using wf seg_geom_72 [OF g] assms(2) by (simp add: rw_wf_def)
  ultimately show ?thesis using assms(1) by (simp add: flowing_def chan_inv_def chan_sync_def)
qed

subsection \<open>A waiting reader\<close>

lemma waiting_reader:
  fixes dt :: dtype
  assumes "shmem_ok api" "sm_find api name os = None"
  defines "rd \<equiv> \<lparr>or_name = name, or_dtype = dt, or_delayed = True, or_zero_copy = False,
      or_inner = None, or_shmem = None\<rparr>"
  shows "os_reader_new api me alive name None None dt True os = Some (Inr rd, os)"
    "os_reader_read_into api me alive rd dst fr os = Some (Inr None, rd, dst, os)"
  using open_missing [OF assms(1,2)]
  by (simp_all add: rd_def os_reader_new_def os_reader_open_def os_reader_read_into_def
      conn_defs open_defs Let_def)

text \<open>The first read after the channel has appeared connects and reads.\<close>

lemma waiting_reader_connects:
  assumes "sm_open api (or_name rd) os = Some h" "read_header (sm_get api h os) = Some (Inr (Some hx))"
    and "hdr_payload_bytes hx \<noteq> 0" "hdr_entry_count hx \<noteq> 0" "check_dtype hx (or_dtype rd) = Inr ()"
    and "or_inner rd = None" "\<not> or_zero_copy rd" "unat (hdr_payload_bytes hx) = len"
    and "read_all (Suc k) (raw_reader_attach hx) (sm_get api h os) = Some xs"
  shows "os_read_all api me alive len (Suc k) rd os = Some xs"
proof -
  let ?rd = "rd\<lparr>or_inner := Some (raw_reader_attach hx), or_shmem := Some h\<rparr>"
  have "os_reader_ensure_connected api me alive rd os = Some (Inr True, ?rd, os)"
    using assms(1-7)
    by (simp add: conn_defs open_defs os_reader_bind_def)
  then have "os_reader_read_into api me alive rd dst fr os = os_reader_read_into api me alive ?rd dst fr os" for dst fr
    by (simp add: os_reader_read_into_def os_reader_ensure_connected_def)
  then have "os_read_all api me alive len (Suc k) rd os = os_read_all api me alive len (Suc k) ?rd os" by simp
  also have "\<dots> = Some xs"
    using assms(8,9)
    by (intro connected_read_all [where h = h and r = "raw_reader_attach hx"])
      (simp_all add: raw_reader_attach_def del: read_all.simps)
  finally show ?thesis .
qed

subsection \<open>A session from end to end\<close>

text \<open>A writer bound to a fresh segment writes any sequence of payloads.\<close>

lemma fresh_writer_writes:
  fixes dt :: dtype and n pb :: usize and pid me :: u64
  assumes ok: "shmem_ok api" and g: "seg_geom pb n (length m)"
    and get: "sm_get api h os = set_hdr (initialized pb n dt pid m) writer_owner me"
    and wr: "ow_inner wr = Some \<lparr>rw_payload_bytes = pb, rw_entry_count = n, rw_current_index = 0, rw_last_entry_seq = 0\<rparr>"
      "ow_shmem wr = Some h"
    and ds: "\<forall>d \<in> set ds. length d = unat pb" "length ds < 2 ^ 63"
  obtains w os' where "os_write_all api me alive wr os ds = Some (wr\<lparr>ow_inner := Some w\<rparr>, os')"
    "flowing ds w (sm_get api h os')" "rw_payload_bytes w = pb" "rw_entry_count w = n"
    "\<forall>x. sm_find api x os' = sm_find api x os" "length (sm_get api h os') = length m"
    "\<forall>off. hdr_off off \<longrightarrow> off \<notin> {OFF_WRITE_INDEX, OFF_LAST_ENTRY_SEQ} \<longrightarrow>
       hdr_at (sm_get api h os') off = hdr_at (sm_get api h os) off"
proof -
  let ?w = "\<lparr>rw_payload_bytes = pb, rw_entry_count = n, rw_current_index = 0, rw_last_entry_seq = 0\<rparr>"
  let ?o = "set_hdr (initialized pb n dt pid m) writer_owner me"
  have f: "flowing [] ?w ?o" by (rule flowing_set_owner [OF flowing_fresh [OF g]]) simp_all
  obtain w m' where wa: "write_all ?w ?o ds = Some (w, m')" "flowing ds w m'"
    "rw_payload_bytes w = pb" "rw_entry_count w = n"
    using flowing_write_all [OF f, of ds] ds by auto
  obtain os' where os': "os_write_all api me alive wr os ds = Some (wr\<lparr>ow_inner := Some w\<rparr>, os')"
    "sm_get api h os' = m'" "\<And>x. sm_find api x os' = sm_find api x os"
    using connected_write_all [OF ok wr, of os ds w m' me alive] wa(1) get by auto
  have kept: "hdr_at m' off = hdr_at ?o off \<and> length m' = length ?o"
    if "hdr_off off" "off \<notin> {OFF_WRITE_INDEX, OFF_LAST_ENTRY_SEQ}" for off
    using write_all_keeps_header [OF _ _ wa(1) that] f ds(1) by (simp add: flowing_def chan_inv_def)
  have "length ?o = length m" using seg_geom_72 [OF g] by (simp add: initialized_views(1) [OF g])
  with kept [of OFF_MAGIC] have "length m' = length m" by simp
  with that [OF os'(1)] wa os' kept get show ?thesis by simp
qed

lemma writer_session:
  assumes ok: "shmem_ok api" and free: "sm_find api name os = None"
    and g: "seg_geom pb n (unat (required_bytes pb n))"
    and cr: "\<And>e. fst (sm_create api name (required_bytes pb n) os) \<noteq> CreateFailed e"
    and ds: "\<forall>d \<in> set ds. length d = unat pb" "length ds < 2 ^ 63"
  obtains wr os1 wr' os2 h w where
    "os_writer_new api me alive name (Some pb) (Some n) dt delayed os = Some (Inr wr, os1)"
    "os_write_all api me alive wr os1 ds = Some (wr', os2)"
    "ow_shmem wr' = Some h" "sm_name api h = name" "sm_is_owner api h"
    "sm_find api name os2 = Some (sm_seg api h)"
    "flowing ds w (sm_get api h os2)" "rw_payload_bytes w = pb" "rw_entry_count w = n"
    "hdr_at (sm_get api h os2) writer_owner = me"
    "\<exists>hx. read_header (sm_get api h os2) = Some (Inr (Some hx)) \<and> hdr_payload_bytes hx = pb \<and>
       hdr_entry_count hx = n \<and> check_dtype hx dt = Inr ()"
proof -
  let ?m = "replicate (unat (required_bytes pb n)) 0 :: mem"
  let ?i = "initialized pb n dt me ?m"
  let ?w = "\<lparr>rw_payload_bytes = pb, rw_entry_count = n, rw_current_index = 0, rw_last_entry_seq = 0\<rparr>"
  have g': "seg_geom pb n (length ?m)" using g by simp
  have 72: "72 \<le> length ?i" using seg_geom_72 [OF g'] by (simp add: initialized_views(1) [OF g'])
  from ok free g show ?thesis
  proof (cases rule: open_free [where me = me and alive = alive and dt = dt and delayed = delayed])
    case (failed msg)
    with cr show ?thesis by blast
  next
    case (made h os0)
    let ?os1 = "sm_put api h (set_hdr ?i writer_owner me) (sm_put api h ?i os0)"
    let ?wr = "\<lparr>ow_name = name, ow_dtype = dt, ow_delayed = delayed, ow_inner = Some ?w, ow_shmem = Some h\<rparr>"
    have new: "os_writer_new api me alive name (Some pb) (Some n) dt delayed os = Some (Inr ?wr, ?os1)"
      using made(1) writer_bind_fresh [OF g', of api h "sm_put api h ?i os0"]
      by (simp add: os_writer_new_def Let_def get_put [OF ok])
    have get: "sm_get api h ?os1 = set_hdr ?i writer_owner me" by (simp add: get_put [OF ok])
    have i: "ow_inner ?wr = Some ?w" "ow_shmem ?wr = Some h" by simp_all
    from ok g' get i ds obtain w os2 where w: "os_write_all api me alive ?wr ?os1 ds = Some (?wr\<lparr>ow_inner := Some w\<rparr>, os2)"
      "flowing ds w (sm_get api h os2)" "rw_payload_bytes w = pb" "rw_entry_count w = n"
      "\<forall>x. sm_find api x os2 = sm_find api x ?os1" "length (sm_get api h os2) = length ?m"
      "\<forall>off. hdr_off off \<longrightarrow> off \<notin> {OFF_WRITE_INDEX, OFF_LAST_ENTRY_SEQ} \<longrightarrow>
         hdr_at (sm_get api h os2) off = hdr_at (sm_get api h ?os1) off"
      by (rule fresh_writer_writes [where alive = alive])
    let ?m2 = "sm_get api h os2"
    have hx: "hdr_at ?m2 OFF_MAGIC = MAGIC_VERSION" "hdr_at ?m2 OFF_PAYLOAD_BYTES = pb"
      "hdr_at ?m2 OFF_ENTRY_COUNT = n" "hdr_at ?m2 OFF_DTYPE = dtype_code dt" "hdr_at ?m2 writer_owner = me"
      using 72 by (simp_all add: w(7) get_put [OF ok] hdr_at_set_hdr initialized_views [OF g'])
    have "72 \<le> length ?m2" using w(6) seg_geom_72 [OF g'] by simp
    from read_header_valid [OF this hx(1)] hx have rh: "\<exists>hx. read_header ?m2 = Some (Inr (Some hx)) \<and>
       hdr_payload_bytes hx = pb \<and> hdr_entry_count hx = n \<and> check_dtype hx dt = Inr ()"
      by (simp add: check_dtype_def)
    show ?thesis
      by (rule that [OF new w(1), of h w]) (use made(2-4) w hx(5) rh in \<open>simp_all add: find_put [OF ok]\<close>)
  qed
qed

text \<open>
  C8: A session from end to end. A reader may open a channel before it exists: in delayed mode it
  reads nothing, without an error, until a writer has created the channel. The writer creates it,
  writes any sequence \<open>ds\<close> of payloads, and the waiting reader then connects by itself on its next
  read and receives exactly the newest payloads, as many as the channel has slots, in order, each
  under its number. When the writer is dropped its role is free again and, since it created the
  segment, the name is gone.
\<close>
theorem late_writer_session:
  assumes "shmem_ok api" "sm_find api name os = None" "\<And>os. sm_find api name os \<noteq> None \<Longrightarrow> sm_open api name os \<noteq> None"
    and "seg_geom pb n (unat (required_bytes pb n))"
    and "\<And>e. fst (sm_create api name (required_bytes pb n) os) \<noteq> CreateFailed e"
    and "\<forall>d \<in> set ds. length d = unat pb" "length ds < 2 ^ 63"
  shows "\<exists>rd wr os1 wr' os2 h os3.
     os_reader_new api me' alive name None None dt True os = Some (Inr rd, os) \<and>
     os_reader_read_into api me' alive rd dst None os = Some (Inr None, rd, dst, os) \<and>
     os_writer_new api me alive name (Some pb) (Some n) dt delayed os = Some (Inr wr, os1) \<and>
     os_write_all api me alive wr os1 ds = Some (wr', os2) \<and>
     os_read_all api me' alive (unat pb) (Suc (unat n)) rd os2 =
       Some (map (\<lambda>s. (word_of_nat s, ds ! (s - 1))) [Suc (length ds - unat n)..<Suc (length ds)]) \<and>
     os_writer_drop api me wr' os2 = Some os3 \<and> ow_shmem wr' = Some h \<and>
     hdr_at (sm_get api h os3) writer_owner = 0 \<and> sm_find api name os3 = None"
proof -
  let ?rd = "\<lparr>or_name = name, or_dtype = dt, or_delayed = True, or_zero_copy = False, or_inner = None, or_shmem = None\<rparr>"
  from assms(1,2,4-) obtain wr os1 wr' os2 h w where
    w: "os_writer_new api me alive name (Some pb) (Some n) dt delayed os = Some (Inr wr, os1)"
      "os_write_all api me alive wr os1 ds = Some (wr', os2)"
    and h: "ow_shmem wr' = Some h" "sm_name api h = name" "sm_is_owner api h" "sm_find api name os2 = Some (sm_seg api h)"
    and f: "flowing ds w (sm_get api h os2)" "rw_payload_bytes w = pb" "rw_entry_count w = n"
    and own: "hdr_at (sm_get api h os2) writer_owner = me"
    and hdr: "\<exists>hx. read_header (sm_get api h os2) = Some (Inr (Some hx)) \<and> hdr_payload_bytes hx = pb \<and>
       hdr_entry_count hx = n \<and> check_dtype hx dt = Inr ()"
    by (rule writer_session [where alive = alive and dt = dt and delayed = delayed and me = me])
  from hdr obtain hx where hx: "read_header (sm_get api h os2) = Some (Inr (Some hx))" "hdr_payload_bytes hx = pb"
    "hdr_entry_count hx = n" "check_dtype hx dt = Inr ()" by blast
  from assms(3) h(4) obtain h' where h': "sm_open api name os2 = Some h'" by (metis not_None_eq option.simps(3))
  with h(4) open_facts(1) [OF assms(1) h'] have get: "sm_get api h' os2 = sm_get api h os2"
    by (intro get_same_seg [OF assms(1)]) simp
  have nz: "pb \<noteq> 0" "n \<noteq> 0" using assms(4) by (auto simp: seg_geom_def)
  have n0: "0 < unat n" using assms(4) by (simp add: seg_geom_def)
  let ?xs = "entries ds (length ds - unat n)"
  have "read_all (Suc (unat n)) (raw_reader_attach hx) (sm_get api h' os2) = Some ?xs"
    using flowing_read_fresh [OF f(1), of "raw_reader_attach hx"] f(2,3) hx(2,3) n0
    by (simp add: get raw_reader_attach_def same_geom_def del: read_all.simps)
  then have rd: "os_read_all api me' alive (unat pb) (Suc (unat n)) ?rd os2 = Some ?xs"
    using h' hx nz get by (intro waiting_reader_connects [where h = h' and hx = hx]) (simp_all del: read_all.simps)
  have 72: "72 \<le> length (sm_get api h os2)" using hx(1) by (rule read_header_72)
  let ?os3 = "sm_drop api h (sm_put api h (set_hdr (sm_get api h os2) writer_owner 0) os2)"
  have "os_writer_drop api me wr' os2 = Some ?os3"
    using h(1) writer_role.release_own [OF 72, of me] own by (simp add: os_writer_drop_def)
  moreover have "hdr_at (sm_get api h ?os3) writer_owner = 0"
    using 72 by (simp add: get_drop [OF assms(1)] get_put [OF assms(1)] hdr_at_set_hdr)
  moreover have "sm_find api name ?os3 = None" using h by (simp add: find_drop [OF assms(1)])
  ultimately show ?thesis
    using waiting_reader [OF assms(1,2), of me' alive dt] w h(1) rd unfolding entries_def by blast
qed

theorem late_writer_session_witness:
  "\<exists>rd wr os1 wr' os2.
     os_reader_new sim_api 8 (\<lambda>p. True) ''c'' None None U8 True empty_os = Some (Inr rd, empty_os) \<and>
     os_writer_new sim_api 7 (\<lambda>p. True) ''c'' (Some 8) (Some 2) U8 False empty_os = Some (Inr wr, os1) \<and>
     os_write_all sim_api 7 (\<lambda>p. True) wr os1 [replicate 8 1] = Some (wr', os2) \<and>
     os_read_all sim_api 8 (\<lambda>p. True) 8 3 rd os2 = Some [(1, replicate 8 1)]"
proof -
  have g: "seg_geom 8 2 (unat (required_bytes 8 2))"
    by (simp add: seg_geom_def required_bytes_def entry_bytes_def)
  have o: "sm_open sim_api ''c'' os \<noteq> None" if "sm_find sim_api ''c'' os \<noteq> None" for os
    using that by (simp add: sim_api_def)
  have c: "fst (sm_create sim_api ''c'' (required_bytes 8 2) empty_os) \<noteq> CreateFailed e" for e
    by (simp add: sim_api_def empty_os_def)
  have f: "sm_find sim_api ''c'' empty_os = None" by (simp add: sim_api_def empty_os_def)
  have e: "map (\<lambda>s. (word_of_nat s, [replicate 8 1] ! (s - 1)))
      [Suc (length [replicate 8 1 :: byte list] - unat (2 :: usize))..<Suc (length [replicate 8 1 :: byte list])] =
      [(1 :: u64, replicate 8 1 :: byte list)]" by (simp add: upt_rec)
  have k: "Suc (unat (2 :: usize)) = 3" "unat (8 :: usize) = 8" by simp_all
  have d: "\<forall>d \<in> set [replicate 8 1 :: byte list]. length d = unat (8 :: usize)"
    "length [replicate 8 1 :: byte list] < 2 ^ 63" by simp_all
  from late_writer_session [OF sim_ok f o g c d, of 8 "\<lambda>p. True" U8 "[]" 7 False, unfolded e k]
  show ?thesis by blast
qed

end
