(* ===== verification/Zc_Named.thy ===== *)
theory Zc_Named
  imports Zc_Sessions Zc_Acquire
begin

text \<open>
  What the named endpoints share. Every operation of the model is partial: \<open>None\<close> is an access
  outside a segment, a division by zero or the panic of \<open>expect("connected")\<close>. This theory shows that
  opening never gets there on a system whose segments are sound, and carries that through deferred
  connection in the locale \<open>named_endpoint\<close>, which the writer (\<open>Zc_Writer_Safety\<close>) and the reader
  (\<open>Zc_Reader_Safety\<close>) interpret.
\<close>

subsection \<open>Sound segments\<close>

text \<open>
  A segment that a name leads to holds a header, and a complete header describes a ring that fits.
  The layout words of a segment never change once its header is complete.
\<close>

definition sound_mem :: "mem \<Rightarrow> bool" where
  "sound_mem m \<longleftrightarrow> 72 \<le> length m \<and> length m < 2 ^ 63 \<and>
     (hdr_at m OFF_MAGIC = MAGIC_VERSION \<longrightarrow>
        hdr_at m OFF_PAYLOAD_BYTES = 0 \<or> hdr_at m OFF_ENTRY_COUNT = 0 \<or>
        seg_geom (hdr_at m OFF_PAYLOAD_BYTES) (hdr_at m OFF_ENTRY_COUNT) (length m))"

definition sound_os :: "('os, 'h) shmem_api \<Rightarrow> 'os \<Rightarrow> bool" where
  "sound_os api os \<longleftrightarrow>
     (\<forall>name h. sm_find api name os = Some (sm_seg api h) \<longrightarrow> sound_mem (sm_get api h os))"

definition same_layout :: "mem \<Rightarrow> mem \<Rightarrow> bool" where
  "same_layout m' m \<longleftrightarrow> length m' = length m \<and>
     (\<forall>off \<in> {OFF_MAGIC, OFF_PAYLOAD_BYTES, OFF_ENTRY_COUNT, OFF_DTYPE}. hdr_at m' off = hdr_at m off)"

text \<open>The segment is a channel of entries of type \<open>dt\<close> (bytes fit any type) with the given geometry.\<close>

definition seg_typed :: "dtype \<Rightarrow> usize \<Rightarrow> usize \<Rightarrow> mem \<Rightarrow> bool" where
  "seg_typed dt pb n m \<longleftrightarrow> seg_geom pb n (length m) \<and> hdr_at m OFF_MAGIC = MAGIC_VERSION \<and>
     hdr_at m OFF_PAYLOAD_BYTES = pb \<and> hdr_at m OFF_ENTRY_COUNT = n \<and>
     (dt = U8 \<or> hdr_at m OFF_DTYPE = dtype_code dt)"

lemma same_layout_refl [simp]: "same_layout m m"
  by (simp add: same_layout_def)

lemma same_layout_mono:
  assumes "same_layout m' m"
  shows "sound_mem m' \<longleftrightarrow> sound_mem m" "seg_typed dt pb n m' \<longleftrightarrow> seg_typed dt pb n m"
  using assms by (simp_all add: same_layout_def sound_mem_def seg_typed_def)

lemma same_layout_set_hdr:
  "72 \<le> length m \<Longrightarrow> hdr_off off \<Longrightarrow> off \<notin> {OFF_MAGIC, OFF_PAYLOAD_BYTES, OFF_ENTRY_COUNT, OFF_DTYPE} \<Longrightarrow>
   same_layout (set_hdr m off v) m"
  by (auto simp: same_layout_def hdr_at_set_hdr)

lemma same_layout_set_seq:
  "seg_geom pb n (length m) \<Longrightarrow> i < unat n \<Longrightarrow> same_layout (set_seq pb m i v) m"
  by (auto simp: same_layout_def length_set_seq)

lemma seg_typedD:
  assumes "seg_typed dt pb n m"
  shows "seg_geom pb n (length m)" "72 \<le> length m" "0 < unat n"
  using assms seg_geom_72 [of pb n "length m"] by (auto simp: seg_typed_def seg_geom_def)

lemma sound_put:
  assumes "shmem_ok api" "sound_os api os" "same_layout m (sm_get api h os)"
  shows "sound_os api (sm_put api h m os)"
  unfolding sound_os_def
proof (intro allI impI)
  fix name h' assume "sm_find api name (sm_put api h m os) = Some (sm_seg api h')"
  then have f: "sm_find api name os = Some (sm_seg api h')" by (simp add: find_put [OF assms(1)])
  with assms(2) have "sound_mem (sm_get api h' os)" by (simp add: sound_os_def)
  with get_same_seg [OF assms(1), of h' h os] same_layout_mono(1) [OF assms(3)]
  show "sound_mem (sm_get api h' (sm_put api h m os))" by (auto simp: get_put [OF assms(1)])
qed

lemma sound_drop: "shmem_ok api \<Longrightarrow> sound_os api os \<Longrightarrow> sound_os api (sm_drop api h os)"
  by (auto simp: sound_os_def find_drop get_drop split: if_splits)

lemma sound_open:
  assumes "shmem_ok api" "sound_os api os" "sm_open api name os = Some h"
  shows "sound_mem (sm_get api h os)"
  using assms(2) open_facts(1) [OF assms(1,3)] by (auto simp: sound_os_def)

subsection \<open>Opening\<close>

lemma read_header_sound:
  assumes "sound_mem m"
  obtains (bad) e where "read_header m = Some (Inl e)"
    | (blank) "read_header m = Some (Inr None)"
    | (found) hx where "read_header m = Some (Inr (Some hx))"
        "hdr_payload_bytes hx = hdr_at m OFF_PAYLOAD_BYTES" "hdr_entry_count hx = hdr_at m OFF_ENTRY_COUNT"
        "hdr_dtype hx = hdr_at m OFF_DTYPE" "hdr_at m OFF_MAGIC = MAGIC_VERSION"
proof -
  have 72: "72 \<le> length m" using assms by (simp add: sound_mem_def)
  show ?thesis
  proof (cases "hdr_at m OFF_MAGIC = MAGIC_VERSION")
    case True
    from read_header_valid [OF 72 True] found True show ?thesis by simp
  next
    case False
    then show ?thesis
      using read_header_cases_facts(1,4) [OF 72] bad blank by (cases "hdr_at m OFF_MAGIC = 0") blast+
  qed
qed

lemma seg_typed_header:
  assumes "sound_mem m" "hdr_at m OFF_MAGIC = MAGIC_VERSION"
    and "hdr_payload_bytes hx = hdr_at m OFF_PAYLOAD_BYTES" "hdr_entry_count hx = hdr_at m OFF_ENTRY_COUNT"
    and "hdr_dtype hx = hdr_at m OFF_DTYPE" "check_dtype hx dt = Inr ()"
    and "hdr_payload_bytes hx \<noteq> 0" "hdr_entry_count hx \<noteq> 0"
  shows "seg_typed dt (hdr_payload_bytes hx) (hdr_entry_count hx) m"
  using assms by (auto simp: sound_mem_def seg_typed_def check_dtype_def split: if_splits)

text \<open>What every way of opening promises: it returns, and a mapping it returns is a typed channel.\<close>

definition opened_ok :: "('os, 'h) shmem_api \<Rightarrow> dtype \<Rightarrow> ((('h \<times> header) option) zc_result \<times> 'os) option \<Rightarrow> bool" where
  "opened_ok api dt res \<longleftrightarrow> (\<exists>r os'. res = Some (r, os') \<and> sound_os api os' \<and>
     (\<forall>h hx. r = Inr (Some (h, hx)) \<longrightarrow>
        seg_typed dt (hdr_payload_bytes hx) (hdr_entry_count hx) (sm_get api h os')))"

lemma try_attach_safe:
  assumes "shmem_ok api" "sound_os api os"
  shows "opened_ok api dt (try_attach api name dt os)"
proof (cases "sm_open api name os")
  case None
  with assms show ?thesis by (simp add: opened_ok_def open_defs)
next
  case (Some h)
  note d = sound_drop [OF assms] and s = sound_open [OF assms Some]
  from s show ?thesis
  proof (cases rule: read_header_sound)
    case (found hx)
    with Some d assms(2) seg_typed_header [OF s found(5,2,3,4)] show ?thesis
      by (auto simp: opened_ok_def open_defs split: sum.splits)
  qed (use Some d in \<open>simp_all add: opened_ok_def open_defs\<close>)
qed

lemma seg_typed_initialized:
  assumes "seg_geom pb n (length m)"
  shows "seg_typed dt pb n (initialized pb n dt me m)" "sound_mem (initialized pb n dt me m)"
  using assms seg_geom_72 [OF assms]
  by (auto simp: seg_typed_def sound_mem_def initialized_views [OF assms] seg_geom_def)

lemma sound_init:
  assumes "shmem_ok api" "seg_geom pb n (length (sm_get api h os))"
    and "\<And>name h'. sm_find api name os = Some (sm_seg api h') \<Longrightarrow> sm_seg api h' \<noteq> sm_seg api h \<Longrightarrow>
       sound_mem (sm_get api h' os)"
  shows "sound_os api (sm_put api h (initialized pb n dt me (sm_get api h os)) os)"
  using assms(3) seg_typed_initialized(2) [OF assms(2)]
  by (auto simp: sound_os_def find_put [OF assms(1)] get_put [OF assms(1)])

lemma adopt_blank_safe:
  assumes "shmem_ok api" "sound_os api os" "sm_open api name os = Some h"
    and "check_geometry pb n = Inr ()" "no_wrap pb n"
    and blank: "read_header (sm_get api h os) = Some (Inr None)"
  shows "opened_ok api dt (adopt_existing api me alive name pb n dt h os)"
proof (cases "length (sm_get api h os) < unat (required_bytes pb n)")
  case True
  with blank sound_drop [OF assms(1,2)] show ?thesis by (simp add: adopt_existing_def header_of_def opened_ok_def)
next
  case False
  with assms(4,5) sound_open [OF assms(1-3)] have g: "seg_geom pb n (length (sm_get api h os))"
    by (intro seg_geom_of_check) (simp_all add: sound_mem_def)
  have "sound_os api (sm_put api h (initialized pb n dt me (sm_get api h os)) os)"
    using assms(2) by (intro sound_init [OF assms(1) g]) (auto simp: sound_os_def)
  with blank False g seg_typed_initialized(1) [OF g, of dt me] show ?thesis
    by (simp add: adopt_existing_def header_of_def opened_ok_def init_segment_eq get_put [OF assms(1)]
        read_initialized set_owner_facts [OF assms(1)] fresh_header_def)
qed

lemma adopt_existing_safe:
  assumes "shmem_ok api" "sound_os api os" "sm_open api name os = Some h"
    and "check_geometry pb n = Inr ()" "no_wrap pb n"
  shows "opened_ok api dt (adopt_existing api me alive name pb n dt h os)"
proof -
  note d = sound_drop [OF assms(1,2)] and s = sound_open [OF assms(1-3)]
  have 72: "72 \<le> length (sm_get api h os)" using s by (simp add: sound_mem_def)
  from s show ?thesis
  proof (cases rule: read_header_sound)
    case (bad e)
    with d show ?thesis by (simp add: adopt_existing_def header_of_def opened_ok_def)
  next
    case blank
    with assms show ?thesis by (intro adopt_blank_safe)
  next
    case (found hx)
    show ?thesis
    proof (cases "validate_header hx pb n = Inr () \<and> check_dtype hx dt = Inr ()")
      case False
      with found d show ?thesis
        by (auto simp: adopt_existing_def header_of_def opened_ok_def split: sum.splits)
    next
      case True
      let ?m = "sm_get api h os"
      let ?m' = "if deed_free me alive ?m then set_hdr ?m segment_owner me else ?m"
      obtain t where c: "claim_segment me alive (still ?m) 0 segment_owner = Some (deed_free me alive ?m, ?m', t)"
        using claim_segment_deed [OF 72] by blast
      have l: "same_layout ?m' ?m" using 72 by (auto intro!: same_layout_set_hdr)
      have "hdr_payload_bytes hx \<noteq> 0" "hdr_entry_count hx \<noteq> 0"
        using True assms(4) by (auto simp: validate_header_def check_geometry_ok split: if_splits)
      with seg_typed_header [OF s found(5,2-4)] True
      have "seg_typed dt (hdr_payload_bytes hx) (hdr_entry_count hx) ?m'"
        using same_layout_mono(2) [OF l] by simp
      with True found c sound_put [OF assms(1,2) l] show ?thesis
        by (simp add: adopt_existing_def header_of_def opened_ok_def get_put [OF assms(1)]
            set_owner_facts [OF assms(1)])
    qed
  qed
qed

text \<open>Sizes that were given must not make the size computation wrap (see \<open>geometry_inside_iff\<close>).\<close>

definition sizes_fit :: "usize option \<Rightarrow> usize option \<Rightarrow> bool" where
  "sizes_fit pb n \<longleftrightarrow>
     (\<forall>p k. pb = Some p \<longrightarrow> n = Some k \<longrightarrow> no_wrap p k \<and> unat (required_bytes p k) < 2 ^ 63)"

lemma open_free_safe:
  assumes "shmem_ok api" "sound_os api os" "sm_find api name os = None" "check_geometry pb n = Inr ()"
    and "no_wrap pb n" "unat (required_bytes pb n) < 2 ^ 63"
  shows "opened_ok api dt (open_or_create api me alive name (Some pb) (Some n) dt delayed os)"
proof -
  let ?m = "replicate (unat (required_bytes pb n)) 0 :: mem"
  have g: "seg_geom pb n (length ?m)" using assms(4-6) by (intro seg_geom_of_check) simp_all
  obtain r os1 where cr: "sm_create api name (required_bytes pb n) os = (r, os1)" by fastforce
  from assms(1,3) cr show ?thesis
  proof (cases rule: create_free)
    case (failed e)
    with cr assms(2,4) show ?thesis by (simp add: open_or_create_def create_segment_def Let_def opened_ok_def)
  next
    case (made h)
    have g1: "seg_geom pb n (length (sm_get api h os1))" using g made(5) by simp
    have "sound_os api (sm_put api h (initialized pb n dt me (sm_get api h os1)) os1)"
    proof (rule sound_init [OF assms(1) g1])
      fix x h' assume x: "sm_find api x os1 = Some (sm_seg api h')" "sm_seg api h' \<noteq> sm_seg api h"
      with made(4) have "x \<noteq> name" by auto
      with x made(6) assms(2) have "sound_mem (sm_get api h' os)" by (simp add: sound_os_def)
      with made(7) x(2) show "sound_mem (sm_get api h' os1)" by simp
    qed
    with cr made(1) assms(4) g1 seg_typed_initialized(1) [OF g1, of dt me] show ?thesis
      by (simp add: open_or_create_def create_segment_def Let_def init_segment_eq header_of_def
          get_put [OF assms(1)] read_initialized opened_ok_def fresh_header_def)
  qed
qed

lemma open_or_create_safe:
  assumes "shmem_ok api" "sound_os api os" "sizes_fit pb n"
  shows "opened_ok api dt (open_or_create api me alive name pb n dt delayed os)"
proof -
  consider (none) "pb = None" "n = None" | (one) "(pb = None) \<noteq> (n = None)" | (both) p k where "pb = Some p" "n = Some k"
    by (cases pb; cases n) auto
  then show ?thesis
  proof cases
    case none
    from try_attach_safe [OF assms(1,2)] obtain r os1 where
      "try_attach api name dt os = Some (r, os1)" "sound_os api os1"
      "\<forall>h hx. r = Inr (Some (h, hx)) \<longrightarrow> seg_typed dt (hdr_payload_bytes hx) (hdr_entry_count hx) (sm_get api h os1)"
      unfolding opened_ok_def by blast
    with none show ?thesis by (auto simp: open_or_create_def opened_ok_def split: sum.splits option.splits)
  next
    case one
    with assms(2) show ?thesis by (auto simp: open_or_create_def opened_ok_def split: option.splits)
  next
    case (both p k)
    show ?thesis
    proof (cases "check_geometry p k")
      case (Inl e)
      with both assms(2) show ?thesis by (simp add: open_or_create_def opened_ok_def)
    next
      case (Inr u)
      then have ck: "check_geometry p k = Inr ()" by simp
      have fit: "no_wrap p k" "unat (required_bytes p k) < 2 ^ 63" using assms(3) both by (simp_all add: sizes_fit_def)
      show ?thesis
      proof (cases "sm_find api name os")
        case None
        with open_free_safe [OF assms(1,2) None ck fit] both show ?thesis by simp
      next
        case (Some s)
        have "create_segment api me name p k dt os = Some (Inr None, os)"
          by (simp add: create_segment_def create_taken [OF assms(1) Some] Let_def)
        with both ck assms(2) adopt_existing_safe [OF assms(1,2) _ ck fit(1)] show ?thesis
          by (auto simp: open_or_create_def try_open_def opened_ok_def split: option.splits)
      qed
    qed
  qed
qed

subsection \<open>The contract of a named endpoint\<close>

text \<open>
  What writer and reader have in common: they are made unconnected, they bind to a mapping when a
  segment is there, at construction or on a later call, and they stay connected from then on.
  \<open>typed\<close> is the invariant of the endpoint with its segment. The laws ask of binding that it returns
  on a typed channel and establishes the invariant; the lemmas give the same for connecting and
  constructing.
\<close>

locale named_endpoint =
  fixes api :: "('os, 'h) shmem_api"
    and name_of :: "'e \<Rightarrow> string" and dtype_of :: "'e \<Rightarrow> dtype" and delayed_of :: "'e \<Rightarrow> bool"
    and connected :: "'e \<Rightarrow> bool"
    and typed :: "'e \<Rightarrow> 'os \<Rightarrow> bool"
    and bind :: "'e \<Rightarrow> 'h \<Rightarrow> header \<Rightarrow> 'os \<Rightarrow> (unit zc_result \<times> 'e \<times> 'os) option"
    and ensure :: "'e \<Rightarrow> 'os \<Rightarrow> (bool zc_result \<times> 'e \<times> 'os) option"
    and new :: "'e \<Rightarrow> usize option \<Rightarrow> usize option \<Rightarrow> 'os \<Rightarrow> ('e zc_result \<times> 'os) option"
    and me :: u64 and alive :: "u32 \<Rightarrow> bool"
  assumes ensure_connected: "connected e \<Longrightarrow> ensure e os = Some (Inr True, e, os)"
    and ensure_attach: "\<not> connected e \<Longrightarrow> ensure e os =
      do {
        (r, os) \<leftarrow> try_attach api (name_of e) (dtype_of e) os;
        case r of
          Inl err \<Rightarrow> Some (Inl err, e, os)
        | Inr (Some (h, hx)) \<Rightarrow>
            do {
              (r, e, os) \<leftarrow> bind e h hx os;
              Some (case r of Inl err \<Rightarrow> Inl err | Inr _ \<Rightarrow> Inr True, e, os)
            }
        | Inr None \<Rightarrow>
            Some (if delayed_of e then Inr False
                  else Inl (OsError ''shared memory segment not available''), e, os)
      }"
    and new_open: "typed e os \<Longrightarrow> \<not> connected e \<Longrightarrow> new e pb n os =
      do {
        (r, os) \<leftarrow> open_or_create api me alive (name_of e) pb n (dtype_of e) (delayed_of e) os;
        case r of
          Inl err \<Rightarrow> Some (Inl err, os)
        | Inr None \<Rightarrow> Some (Inr e, os)
        | Inr (Some (h, hx)) \<Rightarrow>
            do {
              (r, e, os) \<leftarrow> bind e h hx os;
              Some (case r of Inl err \<Rightarrow> Inl err | Inr _ \<Rightarrow> Inr e, os)
            }
      }"
    and unconnected_typed: "typed e os \<Longrightarrow> \<not> connected e \<Longrightarrow> typed e os'"
    and bind_safe: "shmem_ok api \<Longrightarrow> sound_os api os \<Longrightarrow> typed e os \<Longrightarrow> \<not> connected e \<Longrightarrow>
      seg_typed (dtype_of e) (hdr_payload_bytes hx) (hdr_entry_count hx) (sm_get api h os) \<Longrightarrow>
      \<exists>r e' os'. bind e h hx os = Some (r, e', os') \<and> sound_os api os' \<and> typed e' os' \<and>
        (r = Inr () \<longleftrightarrow> connected e')"
begin

lemma ensure_safe:
  assumes "shmem_ok api" "sound_os api os" "typed e os"
  shows "\<exists>r e' os'. ensure e os = Some (r, e', os') \<and> sound_os api os' \<and> typed e' os' \<and>
     (r = Inr True \<longleftrightarrow> connected e')"
proof (cases "connected e")
  case True
  with assms show ?thesis by (simp add: ensure_connected)
next
  case False
  from try_attach_safe [OF assms(1,2)] obtain r os1 where
    a: "try_attach api (name_of e) (dtype_of e) os = Some (r, os1)" "sound_os api os1"
      "\<forall>h hx. r = Inr (Some (h, hx)) \<longrightarrow>
         seg_typed (dtype_of e) (hdr_payload_bytes hx) (hdr_entry_count hx) (sm_get api h os1)"
    unfolding opened_ok_def by blast
  note t = unconnected_typed [OF assms(3) False, of os1]
  consider (bound) h hx where "r = Inr (Some (h, hx))" | (rest) "\<nexists>h hx. r = Inr (Some (h, hx))" by blast
  then show ?thesis
  proof cases
    case (bound h hx)
    with a(3) bind_safe [OF assms(1) a(2) t False, of hx h] obtain r' e' os' where
      "bind e h hx os1 = Some (r', e', os')" "sound_os api os'" "typed e' os'" "r' = Inr () \<longleftrightarrow> connected e'"
      by blast
    with a(1) bound False show ?thesis by (cases r') (simp_all add: ensure_attach)
  next
    case rest
    with a t False show ?thesis by (auto simp: ensure_attach split: sum.splits option.splits)
  qed
qed

text \<open>The shape of every call: connect, give up with an error or because there is no channel yet, or act.\<close>

lemma call_safe:
  assumes "shmem_ok api" "sound_os api os" "typed e os"
    and "\<And>err e os. sound_os api os \<Longrightarrow> typed e os \<Longrightarrow> post (bad err e os) \<and> post (idle e os)"
    and "\<And>e os. sound_os api os \<Longrightarrow> typed e os \<Longrightarrow> connected e \<Longrightarrow> \<exists>x. act e os = Some x \<and> post x"
  shows "\<exists>x. do {
       (c, e, os) \<leftarrow> ensure e os;
       case c of Inl err \<Rightarrow> Some (bad err e os) | Inr b \<Rightarrow> if \<not> b then Some (idle e os) else act e os
     } = Some x \<and> post x"
proof -
  from ensure_safe [OF assms(1-3)] obtain c e' os' where
    "ensure e os = Some (c, e', os')" "sound_os api os'" "typed e' os'" "c = Inr True \<longleftrightarrow> connected e'" by blast
  with assms(4,5) [of os' e'] show ?thesis by (cases c) auto
qed

lemma new_safe:
  assumes "shmem_ok api" "sound_os api os" "typed e os" "\<not> connected e" "sizes_fit pb n"
  shows "\<exists>r os'. new e pb n os = Some (r, os') \<and> sound_os api os' \<and> (\<forall>e'. r = Inr e' \<longrightarrow> typed e' os')"
proof -
  from open_or_create_safe [OF assms(1,2,5)] obtain r os1 where
    a: "open_or_create api me alive (name_of e) pb n (dtype_of e) (delayed_of e) os = Some (r, os1)" "sound_os api os1"
      "\<forall>h hx. r = Inr (Some (h, hx)) \<longrightarrow>
         seg_typed (dtype_of e) (hdr_payload_bytes hx) (hdr_entry_count hx) (sm_get api h os1)"
    unfolding opened_ok_def by blast
  note t = unconnected_typed [OF assms(3,4), of os1]
  consider (bound) h hx where "r = Inr (Some (h, hx))" | (rest) "\<nexists>h hx. r = Inr (Some (h, hx))" by blast
  then show ?thesis
  proof cases
    case (bound h hx)
    with a(3) bind_safe [OF assms(1) a(2) t assms(4), of hx h] obtain r' e' os' where
      "bind e h hx os1 = Some (r', e', os')" "sound_os api os'" "typed e' os'" by blast
    with a(1) bound show ?thesis by (cases r') (simp_all add: new_open [OF assms(3,4)])
  next
    case rest
    with a t show ?thesis by (auto simp: new_open [OF assms(3,4)] split: sum.splits option.splits)
  qed
qed

end

end
