(* ===== verification/Zc_Writer_Safety.thy ===== *)
theory Zc_Writer_Safety
  imports Zc_Named
begin

text \<open>
  Type safety of the named writer (\<open>zerochannel/src/writer.rs\<close>): an invariant of the writer with its
  segment that every call establishes and no call can fail under.
\<close>

subsection \<open>The invariant of the writer\<close>

definition writer_typed :: "('os, 'h) shmem_api \<Rightarrow> 'h os_writer \<Rightarrow> 'os \<Rightarrow> bool" where
  "writer_typed api wr os \<longleftrightarrow>
     (case (ow_inner wr, ow_shmem wr) of
        (None, None) \<Rightarrow> True
      | (Some w, Some h) \<Rightarrow>
          seg_typed (ow_dtype wr) (rw_payload_bytes w) (rw_entry_count w) (sm_get api h os) \<and>
          rw_wf w (sm_get api h os)
      | _ \<Rightarrow> False)"

lemma writer_typed_both: "writer_typed api wr os \<Longrightarrow> ow_inner wr = None \<longleftrightarrow> ow_shmem wr = None"
  by (auto simp: writer_typed_def split: option.splits)

text \<open>The constructor, from the object it starts with.\<close>

definition writer_new_from ::
    "('os, 'h) shmem_api \<Rightarrow> u64 \<Rightarrow> (u32 \<Rightarrow> bool) \<Rightarrow> 'h os_writer \<Rightarrow> usize option \<Rightarrow> usize option \<Rightarrow> 'os \<Rightarrow>
     (('h os_writer) zc_result \<times> 'os) option" where
  "writer_new_from api me alive wr pb n os =
     os_writer_new api me alive (ow_name wr) pb n (ow_dtype wr) (ow_delayed wr) os"

lemma attach_typed:
  assumes "seg_geom (hdr_payload_bytes hx) (hdr_entry_count hx) (length m)"
  shows "\<exists>w. raw_writer_attach m hx = Some w \<and> rw_payload_bytes w = hdr_payload_bytes hx \<and>
     rw_entry_count w = hdr_entry_count hx \<and> rw_wf w m"
proof -
  let ?n = "unat (hdr_entry_count hx)"
  have "k mod ?n < ?n" for k using assms by (simp add: seg_geom_def)
  then have "unat (word_of_nat (k mod ?n) :: usize) < ?n" for k using unat_of_nat_below by metis
  with assms show ?thesis
    by (auto simp: raw_writer_attach_def recover_state_eq [OF assms] rw_wf_def)
qed

lemma writer_bind_safe:
  assumes "shmem_ok api" "sound_os api os" "ow_inner wr = None" "ow_shmem wr = None"
    and "seg_typed (ow_dtype wr) (hdr_payload_bytes hx) (hdr_entry_count hx) (sm_get api h os)"
  shows "\<exists>r wr' os'. os_writer_bind api me alive wr h hx os = Some (r, wr', os') \<and> sound_os api os' \<and>
     writer_typed api wr' os' \<and> (r = Inr () \<longleftrightarrow> ow_inner wr' \<noteq> None)"
proof -
  let ?m = "sm_get api h os" and ?m' = "set_hdr (sm_get api h os) writer_owner me"
  note g = seg_typedD [OF assms(5)]
  have l: "same_layout ?m' ?m" using g(2) by (intro same_layout_set_hdr) auto
  then have "seg_geom (hdr_payload_bytes hx) (hdr_entry_count hx) (length ?m')" using g(1) by (simp add: same_layout_def)
  from attach_typed [OF this] obtain w where w: "raw_writer_attach ?m' hx = Some w"
    "rw_payload_bytes w = hdr_payload_bytes hx" "rw_entry_count w = hdr_entry_count hx" "rw_wf w ?m'" by blast
  have t: "seg_typed (ow_dtype wr) (hdr_payload_bytes hx) (hdr_entry_count hx) ?m'"
    using assms(5) same_layout_mono(2) [OF l] by simp
  show ?thesis
  proof (cases "hdr_at ?m writer_owner \<noteq> 0 \<and> alive (ucast (hdr_at ?m writer_owner))")
    case True
    with writer_bind_eq [OF g(2), of me alive wr hx] show ?thesis
      using sound_drop [OF assms(1,2), of h] assms(3,4)
      by (simp add: put_get [OF assms(1)] writer_typed_def del: cell_addrs)
  next
    case False
    with writer_bind_eq [OF g(2), of me alive wr hx] w t sound_put [OF assms(1,2) l] show ?thesis
      by (simp add: writer_typed_def get_put [OF assms(1)] del: cell_addrs)
  qed
qed

interpretation writer_endpoint: named_endpoint api ow_name ow_dtype ow_delayed "\<lambda>wr. ow_inner wr \<noteq> None"
    "\<lambda>wr os. writer_typed api wr os" "os_writer_bind api me alive" "os_writer_ensure_connected api me alive"
    "writer_new_from api me alive" me alive for api me alive
proof (unfold_locales, goal_cases)
  case (1 e os)
  then show ?case by (simp add: os_writer_ensure_connected_def)
next
  case (2 e os)
  then show ?case
    by (auto simp: os_writer_ensure_connected_def intro!: Option.bind_cong split: sum.splits option.splits)
next
  case (3 e os pb n)
  then have e: "\<lparr>ow_name = ow_name e, ow_dtype = ow_dtype e, ow_delayed = ow_delayed e, ow_inner = None, ow_shmem = None\<rparr> = e"
    using writer_typed_both [OF 3(1)] by (cases e) auto
  show ?case
    by (auto simp: writer_new_from_def os_writer_new_def e Let_def intro!: Option.bind_cong split: sum.splits option.splits)
next
  case (4 e os os')
  then show ?case by (auto simp: writer_typed_def split: option.splits)
next
  case (5 os e hx h)
  then have "ow_inner e = None" "ow_shmem e = None" using writer_typed_both [OF 5(3)] by auto
  from writer_bind_safe [OF 5(1,2) this 5(5)] show ?case .
qed

lemma writer_typedE:
  assumes "writer_typed api wr os" "ow_inner wr \<noteq> None"
  obtains w h where "ow_inner wr = Some w" "ow_shmem wr = Some h" "rw_wf w (sm_get api h os)"
    "seg_typed (ow_dtype wr) (rw_payload_bytes w) (rw_entry_count w) (sm_get api h os)"
  using assms by (auto simp: writer_typed_def split: option.splits)

text \<open>An update of the ring through the mapping keeps the writer and the system typed.\<close>

lemma writer_put:
  assumes "shmem_ok api" "sound_os api os" "same_layout m (sm_get api h os)" "ow_inner wr = Some w" "ow_shmem wr = Some h"
    and "seg_typed (ow_dtype wr) (rw_payload_bytes w) (rw_entry_count w) (sm_get api h os)" "rw_wf w m"
  shows "sound_os api (sm_put api h m os)" "writer_typed api wr (sm_put api h m os)"
  using sound_put [OF assms(1-3)] same_layout_mono(2) [OF assms(3)] assms(4-7)
  by (simp_all add: writer_typed_def get_put [OF assms(1)])

lemma raw_write_safe:
  assumes "rw_wf w m"
  shows "\<exists>r w' m'. raw_writer_write w m data = Some (r, w', m') \<and> same_layout m' m \<and> rw_wf w' m' \<and>
     rw_payload_bytes w' = rw_payload_bytes w \<and> rw_entry_count w' = rw_entry_count w"
proof (cases "length data = unat (rw_payload_bytes w)")
  case False
  with assms show ?thesis by (simp add: raw_writer_write_def)
next
  case True
  obtain r w' m' where wr: "raw_writer_write w m data = Some (r, w', m')"
    using raw_writer_write_eq [OF assms True] by (cases "ring_free_slot (unat (rw_current_index w)) (rw_ring w m)") auto
  have "rw_entry_count w' = rw_entry_count w"
    using wr raw_writer_write_eq [OF assms True] by (auto split: option.splits)
  with wr write_keeps_header [OF assms True wr] show ?thesis by (auto simp: same_layout_def)
qed

lemma raw_publish_safe:
  assumes "rw_wf w m" "wh_index handle < rw_entry_count w"
  shows "\<exists>seq w' m'. raw_writer_commit w m handle = Some (seq, w', m') \<and> same_layout m' m \<and> rw_wf w' m' \<and>
     rw_payload_bytes w' = rw_payload_bytes w \<and> rw_entry_count w' = rw_entry_count w"
proof -
  have i: "unat (wh_index handle) < unat (rw_entry_count w)" using assms(2) by (simp add: word_less_nat_alt)
  note f = published_mem_facts [OF assms(1) i]
  have "raw_writer_commit w m handle = Some (rw_last_entry_seq w + 1, committed_writer w (unat (wh_index handle)),
      published_mem w m (unat (wh_index handle)))"
    using publish_published [OF assms(1) i] by (simp add: raw_writer_commit_def)
  with f show ?thesis by (simp add: same_layout_def)
qed

text \<open>A handle that \<open>try_acquire\<close> of this writer returned addresses a slot of its ring.\<close>

definition handle_of :: "'h os_writer \<Rightarrow> write_handle \<Rightarrow> bool" where
  "handle_of wr handle \<longleftrightarrow> (\<exists>w. ow_inner wr = Some w \<and> wh_index handle < rw_entry_count w)"

lemma writer_write_safe:
  assumes "shmem_ok api" "sound_os api os" "writer_typed api wr os"
  shows "\<exists>x. os_writer_write api me alive wr data os = Some x \<and>
     (case x of (r, wr', os') \<Rightarrow> sound_os api os' \<and> writer_typed api wr' os')"
  unfolding os_writer_write_def
proof (rule writer_endpoint.call_safe [OF assms])
  fix wr os assume s: "sound_os api os" "writer_typed api wr os" "ow_inner wr \<noteq> None"
  then obtain w h where w: "ow_inner wr = Some w" "ow_shmem wr = Some h" "rw_wf w (sm_get api h os)"
    "seg_typed (ow_dtype wr) (rw_payload_bytes w) (rw_entry_count w) (sm_get api h os)" by (auto elim: writer_typedE)
  from raw_write_safe [OF w(3), of data] obtain r w' m' where
    "raw_writer_write w (sm_get api h os) data = Some (r, w', m')" "same_layout m' (sm_get api h os)" "rw_wf w' m'"
    "rw_payload_bytes w' = rw_payload_bytes w" "rw_entry_count w' = rw_entry_count w" by blast
  with writer_put [OF assms(1) s(1), of m' h "wr\<lparr>ow_inner := Some w'\<rparr>" w'] w
  show "\<exists>x. do {
      (w, h) \<leftarrow> ow_connected wr;
      (r, w, m) \<leftarrow> raw_writer_write w (sm_get api h os) data;
      Some (r, wr\<lparr>ow_inner := Some w\<rparr>, sm_put api h m os)
    } = Some x \<and> (case x of (r, wr', os') \<Rightarrow> sound_os api os' \<and> writer_typed api wr' os')"
    by (simp add: ow_connected_def)
qed auto

lemma writer_acquire_safe:
  assumes "shmem_ok api" "sound_os api os" "writer_typed api wr os"
  shows "\<exists>x. os_writer_try_acquire api me alive wr os = Some x \<and>
     (case x of (r, wr', os') \<Rightarrow> sound_os api os' \<and> writer_typed api wr' os' \<and>
        (\<forall>handle. r = Inr (Some handle) \<longrightarrow> handle_of wr' handle))"
  unfolding os_writer_try_acquire_def
proof (rule writer_endpoint.call_safe [OF assms])
  fix wr os assume s: "sound_os api os" "writer_typed api wr os" "ow_inner wr \<noteq> None"
  then obtain w h where w: "ow_inner wr = Some w" "ow_shmem wr = Some h" "rw_wf w (sm_get api h os)"
    "seg_typed (ow_dtype wr) (rw_payload_bytes w) (rw_entry_count w) (sm_get api h os)" by (auto elim: writer_typedE)
  let ?m = "sm_get api h os" and ?post = "\<lambda>x. case x of (r, wr', os') \<Rightarrow> sound_os api os' \<and> writer_typed api wr' os' \<and>
        (\<forall>handle. r = Inr (Some handle) \<longrightarrow> handle_of wr' handle)"
  show "\<exists>x. do {
      (w, h) \<leftarrow> ow_connected wr;
      (r, m) \<leftarrow> raw_writer_try_acquire w (sm_get api h os);
      Some (case r of Inl e \<Rightarrow> Inl e | Inr handle \<Rightarrow> Inr (Some handle), wr, sm_put api h m os)
    } = Some x \<and> ?post x"
  proof (cases "ring_free_slot (unat (rw_current_index w)) (rw_ring w ?m)")
    case None
    with w s show ?thesis by (simp add: ow_connected_def raw_writer_try_acquire_eq put_get [OF assms(1)])
  next
    case (Some i)
    have i: "i < unat (rw_entry_count w)" using ring_free_slot_bound [OF w(3) Some] .
    then have "word_of_nat i < rw_entry_count w" by (simp add: word_less_nat_alt unat_of_nat_below)
    moreover have "same_layout (set_seq (rw_payload_bytes w) ?m i 0) ?m"
      using w(3) i by (intro same_layout_set_seq) (simp_all add: rw_wf_def)
    ultimately show ?thesis
      using writer_put [OF assms(1) s(1) _ w(1,2,4), of "set_seq (rw_payload_bytes w) ?m i 0"] w Some rw_wf_set_seq [OF w(3) i, of 0]
      by (simp add: ow_connected_def raw_writer_try_acquire_eq handle_of_def)
  qed
qed auto

lemma writer_commit_safe:
  assumes "shmem_ok api" "sound_os api os" "writer_typed api wr os" "handle_of wr handle"
  shows "\<exists>seq wr' os'. os_writer_commit api wr handle os = Some (seq, wr', os') \<and>
     sound_os api os' \<and> writer_typed api wr' os'"
proof -
  from assms(3,4) obtain w h where w: "ow_inner wr = Some w" "ow_shmem wr = Some h" "rw_wf w (sm_get api h os)"
    "seg_typed (ow_dtype wr) (rw_payload_bytes w) (rw_entry_count w) (sm_get api h os)"
    and i: "wh_index handle < rw_entry_count w" by (auto simp: handle_of_def elim: writer_typedE)
  from raw_publish_safe [OF w(3) i] obtain seq w' m' where
    "raw_writer_commit w (sm_get api h os) handle = Some (seq, w', m')" "same_layout m' (sm_get api h os)" "rw_wf w' m'"
    "rw_payload_bytes w' = rw_payload_bytes w" "rw_entry_count w' = rw_entry_count w" by blast
  with writer_put [OF assms(1,2), of m' h "wr\<lparr>ow_inner := Some w'\<rparr>" w'] w show ?thesis
    by (simp add: os_writer_commit_def ow_connected_def)
qed

text \<open>
  The life of a writer: its own calls, each on whatever the liveness of processes is at that moment,
  and anything that other participants do to the system, as long as they keep names sound and leave
  the layout of the segment this writer has mapped.
\<close>

inductive writer_step :: "('os, 'h) shmem_api \<Rightarrow> u64 \<Rightarrow> 'h os_writer \<times> 'os \<Rightarrow> 'h os_writer \<times> 'os \<Rightarrow> bool" for api me where
  written: "os_writer_write api me alive wr data os = Some (r, wr', os') \<Longrightarrow> writer_step api me (wr, os) (wr', os')"
| acquired: "os_writer_try_acquire api me alive wr os = Some (r, wr', os') \<Longrightarrow> writer_step api me (wr, os) (wr', os')"
| committed: "handle_of wr handle \<Longrightarrow> os_writer_commit api wr handle os = Some (seq, wr', os') \<Longrightarrow>
    writer_step api me (wr, os) (wr', os')"
| other: "sound_os api os' \<Longrightarrow> \<forall>h. ow_shmem wr = Some h \<longrightarrow> same_layout (sm_get api h os') (sm_get api h os) \<Longrightarrow>
    writer_step api me (wr, os) (wr, os')"

inductive_cases writer_stepE: "writer_step api me s s'"

definition writer_ok :: "('os, 'h) shmem_api \<Rightarrow> 'h os_writer \<times> 'os \<Rightarrow> bool" where
  "writer_ok api = (\<lambda>(wr, os). shmem_ok api \<and> sound_os api os \<and> writer_typed api wr os)"

lemma writer_typed_layout:
  assumes "writer_typed api wr os" "\<forall>h. ow_shmem wr = Some h \<longrightarrow> same_layout (sm_get api h os') (sm_get api h os)"
  shows "writer_typed api wr os'"
proof (cases "ow_inner wr")
  case None
  with assms(1) show ?thesis by (simp add: writer_typed_def)
next
  case (Some w)
  with assms(1) obtain h where h: "ow_shmem wr = Some h" "rw_wf w (sm_get api h os)"
    "seg_typed (ow_dtype wr) (rw_payload_bytes w) (rw_entry_count w) (sm_get api h os)" by (auto elim!: writer_typedE)
  with assms(2) have l: "same_layout (sm_get api h os') (sm_get api h os)" by simp
  with same_layout_mono(2) [OF l] Some h show ?thesis by (simp add: writer_typed_def rw_wf_def same_layout_def)
qed

interpretation writer_life: step_invariant "writer_step api me" "writer_ok api" for api me
proof
  fix s s' assume ok: "writer_ok api s" and "writer_step api me s s'"
  from this(2) show "writer_ok api s'"
  proof cases
    case (written alive wr data os r wr' os')
    with ok writer_write_safe [of api os wr me alive data] show ?thesis by (auto simp: writer_ok_def)
  next
    case (acquired alive wr os r wr' os')
    with ok writer_acquire_safe [of api os wr me alive] show ?thesis by (auto simp: writer_ok_def)
  next
    case (committed wr handle os seq wr' os')
    with ok writer_commit_safe [of api os wr handle] show ?thesis by (auto simp: writer_ok_def)
  next
    case (other os' wr os)
    with ok writer_typed_layout [of api wr os os'] show ?thesis by (simp add: writer_ok_def)
  qed
qed

lemma writer_drop_safe:
  assumes "writer_typed api wr os"
  shows "os_writer_drop api me wr os \<noteq> None"
proof (cases "ow_inner wr")
  case None
  with writer_typed_both [OF assms] show ?thesis by (simp add: os_writer_drop_def)
next
  case (Some w)
  with assms obtain h where "ow_shmem wr = Some h" "72 \<le> length (sm_get api h os)"
    by (auto elim!: writer_typedE dest: seg_typedD(2))
  with writer_role.release_own [of "sm_get api h os" me] show ?thesis by (simp add: os_writer_drop_def)
qed

text \<open>
  C9: A writer does not go wrong, under three conditions: the named segments are sound (each is
  uninitialised, foreign, or has a header whose geometry fits it or is empty), sizes that are given do
  not make the size computation overflow (\<open>sizes_fit\<close>; \<open>geometry_inside_iff\<close> shows what happens
  otherwise), and the other participants keep the named segments sound and leave the layout words of
  the mapped segment alone. Then constructing a writer returns, with a writer or an error. After any
  sequence of writes, acquisitions and commits, on a channel that is there, appears later or never
  appears, among any such activity of others, the writer is well typed: it is unconnected, or it is
  bound to a mapping of its element type whose header carries the writer's geometry. So no call
  panics, divides by zero or leaves the segment, and dropping it works.
\<close>
theorem writer_type_sound:
  assumes "shmem_ok api" "sound_os api os0" "sizes_fit pb n"
  shows "\<exists>r os. os_writer_new api me alive name pb n dt delayed os0 = Some (r, os) \<and> sound_os api os \<and>
     (\<forall>wr wr' os'. r = Inr wr \<longrightarrow> (writer_step api me)\<^sup>*\<^sup>* (wr, os) (wr', os') \<longrightarrow>
        writer_typed api wr' os' \<and>
        (\<forall>alive data. os_writer_write api me alive wr' data os' \<noteq> None) \<and>
        (\<forall>alive. os_writer_try_acquire api me alive wr' os' \<noteq> None) \<and>
        (\<forall>handle. handle_of wr' handle \<longrightarrow> os_writer_commit api wr' handle os' \<noteq> None) \<and>
        os_writer_drop api me wr' os' \<noteq> None)"
proof -
  let ?this = "\<lparr>ow_name = name, ow_dtype = dt, ow_delayed = delayed, ow_inner = None, ow_shmem = None\<rparr>"
  have "writer_typed api ?this os0" by (simp add: writer_typed_def)
  from writer_endpoint.new_safe [OF assms(1,2) this _ assms(3), of me alive] obtain r os where
    new: "os_writer_new api me alive name pb n dt delayed os0 = Some (r, os)" "sound_os api os"
      "\<forall>wr. r = Inr wr \<longrightarrow> writer_typed api wr os"
    by (auto simp: writer_new_from_def)
  have "writer_typed api wr' os' \<and>
        (\<forall>alive data. os_writer_write api me alive wr' data os' \<noteq> None) \<and>
        (\<forall>alive. os_writer_try_acquire api me alive wr' os' \<noteq> None) \<and>
        (\<forall>handle. handle_of wr' handle \<longrightarrow> os_writer_commit api wr' handle os' \<noteq> None) \<and>
        os_writer_drop api me wr' os' \<noteq> None"
    if "r = Inr wr" "(writer_step api me)\<^sup>*\<^sup>* (wr, os) (wr', os')" for wr wr' os'
  proof -
    from writer_life.inv_star [OF that(2)] that(1) new assms(1) have "sound_os api os'" "writer_typed api wr' os'"
      by (simp_all add: writer_ok_def)
    with writer_write_safe [OF assms(1) this] writer_acquire_safe [OF assms(1) this]
      writer_commit_safe [OF assms(1) this] writer_drop_safe [OF this(2)] show ?thesis by fastforce
  qed
  with new(1,2) show ?thesis by blast
qed

theorem writer_type_sound_witness:
  "\<exists>r os. os_writer_new sim_api 7 (\<lambda>p. True) ''c'' (Some 8) (Some 2) F64 False empty_os = Some (r, os) \<and>
     (\<forall>wr data. r = Inr wr \<longrightarrow> os_writer_write sim_api 7 (\<lambda>p. True) wr data os \<noteq> None)"
proof -
  have "sound_os sim_api empty_os" by (simp add: sound_os_def sim_api_def empty_os_def)
  moreover have "sizes_fit (Some 8) (Some 2)" by (simp add: sizes_fit_def no_wrap_def required_bytes_def entry_bytes_def)
  ultimately show ?thesis
    using writer_type_sound [OF sim_ok, of empty_os "Some 8" "Some 2" 7 "\<lambda>p. True" "''c''" F64 False] by blast
qed

end
