(* ===== verification/Zc_Reader_Safety.thy ===== *)
theory Zc_Reader_Safety
  imports Zc_Named
begin

text \<open>
  Type safety of the named reader (\<open>zerochannel/src/reader.rs\<close>), and its exclusive zero-copy role.
\<close>

subsection \<open>The invariant of the reader\<close>

definition reader_typed :: "('os, 'h) shmem_api \<Rightarrow> 'h os_reader \<Rightarrow> 'os \<Rightarrow> bool" where
  "reader_typed api rd os \<longleftrightarrow>
     (case (or_inner rd, or_shmem rd) of
        (None, None) \<Rightarrow> True
      | (Some r, Some h) \<Rightarrow>
          seg_typed (or_dtype rd) (rr_payload_bytes r) (rr_entry_count r) (sm_get api h os) \<and>
          rr_wf r (sm_get api h os)
      | _ \<Rightarrow> False)"

lemma reader_typed_both: "reader_typed api rd os \<Longrightarrow> or_inner rd = None \<longleftrightarrow> or_shmem rd = None"
  by (auto simp: reader_typed_def split: option.splits)

lemma reader_typedE:
  assumes "reader_typed api rd os" "or_inner rd \<noteq> None"
  obtains r h where "or_inner rd = Some r" "or_shmem rd = Some h" "rr_wf r (sm_get api h os)"
    "seg_typed (or_dtype rd) (rr_payload_bytes r) (rr_entry_count r) (sm_get api h os)"
  using assms by (auto simp: reader_typed_def split: option.splits)

lemma reader_typed_layout:
  assumes "reader_typed api rd os" "\<forall>h. or_shmem rd = Some h \<longrightarrow> same_layout (sm_get api h os') (sm_get api h os)"
  shows "reader_typed api rd os'"
proof (cases "or_inner rd")
  case None
  with assms(1) show ?thesis by (simp add: reader_typed_def)
next
  case (Some r)
  with assms(1) obtain h where h: "or_shmem rd = Some h" "rr_wf r (sm_get api h os)"
    "seg_typed (or_dtype rd) (rr_payload_bytes r) (rr_entry_count r) (sm_get api h os)" by (auto elim!: reader_typedE)
  with assms(2) have l: "same_layout (sm_get api h os') (sm_get api h os)" by simp
  with same_layout_mono(2) [OF l] Some h show ?thesis by (simp add: reader_typed_def rr_wf_def same_layout_def)
qed

text \<open>The constructor, from the object it starts with.\<close>

definition reader_new_from ::
    "('os, 'h) shmem_api \<Rightarrow> u64 \<Rightarrow> (u32 \<Rightarrow> bool) \<Rightarrow> 'h os_reader \<Rightarrow> usize option \<Rightarrow> usize option \<Rightarrow> 'os \<Rightarrow>
     (('h os_reader) zc_result \<times> 'os) option" where
  "reader_new_from api me alive rd pb n os =
     os_reader_open api me alive (or_name rd) pb n (or_dtype rd) (or_delayed rd) (or_zero_copy rd) os"

subsection \<open>Binding a reader\<close>

lemma reader_bind_eq:
  assumes "shmem_ok api" "72 \<le> length (sm_get api h os)"
  defines "m \<equiv> sm_get api h os"
  shows "os_reader_bind api me alive rd h hx os =
     (if or_zero_copy rd \<and> hdr_at m zc_reader_owner \<noteq> 0 \<and> alive (ucast (hdr_at m zc_reader_owner))
      then Some (Inl (role_conflict ''zero-copy reader'' (or_name rd) (hdr_at m zc_reader_owner)), rd, sm_drop api h os)
      else Some (Inr (), rd\<lparr>or_inner := Some (raw_reader_attach hx), or_shmem := Some h\<rparr>,
             if or_zero_copy rd then sm_put api h (set_hdr m zc_reader_owner me) os else os))"
  using zc_role.claim_alone [OF assms(2), of me alive 0 "''zero-copy reader''" "or_name rd"] put_get [OF assms(1), of h os]
  by (cases "hdr_at m zc_reader_owner = 0"; cases "alive (ucast (hdr_at m zc_reader_owner))")
    (simp_all add: os_reader_bind_def m_def del: cell_addrs)

lemma reader_bind_safe:
  assumes "shmem_ok api" "sound_os api os" "or_inner rd = None" "or_shmem rd = None"
    and "seg_typed (or_dtype rd) (hdr_payload_bytes hx) (hdr_entry_count hx) (sm_get api h os)"
  shows "\<exists>r rd' os'. os_reader_bind api me alive rd h hx os = Some (r, rd', os') \<and> sound_os api os' \<and>
     reader_typed api rd' os' \<and> (r = Inr () \<longleftrightarrow> or_inner rd' \<noteq> None)"
proof -
  let ?m = "sm_get api h os" and ?m' = "set_hdr (sm_get api h os) zc_reader_owner me"
  let ?rd = "rd\<lparr>or_inner := Some (raw_reader_attach hx), or_shmem := Some h\<rparr>"
  note g = seg_typedD [OF assms(5)]
  have l: "same_layout ?m' ?m" using g(2) by (intro same_layout_set_hdr) auto
  have t: "reader_typed api ?rd os"
    using assms(5) g by (simp add: reader_typed_def raw_reader_attach_def rr_wf_def)
  have t': "reader_typed api ?rd (sm_put api h ?m' os)"
    using l by (intro reader_typed_layout [OF t]) (simp add: get_put [OF assms(1)])
  show ?thesis
    using reader_bind_eq [OF assms(1) g(2), of me alive rd hx] t t' assms(2-4) sound_put [OF assms(1,2) l]
      sound_drop [OF assms(1,2), of h]
    by (simp add: reader_typed_def [of api rd])
qed

interpretation reader_endpoint: named_endpoint api or_name or_dtype or_delayed "\<lambda>rd. or_inner rd \<noteq> None"
    "\<lambda>rd os. reader_typed api rd os" "os_reader_bind api me alive" "os_reader_ensure_connected api me alive"
    "reader_new_from api me alive" me alive for api me alive
proof (unfold_locales, goal_cases)
  case (1 e os)
  then show ?case by (simp add: os_reader_ensure_connected_def)
next
  case (2 e os)
  then show ?case
    by (auto simp: os_reader_ensure_connected_def intro!: Option.bind_cong split: sum.splits option.splits)
next
  case (3 e os pb n)
  then have e: "\<lparr>or_name = or_name e, or_dtype = or_dtype e, or_delayed = or_delayed e, or_zero_copy = or_zero_copy e,
      or_inner = None, or_shmem = None\<rparr> = e"
    using reader_typed_both [OF 3(1)] by (cases e) auto
  show ?case
    by (auto simp: reader_new_from_def os_reader_open_def e Let_def intro!: Option.bind_cong split: sum.splits option.splits)
next
  case (4 e os os')
  then show ?case by (auto simp: reader_typed_def split: option.splits)
next
  case (5 os e hx h)
  then have "or_inner e = None" "or_shmem e = None" using reader_typed_both [OF 5(3)] by auto
  from reader_bind_safe [OF 5(1,2) this 5(5)] show ?case .
qed

subsection \<open>The calls of the reader\<close>

definition moved_reader :: "raw_reader \<Rightarrow> raw_reader \<Rightarrow> bool" where
  "moved_reader r r' \<longleftrightarrow>
     r' = r \<or> (\<exists>s i. i < rr_entry_count r \<and> r' = r\<lparr>rr_last_entry_seq := s, rr_last_read_idx := i\<rparr>)"

lemma moved_reader_facts:
  "moved_reader r r' \<Longrightarrow> rr_payload_bytes r' = rr_payload_bytes r \<and> rr_entry_count r' = rr_entry_count r \<and>
     (rr_wf r m \<longrightarrow> rr_wf r' m)"
  by (auto simp: moved_reader_def rr_wf_def word_less_nat_alt)

lemma reader_typed_moved:
  assumes "reader_typed api rd os" "or_inner rd = Some r" "moved_reader r r'"
  shows "reader_typed api (rd\<lparr>or_inner := Some r'\<rparr>) os"
  using assms moved_reader_facts [OF assms(3)] by (auto simp: reader_typed_def split: option.splits)

lemma raw_read_safe:
  assumes "rr_wf r m"
  shows "\<exists>res r' bytes t. raw_reader_read_into r (still m) 0 dst fr = Some (res, r', bytes, t) \<and> moved_reader r r'"
proof -
  have "seg_geom (rr_payload_bytes r) (rr_entry_count r) (length (still m k))" for k using assms by (simp add: rr_wf_def)
  from read_into_runs [where v = "still m", OF this, of 0 dst fr] show ?thesis by (auto simp: moved_reader_def)
qed

lemma raw_read_into_as_safe:
  assumes "rr_wf r m"
  shows "\<exists>res r' xs t. raw_reader_read_into_as r (still m) 0 d dst fr = Some (res, r', xs, t) \<and> moved_reader r r'"
  using raw_read_safe [OF assms, of "slice_bytes d dst" fr] by (auto simp: raw_reader_read_into_as_def)

lemma raw_read_as_safe:
  assumes "rr_wf r m"
  shows "\<exists>res r' t. raw_reader_read_as r (still m) 0 d fr = Some (res, r', t) \<and> moved_reader r r'"
proof (cases "size_of d = 0 \<or> \<not> is_multiple_of (rr_payload_bytes r) (size_of d)")
  case True
  then show ?thesis by (auto simp: raw_reader_read_as_def Let_def moved_reader_def)
next
  case False
  with raw_read_into_as_safe [OF assms, of d "replicate (unat (rr_payload_bytes r div size_of d)) 0" fr]
  show ?thesis by (auto simp: raw_reader_read_as_def)
qed

lemma raw_acquire_safe:
  assumes "rr_wf r m"
  shows "\<exists>res r' m' t. raw_reader_try_acquire r (still m) 0 fr = Some (Inr res, r', m', t) \<and> moved_reader r r' \<and>
     same_layout m' m \<and> (\<forall>handle. res = Some handle \<longrightarrow> rh_index handle < rr_entry_count r)"
proof -
  have g: "seg_geom (rr_payload_bytes r) (rr_entry_count r) (length m)" using assms by (simp add: rr_wf_def)
  then have "seg_geom (rr_payload_bytes r) (rr_entry_count r) (length (still m k))" for k by simp
  from try_acquire_runs [where v = "still m", OF this, of 0 fr] obtain res r' m' t where
    a: "raw_reader_try_acquire r (still m) 0 fr = Some (Inr res, r', m', t)"
    and res: "case res of None \<Rightarrow> r' = r \<and> m' = m
      | Some hx \<Rightarrow> rh_index hx < rr_entry_count r \<and>
          r' = r\<lparr>rr_last_entry_seq := rh_entry_seq hx, rr_last_read_idx := rh_index hx\<rparr> \<and>
          compare_exchange m (seq_cell (rr_payload_bytes r) (rh_index hx)) (rh_entry_seq hx) (- rh_entry_seq hx) =
            Some (Inr (rh_entry_seq hx), m')"
    by (fastforce split: option.splits)
  show ?thesis
  proof (cases res)
    case None
    with a res show ?thesis by (simp add: moved_reader_def)
  next
    case (Some hx)
    then have i: "unat (rh_index hx) < unat (rr_entry_count r)" using res by (simp add: word_less_nat_alt)
    have "m' = m \<or> m' = set_seq (rr_payload_bytes r) m (unat (rh_index hx)) (- rh_entry_seq hx)"
      using Some res cas_seq_cell [OF g i] by (auto split: if_splits)
    with same_layout_set_seq [OF g i] have "same_layout m' m" by auto
    with Some a res show ?thesis by (auto simp: moved_reader_def)
  qed
qed

text \<open>A handle that \<open>try_acquire\<close> of this reader returned addresses a slot of its ring.\<close>

definition read_handle_of :: "'h os_reader \<Rightarrow> read_handle \<Rightarrow> bool" where
  "read_handle_of rd handle \<longleftrightarrow> (\<exists>r. or_inner rd = Some r \<and> rh_index handle < rr_entry_count r)"

lemma reader_actE:
  assumes "reader_typed api rd os" "or_inner rd \<noteq> None"
  obtains r h where "or_connected rd = Some (r, h)" "rr_wf r (sm_get api h os)"
    "\<And>r'. moved_reader r r' \<Longrightarrow> reader_typed api (rd\<lparr>or_inner := Some r'\<rparr>) os"
proof -
  from assms obtain r h where "or_inner rd = Some r" "or_shmem rd = Some h" "rr_wf r (sm_get api h os)"
    by (auto elim: reader_typedE)
  with that reader_typed_moved [OF assms(1)] show ?thesis by (simp add: or_connected_def)
qed

lemma reader_read_into_safe:
  assumes "shmem_ok api" "sound_os api os" "reader_typed api rd os"
  shows "\<exists>x. os_reader_read_into api me alive rd dst fr os = Some x \<and>
     (case x of (res, rd', bytes, os') \<Rightarrow> sound_os api os' \<and> reader_typed api rd' os')"
  unfolding os_reader_read_into_def
proof (rule reader_endpoint.call_safe [OF assms], goal_cases)
  case (2 rd os)
  from 2(2,3) obtain r h where "or_connected rd = Some (r, h)" "rr_wf r (sm_get api h os)"
    "\<And>r'. moved_reader r r' \<Longrightarrow> reader_typed api (rd\<lparr>or_inner := Some r'\<rparr>) os" by (rule reader_actE) blast
  with 2(1) raw_read_safe [of r "sm_get api h os" dst fr] show ?case by auto
qed auto

lemma reader_read_into_as_safe:
  assumes "shmem_ok api" "sound_os api os" "reader_typed api rd os"
  shows "\<exists>x. os_reader_read_into_as api me alive d rd dst fr os = Some x \<and>
     (case x of (res, rd', xs, os') \<Rightarrow> sound_os api os' \<and> reader_typed api rd' os')"
  unfolding os_reader_read_into_as_def
proof (rule reader_endpoint.call_safe [OF assms], goal_cases)
  case (2 rd os)
  from 2(2,3) obtain r h where "or_connected rd = Some (r, h)" "rr_wf r (sm_get api h os)"
    "\<And>r'. moved_reader r r' \<Longrightarrow> reader_typed api (rd\<lparr>or_inner := Some r'\<rparr>) os" by (rule reader_actE) blast
  with 2(1) raw_read_into_as_safe [of r "sm_get api h os" d dst fr] show ?case by auto
qed auto

lemma reader_read_as_safe:
  assumes "shmem_ok api" "sound_os api os" "reader_typed api rd os"
  shows "\<exists>x. os_reader_read_as api me alive d rd fr os = Some x \<and>
     (case x of (res, rd', os') \<Rightarrow> sound_os api os' \<and> reader_typed api rd' os')"
  unfolding os_reader_read_as_def
proof (rule reader_endpoint.call_safe [OF assms], goal_cases)
  case (2 rd os)
  from 2(2,3) obtain r h where "or_connected rd = Some (r, h)" "rr_wf r (sm_get api h os)"
    "\<And>r'. moved_reader r r' \<Longrightarrow> reader_typed api (rd\<lparr>or_inner := Some r'\<rparr>) os" by (rule reader_actE) blast
  with 2(1) raw_read_as_safe [of r "sm_get api h os" d fr] show ?case by auto
qed auto

lemma reader_acquire_safe:
  assumes "shmem_ok api" "sound_os api os" "reader_typed api rd os"
  shows "\<exists>x. os_reader_try_acquire api me alive rd fr os = Some x \<and>
     (case x of (res, rd', os') \<Rightarrow> sound_os api os' \<and> reader_typed api rd' os' \<and>
        (\<forall>handle. res = Inr (Some handle) \<longrightarrow> read_handle_of rd' handle))"
proof (cases "or_zero_copy rd")
  case False
  with assms(2,3) show ?thesis by (simp add: os_reader_try_acquire_def)
next
  case True
  then have zc: "\<not> \<not> or_zero_copy rd" by simp
  show ?thesis
    unfolding os_reader_try_acquire_def if_not_P [OF zc]
  proof (rule reader_endpoint.call_safe [OF assms], goal_cases)
    case (2 rd os)
    from 2(2,3) obtain r h where r: "or_connected rd = Some (r, h)" "rr_wf r (sm_get api h os)"
      "\<And>r'. moved_reader r r' \<Longrightarrow> reader_typed api (rd\<lparr>or_inner := Some r'\<rparr>) os" by (rule reader_actE) blast
    from raw_acquire_safe [OF r(2), of fr] obtain res r' m' t where
      a: "raw_reader_try_acquire r (still (sm_get api h os)) 0 fr = Some (Inr res, r', m', t)" "moved_reader r r'"
        "same_layout m' (sm_get api h os)" "\<forall>handle. res = Some handle \<longrightarrow> rh_index handle < rr_entry_count r" by blast
    have "same_layout (sm_get api h' (sm_put api h m' os)) (sm_get api h' os)" for h'
      using a(3) get_same_seg [OF assms(1), of h' h os] by (auto simp: get_put [OF assms(1)])
    from reader_typed_layout [OF r(3) [OF a(2)], of "sm_put api h m' os"] this
    have "reader_typed api (rd\<lparr>or_inner := Some r'\<rparr>) (sm_put api h m' os)" by simp
    with r(1) a sound_put [OF assms(1) 2(1) a(3)] moved_reader_facts [OF a(2)] show ?case
      by (simp add: read_handle_of_def)
  qed auto
qed

lemma reader_release_safe:
  assumes "shmem_ok api" "sound_os api os" "reader_typed api rd os" "read_handle_of rd handle"
  shows "\<exists>os'. os_reader_release api rd handle os = Some os' \<and> sound_os api os' \<and> reader_typed api rd os'"
proof -
  from assms(3,4) obtain r h where r: "or_inner rd = Some r" "or_shmem rd = Some h" "rr_wf r (sm_get api h os)"
    and i: "unat (rh_index handle) < unat (rr_entry_count r)"
    by (auto simp: read_handle_of_def word_less_nat_alt elim: reader_typedE)
  have g: "seg_geom (rr_payload_bytes r) (rr_entry_count r) (length (sm_get api h os))" using r(3) by (simp add: rr_wf_def)
  let ?m = "set_seq (rr_payload_bytes r) (sm_get api h os) (unat (rh_index handle)) (rh_entry_seq handle)"
  have l: "same_layout ?m (sm_get api h os)" by (rule same_layout_set_seq [OF g i])
  have "reader_typed api rd (sm_put api h ?m os)"
    using l r(2) by (intro reader_typed_layout [OF assms(3)]) (simp add: get_put [OF assms(1)])
  with r g i sound_put [OF assms(1,2) l] show ?thesis
    by (simp add: os_reader_release_def raw_reader_release_def)
qed

lemma reader_drop_safe:
  assumes "reader_typed api rd os"
  shows "os_reader_drop api me rd os \<noteq> None"
proof (cases "or_inner rd")
  case None
  with reader_typed_both [OF assms] show ?thesis by (simp add: os_reader_drop_def)
next
  case (Some r)
  with assms obtain h where "or_shmem rd = Some h" "72 \<le> length (sm_get api h os)"
    by (auto elim!: reader_typedE dest: seg_typedD(2))
  with zc_role.release_own [of "sm_get api h os" me] show ?thesis by (simp add: os_reader_drop_def)
qed

subsection \<open>The life of a reader\<close>

inductive reader_step :: "('os, 'h) shmem_api \<Rightarrow> u64 \<Rightarrow> 'h os_reader \<times> 'os \<Rightarrow> 'h os_reader \<times> 'os \<Rightarrow> bool" for api me where
  connected: "os_reader_connect api me alive rd os = Some (r, rd', os') \<Longrightarrow> reader_step api me (rd, os) (rd', os')"
| read_bytes: "os_reader_read_into api me alive rd dst fr os = Some (r, rd', dst', os') \<Longrightarrow>
    reader_step api me (rd, os) (rd', os')"
| read_elems: "os_reader_read_into_as api me alive d rd xs fr os = Some (r, rd', xs', os') \<Longrightarrow>
    reader_step api me (rd, os) (rd', os')"
| read_fresh: "os_reader_read_as api me alive d rd fr os = Some (q, rd', os') \<Longrightarrow> reader_step api me (rd, os) (rd', os')"
| acquired: "os_reader_try_acquire api me alive rd fr os = Some (a, rd', os') \<Longrightarrow> reader_step api me (rd, os) (rd', os')"
| released: "read_handle_of rd handle \<Longrightarrow> os_reader_release api rd handle os = Some os' \<Longrightarrow>
    reader_step api me (rd, os) (rd, os')"
| other: "sound_os api os' \<Longrightarrow> \<forall>h. or_shmem rd = Some h \<longrightarrow> same_layout (sm_get api h os') (sm_get api h os) \<Longrightarrow>
    reader_step api me (rd, os) (rd, os')"

definition reader_ok :: "('os, 'h) shmem_api \<Rightarrow> 'h os_reader \<times> 'os \<Rightarrow> bool" where
  "reader_ok api = (\<lambda>(rd, os). shmem_ok api \<and> sound_os api os \<and> reader_typed api rd os)"

interpretation reader_life: step_invariant "reader_step api me" "reader_ok api" for api me
proof
  fix s s' assume "reader_ok api s" and st: "reader_step api me s s'"
  then have ok: "shmem_ok api" "sound_os api (snd s)" "reader_typed api (fst s) (snd s)"
    by (auto simp: reader_ok_def split: prod.splits)
  from st show "reader_ok api s'"
  proof cases
    case (connected alive rd os r rd' os')
    with ok reader_endpoint.ensure_safe [OF ok, of me alive] show ?thesis by (auto simp: reader_ok_def os_reader_connect_def)
  next
    case (read_bytes alive rd dst fr os r rd' dst' os')
    with ok reader_read_into_safe [OF ok, of me alive dst fr] show ?thesis by (auto simp: reader_ok_def)
  next
    case (read_elems alive d rd xs fr os r rd' xs' os')
    with ok reader_read_into_as_safe [OF ok, of me alive d xs fr] show ?thesis by (auto simp: reader_ok_def)
  next
    case (read_fresh alive d rd fr os q rd' os')
    with ok reader_read_as_safe [OF ok, of me alive d fr] show ?thesis by (auto simp: reader_ok_def)
  next
    case (acquired alive rd fr os a rd' os')
    with ok reader_acquire_safe [OF ok, of me alive fr] show ?thesis by (auto simp: reader_ok_def)
  next
    case (released rd handle os os')
    with ok reader_release_safe [OF ok, of handle] show ?thesis by (auto simp: reader_ok_def)
  next
    case (other os' rd os)
    with ok reader_typed_layout [of api rd os os'] show ?thesis by (simp add: reader_ok_def)
  qed
qed

text \<open>
  C10: A reader does not go wrong, under the conditions of the writer: the named segments are sound,
  sizes that are given do not make the size computation overflow (\<open>sizes_fit\<close>), and the other
  participants keep the named segments sound and leave the layout words of the mapped segment alone.
  Then constructing a reader of either kind returns, with a reader or an error. After any sequence of
  connections, one-copy reads into buffers of any length and type, acquisitions and releases, among
  any such activity of others, the reader is well typed: unconnected, or bound to a mapping of its
  element type whose header carries the reader's geometry. So no call panics, divides by zero or
  leaves the segment, and dropping it works.
\<close>
theorem reader_type_sound:
  assumes "shmem_ok api" "sound_os api os0" "sizes_fit pb n"
  shows "\<exists>r os. os_reader_open api me alive name pb n dt delayed zc os0 = Some (r, os) \<and> sound_os api os \<and>
     (\<forall>rd rd' os'. r = Inr rd \<longrightarrow> (reader_step api me)\<^sup>*\<^sup>* (rd, os) (rd', os') \<longrightarrow>
        reader_typed api rd' os' \<and>
        (\<forall>alive dst fr. os_reader_read_into api me alive rd' dst fr os' \<noteq> None) \<and>
        (\<forall>alive d xs fr. os_reader_read_into_as api me alive d rd' xs fr os' \<noteq> None) \<and>
        (\<forall>alive d fr. os_reader_read_as api me alive d rd' fr os' \<noteq> None) \<and>
        (\<forall>alive fr. os_reader_try_acquire api me alive rd' fr os' \<noteq> None) \<and>
        (\<forall>handle. read_handle_of rd' handle \<longrightarrow> os_reader_release api rd' handle os' \<noteq> None) \<and>
        os_reader_drop api me rd' os' \<noteq> None)"
proof -
  let ?this = "\<lparr>or_name = name, or_dtype = dt, or_delayed = delayed, or_zero_copy = zc, or_inner = None, or_shmem = None\<rparr>"
  have "reader_typed api ?this os0" by (simp add: reader_typed_def)
  from reader_endpoint.new_safe [OF assms(1,2) this _ assms(3), of me alive] obtain r os where
    new: "os_reader_open api me alive name pb n dt delayed zc os0 = Some (r, os)" "sound_os api os"
      "\<forall>rd. r = Inr rd \<longrightarrow> reader_typed api rd os"
    by (auto simp: reader_new_from_def)
  have "reader_typed api rd' os' \<and>
        (\<forall>alive dst fr. os_reader_read_into api me alive rd' dst fr os' \<noteq> None) \<and>
        (\<forall>alive d xs fr. os_reader_read_into_as api me alive d rd' xs fr os' \<noteq> None) \<and>
        (\<forall>alive d fr. os_reader_read_as api me alive d rd' fr os' \<noteq> None) \<and>
        (\<forall>alive fr. os_reader_try_acquire api me alive rd' fr os' \<noteq> None) \<and>
        (\<forall>handle. read_handle_of rd' handle \<longrightarrow> os_reader_release api rd' handle os' \<noteq> None) \<and>
        os_reader_drop api me rd' os' \<noteq> None"
    if "r = Inr rd" "(reader_step api me)\<^sup>*\<^sup>* (rd, os) (rd', os')" for rd rd' os'
  proof -
    from reader_life.inv_star [OF that(2)] that(1) new assms(1) have t: "sound_os api os'" "reader_typed api rd' os'"
      by (simp_all add: reader_ok_def)
    have "os_reader_read_into api me alive rd' dst fr os' \<noteq> None" for alive dst fr
      using reader_read_into_safe [OF assms(1) t, of me alive dst fr] by auto
    moreover have "os_reader_read_into_as api me alive d rd' xs fr os' \<noteq> None" for alive d xs fr
      using reader_read_into_as_safe [OF assms(1) t, of me alive d xs fr] by auto
    moreover have "os_reader_read_as api me alive d rd' fr os' \<noteq> None" for alive d fr
      using reader_read_as_safe [OF assms(1) t, of me alive d fr] by auto
    moreover have "os_reader_try_acquire api me alive rd' fr os' \<noteq> None" for alive fr
      using reader_acquire_safe [OF assms(1) t, of me alive fr] by auto
    moreover have "os_reader_release api rd' handle os' \<noteq> None" if "read_handle_of rd' handle" for handle
      using reader_release_safe [OF assms(1) t that] by auto
    ultimately show ?thesis using t(2) reader_drop_safe [OF t(2)] by blast
  qed
  with new(1,2) show ?thesis by blast
qed

theorem reader_type_sound_witness:
  "\<exists>r os. os_reader_open sim_api 7 (\<lambda>p. True) ''c'' None None F64 True True empty_os = Some (r, os) \<and>
     (\<forall>rd dst. r = Inr rd \<longrightarrow> os_reader_read_into sim_api 7 (\<lambda>p. True) rd dst None os \<noteq> None)"
proof -
  have "sound_os sim_api empty_os" by (simp add: sound_os_def sim_api_def empty_os_def)
  moreover have "sizes_fit None None" by (simp add: sizes_fit_def)
  ultimately obtain r os where "os_reader_open sim_api 7 (\<lambda>p. True) ''c'' None None F64 True True empty_os = Some (r, os)"
    "\<And>rd rd' os' dst. r = Inr rd \<Longrightarrow> (reader_step sim_api 7)\<^sup>*\<^sup>* (rd, os) (rd', os') \<Longrightarrow>
       os_reader_read_into sim_api 7 (\<lambda>p. True) rd' dst None os' \<noteq> None"
    using reader_type_sound [OF sim_ok, of empty_os None None 7 "\<lambda>p. True" "''c''" F64 True True] by fastforce
  then show ?thesis by blast
qed

subsection \<open>The zero-copy role\<close>

text \<open>
  C30: Zero-copy readers are exclusive, one-copy readers are not. On an existing channel, opening a
  zero-copy reader without sizes is refused while a live process (this one included) holds the role,
  with the holder named and nothing changed; otherwise, when the role is free or its holder has died,
  the reader takes it, and dropping the reader gives it back: afterwards the role is free and no other
  word of the header has changed. A one-copy reader opens in every case and changes nothing, and it
  cannot acquire.
\<close>
theorem zero_copy_reader_exclusive:
  assumes "shmem_ok api" "sm_open api name os = Some h"
    and "read_header (sm_get api h os) = Some (Inr (Some hx))" "check_dtype hx dt = Inr ()"
    and "hdr_payload_bytes hx \<noteq> 0" "hdr_entry_count hx \<noteq> 0"
  defines "holder \<equiv> hdr_at (sm_get api h os) zc_reader_owner"
  shows "(holder \<noteq> 0 \<and> alive (ucast holder) \<longrightarrow>
       (\<exists>os'. os_reader_new_zero_copy api me alive name None None dt delayed os =
          Some (Inl (role_conflict ''zero-copy reader'' name holder), os') \<and> same_os api os' os)) \<and>
     (holder = 0 \<or> \<not> alive (ucast holder) \<longrightarrow>
       (\<exists>rd os1 os2. os_reader_new_zero_copy api me alive name None None dt delayed os = Some (Inr rd, os1) \<and>
          hdr_at (sm_get api h os1) zc_reader_owner = me \<and>
          os_reader_drop api me rd os1 = Some os2 \<and> hdr_at (sm_get api h os2) zc_reader_owner = 0 \<and>
          (\<forall>off. hdr_off off \<and> off \<noteq> zc_reader_owner \<longrightarrow>
             hdr_at (sm_get api h os2) off = hdr_at (sm_get api h os) off) \<and>
          (\<forall>x. sm_find api x os2 = sm_find api x os))) \<and>
     (\<exists>rd. os_reader_new api me alive name None None dt delayed os = Some (Inr rd, os) \<and>
        (\<exists>msg. os_reader_try_acquire api me alive rd fr os = Some (Inl (InvalidArgument msg), rd, os)))"
proof -
  let ?m = "sm_get api h os"
  have 72: "72 \<le> length ?m" using assms(3) by (rule read_header_72)
  have op: "open_or_create api me alive name None None dt delayed os = Some (Inr (Some (h, hx)), os)"
    using assms(2-6) by (simp add: open_defs)
  note own = open_facts(3) [OF assms(1,2)]
  let ?rd = "\<lambda>zc. \<lparr>or_name = name, or_dtype = dt, or_delayed = delayed, or_zero_copy = zc,
      or_inner = Some (raw_reader_attach hx), or_shmem = Some h\<rparr>"
  let ?os1 = "sm_put api h (set_hdr ?m zc_reader_owner me) os"
  let ?m2 = "set_hdr (set_hdr ?m zc_reader_owner me) zc_reader_owner 0"
  note bd = reader_bind_eq [OF assms(1) 72, where me = me and alive = alive and hx = hx, folded holder_def]
  have 1: "os_reader_new_zero_copy api me alive name None None dt delayed os =
       Some (Inl (role_conflict ''zero-copy reader'' name holder), sm_drop api h os)"
    if "holder \<noteq> 0" "alive (ucast holder)"
    using that by (simp add: os_reader_new_zero_copy_def os_reader_open_def Let_def op bd)
  have 2: "os_reader_new_zero_copy api me alive name None None dt delayed os = Some (Inr (?rd True), ?os1)"
    if "holder = 0 \<or> \<not> alive (ucast holder)"
    using that by (auto simp: os_reader_new_zero_copy_def os_reader_open_def Let_def op bd)
  have 3: "os_reader_new api me alive name None None dt delayed os = Some (Inr (?rd False), os)"
    by (simp add: os_reader_new_def os_reader_open_def Let_def op bd)
  have drop: "os_reader_drop api me (?rd True) ?os1 = Some (sm_drop api h (sm_put api h ?m2 ?os1))"
    using zc_role.release_own [of "set_hdr ?m zc_reader_owner me" me] 72
    by (simp add: os_reader_drop_def get_put [OF assms(1)] hdr_at_set_hdr)
  show ?thesis
    using 1 2 3 drop same_os_drop [OF assms(1) own] own 72
    by (auto simp: get_put [OF assms(1)] get_drop [OF assms(1)] find_put [OF assms(1)] find_drop [OF assms(1)]
        hdr_at_set_hdr os_reader_try_acquire_def)
qed

theorem zero_copy_reader_exclusive_witness:
  "\<exists>rd os1 os2. os_reader_new_zero_copy sim_api 9 (\<lambda>p. True) ''c'' None None F64 False bound_os = Some (Inr rd, os1) \<and>
     hdr_at (sm_get sim_api chan_shmem os1) zc_reader_owner = 9 \<and> os_reader_drop sim_api 9 rd os1 = Some os2 \<and>
     hdr_at (sm_get sim_api chan_shmem os2) zc_reader_owner = 0"
proof -
  have z: "hdr_at (sm_get sim_api chan_shmem bound_os) zc_reader_owner = 0"
    using initialized_views [OF chan_geom] by (simp add: bound_os_facts(2) hdr_at_set_hdr)
  show ?thesis
    using zero_copy_reader_exclusive [OF sim_ok bound_os_facts(1,3), of F64 "\<lambda>p. True" 9 False None] z
    by (auto simp: fresh_header_def check_dtype_def)
qed

end
