(* ===== verification/Zc_Races.thy ===== *)
theory Zc_Races
  imports Zc_Writer_Safety Zc_Reader_Safety
begin

text \<open>
  Several processes at one segment: the bids for the deed while other processes bid and die, two
  processes that create one channel at the same time, and what a zero-copy reader leaves behind when
  it dies.
\<close>

subsection \<open>Bids for the deed\<close>

definition deed_spec :: "u64 \<Rightarrow> (u32 \<Rightarrow> bool) \<Rightarrow> view \<Rightarrow> nat \<Rightarrow> usize \<Rightarrow> bool \<times> mem \<times> nat \<Rightarrow> bool" where
  "deed_spec me alive v t cell = (\<lambda>(won, m', t').
     \<exists>k. t \<le> k \<and> t' = Suc k \<and>
       (if won then m' = set_hdr (v k) cell me \<and> (hdr_at (v k) cell = 0 \<or> \<not> alive (ucast (hdr_at (v k) cell)))
        else m' = v k \<and> (hdr_at (v k) cell = me \<or> alive (ucast (hdr_at (v k) cell)))))"

lemma claim_segment_spec:
  assumes "claim_segment me alive v t cell = Some y"
  shows "hdr_off cell \<longrightarrow> (\<forall>k. 72 \<le> length (v k)) \<longrightarrow> deed_spec me alive v t cell y"
proof (rule claim_segment.raw_induct [OF _ assms], intro impI)
  fix claim and me :: u64 and alive :: "u32 \<Rightarrow> bool" and v :: view and t cell y
  assume IH: "\<And>me alive v t cell y. claim me alive v t cell = Some y \<Longrightarrow>
      hdr_off cell \<longrightarrow> (\<forall>k. 72 \<le> length (v k)) \<longrightarrow> deed_spec me alive v t cell y"
    and run: "do {
       (c, m) \<leftarrow> compare_exchange (v t) cell 0 me;
       case c of
         Inl holder \<Rightarrow>
           if holder = me \<or> alive (ucast holder) then Some (False, m, Suc t)
           else do {
             (c', m') \<leftarrow> compare_exchange (v (Suc t)) cell holder me;
             case c' of
               Inl _ \<Rightarrow> claim me alive v (Suc (Suc t)) cell
             | Inr _ \<Rightarrow> Some (True, m', Suc (Suc t))
           }
       | Inr _ \<Rightarrow> Some (True, m, Suc t)
     } = Some y"
    and hdr: "hdr_off cell" and len: "\<forall>k. 72 \<le> length (v k)"
  note cas = cas_hdr [OF spec [OF len] hdr]
  let ?c = "hdr_at (v t) cell" and ?c' = "hdr_at (v (Suc t)) cell"
  consider "?c = 0 \<or> ?c = me \<or> alive (ucast ?c)" | "?c \<noteq> 0" "?c \<noteq> me" "\<not> alive (ucast ?c)" "?c' = ?c"
    | "?c \<noteq> 0" "?c \<noteq> me" "\<not> alive (ucast ?c)" "?c' \<noteq> ?c" by blast
  then show "deed_spec me alive v t cell y"
  proof cases
    case 1
    with run show ?thesis by (auto simp: cas deed_spec_def split: if_splits)
  next
    case 2
    with run show ?thesis by (auto simp: cas deed_spec_def intro!: exI [of _ "Suc t"])
  next
    case 3
    with run have "claim me alive v (Suc (Suc t)) cell = Some y" by (simp add: cas)
    with IH hdr len have "deed_spec me alive v (Suc (Suc t)) cell y" by blast
    then show ?thesis by (cases y; cases "fst y") (auto simp: deed_spec_def)
  qed
qed

text \<open>
  The life of the deed of an initialised segment: live processes bid (the bid may have been running
  among other accesses; it takes effect now) and die; nothing else changes the deed. The holders are
  the processes whose last bid was won.
\<close>

inductive deed_step :: "role_sys \<Rightarrow> role_sys \<Rightarrow> bool" where
  won:
    "p \<in> rs_alive s \<Longrightarrow> p \<noteq> 0 \<Longrightarrow> \<forall>k. 72 \<le> length (v k) \<Longrightarrow>
     claim_segment (ucast p) (\<lambda>q. q \<in> rs_alive s) v t segment_owner = Some (True, m', t') \<Longrightarrow>
     v (t' - 1) = rs_mem s \<Longrightarrow>
     deed_step s (s\<lparr>rs_mem := m', rs_holders := insert p (rs_holders s)\<rparr>)"
| lost:
    "p \<in> rs_alive s \<Longrightarrow> p \<noteq> 0 \<Longrightarrow> \<forall>k. 72 \<le> length (v k) \<Longrightarrow>
     claim_segment (ucast p) (\<lambda>q. q \<in> rs_alive s) v t segment_owner = Some (False, m', t') \<Longrightarrow>
     v (t' - 1) = rs_mem s \<Longrightarrow>
     deed_step s (s\<lparr>rs_mem := m'\<rparr>)"
| die: "deed_step s (s\<lparr>rs_alive := rs_alive s - {p}\<rparr>)"
| other:
    "length m' = length (rs_mem s) \<Longrightarrow> hdr_at m' segment_owner = hdr_at (rs_mem s) segment_owner \<Longrightarrow>
     deed_step s (s\<lparr>rs_mem := m'\<rparr>)"

inductive_cases deed_stepE: "deed_step s s'"

definition deed_inv :: "u32 \<Rightarrow> role_sys \<Rightarrow> bool" where
  "deed_inv c s \<longleftrightarrow> role_inv segment_owner s \<and> (c \<in> rs_alive s \<longrightarrow> c \<in> rs_holders s)"

lemma deed_won:
  assumes "role_inv segment_owner s" "p \<in> rs_alive s" "p \<noteq> 0" "\<forall>k. 72 \<le> length (v k)"
    and "claim_segment (ucast p) (\<lambda>q. q \<in> rs_alive s) v t segment_owner = Some (True, m', t')" "v (t' - 1) = rs_mem s"
  shows "role_inv segment_owner (s\<lparr>rs_mem := m', rs_holders := insert p (rs_holders s)\<rparr>)"
proof -
  from claim_segment_spec [OF assms(5)] assms(4,6) have m': "m' = set_hdr (rs_mem s) segment_owner (ucast p)"
    and free: "hdr_at (rs_mem s) segment_owner = 0 \<or> ucast (hdr_at (rs_mem s) segment_owner) \<notin> rs_alive s"
    by (auto simp: deed_spec_def)
  have none: "q \<notin> rs_holders s \<inter> rs_alive s" for q
  proof
    assume q: "q \<in> rs_holders s \<inter> rs_alive s"
    with assms(1) have "q \<noteq> 0" "hdr_at (rs_mem s) segment_owner = ucast q" by (auto simp: role_inv_def)
    with free q show False by auto
  qed
  have "72 \<le> length (rs_mem s)" using assms(1) by (simp add: role_inv_def)
  with none assms(3) show ?thesis by (auto simp: role_inv_def m' hdr_at_set_hdr)
qed

interpretation deed_life: step_invariant deed_step "deed_inv c" for c
proof
  fix s s' assume i: "deed_inv c s" and "deed_step s s'"
  from this(2) show "deed_inv c s'"
  proof cases
    case (won p v t m' t')
    with deed_won [OF _ won(2-6)] i show ?thesis by (simp add: deed_inv_def)
  next
    case (lost p v t m' t')
    with claim_segment_spec [OF lost(5)] have "m' = rs_mem s" by (auto simp: deed_spec_def)
    with lost(1) i show ?thesis by (simp add: deed_inv_def role_inv_def)
  qed (use i in \<open>auto simp: deed_inv_def role_inv_def\<close>)
qed

text \<open>
  C27: The deed is exclusive and stays with its holder. Let a creator hold the deed of an initialised
  segment, and let processes bid for it concurrently and die at any time. In every reachable state at
  most one live process holds the deed, and the header names it; as long as the creator is alive,
  that process is the creator.
\<close>
theorem deed_exclusive:
  assumes "72 \<le> length m" "load_u64 m segment_owner = Some (ucast creator)" "creator \<noteq> 0"
    and "deed_step\<^sup>*\<^sup>* \<lparr>rs_mem = m, rs_alive = A, rs_holders = {creator}\<rparr> s"
    and "p \<in> rs_holders s \<inter> rs_alive s"
  shows "load_u64 (rs_mem s) segment_owner = Some (ucast p) \<and>
     (\<forall>q \<in> rs_holders s \<inter> rs_alive s. q = p) \<and> (creator \<in> rs_alive s \<longrightarrow> p = creator)"
proof -
  have "hdr_at m segment_owner = ucast creator" using assms(1,2) by simp
  then have "deed_inv creator \<lparr>rs_mem = m, rs_alive = A, rs_holders = {creator}\<rparr>"
    using assms(1,3) by (simp add: deed_inv_def role_inv_def)
  from deed_life.inv_star [OF assms(4) this] have inv: "72 \<le> length (rs_mem s)"
    "\<And>q. q \<in> rs_holders s \<inter> rs_alive s \<Longrightarrow> hdr_at (rs_mem s) segment_owner = ucast q"
    "creator \<in> rs_alive s \<Longrightarrow> creator \<in> rs_holders s"
    by (auto simp: deed_inv_def role_inv_def)
  have one: "q = p" if "q \<in> rs_holders s \<inter> rs_alive s" for q
    using inv(2) [OF that] inv(2) [OF assms(5)] by simp
  have "load_u64 (rs_mem s) segment_owner = Some (ucast p)" using inv(1) inv(2) [OF assms(5)] by simp
  with one inv(3) show ?thesis by blast
qed

theorem deed_exclusive_witness:
  "load_u64 (set_hdr free_mem segment_owner 7) segment_owner = Some 7"
proof -
  let ?m = "set_hdr free_mem segment_owner 1" and ?v = "still (set_hdr free_mem segment_owner 1)"
  let ?s = "\<lparr>rs_mem = ?m, rs_alive = {7}, rs_holders = {1 :: u32}\<rparr>"
  have len: "72 \<le> length ?m" by (simp add: free_mem_facts)
  have h: "hdr_at ?m segment_owner = 1" by (simp add: free_mem_facts hdr_at_set_hdr)
  have "claim_segment (ucast (7 :: u32)) (\<lambda>q. q \<in> rs_alive ?s) ?v 0 segment_owner =
      Some (True, set_hdr ?m segment_owner 7, Suc (Suc 0))"
    using claim_segment_alone [OF len, of segment_owner 7 "\<lambda>q. q \<in> {7}" 0] h by simp
  from deed_step.won [OF _ _ _ this] len have
    st: "deed_step ?s \<lparr>rs_mem = set_hdr ?m segment_owner 7, rs_alive = {7}, rs_holders = {7, 1}\<rparr>" by simp
  have "load_u64 ?m segment_owner = Some (ucast (1 :: u32))" using len h by simp
  from deed_exclusive [OF len this _ r_into_rtranclp [of deed_step, OF st], of 7]
  have "load_u64 (set_hdr ?m segment_owner 7) segment_owner = Some 7" by simp
  then show ?thesis using len by (simp add: free_mem_facts hdr_at_set_hdr)
qed

subsection \<open>Two creators\<close>

text \<open>
  The library as a process sees it that is suspended between the return of \<open>create\<close> and its next
  access: meanwhile other processes have brought the system into the state \<open>os'\<close>.
\<close>

definition create_then :: "('os, 'h) shmem_api \<Rightarrow> 'os \<Rightarrow> ('os, 'h) shmem_api" where
  "create_then api os' = api\<lparr>sm_create := (\<lambda>name sz os. (fst (sm_create api name sz os), os'))\<rparr>"

lemma create_then_simps [simp]:
  "sm_create (create_then api os') name sz os = (fst (sm_create api name sz os), os')"
  "sm_get (create_then api os') = sm_get api" "sm_put (create_then api os') = sm_put api"
  "sm_open (create_then api os') = sm_open api" "sm_drop (create_then api os') = sm_drop api"
  by (simp_all add: create_then_def)

lemma os_write_one:
  assumes "os_write_all api me alive wr os [d] = Some (wr', os')"
  shows "os_writer_write api me alive wr d os = Some (Inr (), wr', os')"
proof -
  from assms obtain r w1 os1 where "os_writer_write api me alive wr d os = Some (r, w1, os1)"
    by (auto simp: bind_eq_Some_conv)
  with assms show ?thesis by (cases r) simp_all
qed

text \<open>A suspended creator resumes: it initialises the segment, whatever it holds by now, and binds.\<close>

lemma resumed_creator:
  fixes dt :: dtype and n pb :: usize and a :: u64
  assumes "shmem_ok api" "seg_geom pb n (length (sm_get api h os'))"
    and "fst (sm_create api name (required_bytes pb n) os) = Created h"
  defines "m \<equiv> initialized pb n dt a (sm_get api h os')"
  shows "os_writer_new (create_then api os') a alive name (Some pb) (Some n) dt delayed os =
     Some (Inr \<lparr>ow_name = name, ow_dtype = dt, ow_delayed = delayed,
         ow_inner = Some \<lparr>rw_payload_bytes = pb, rw_entry_count = n, rw_current_index = 0, rw_last_entry_seq = 0\<rparr>,
         ow_shmem = Some h\<rparr>,
       sm_put api h (set_hdr m writer_owner a) (sm_put api h m os'))"
proof -
  let ?api = "create_then api os'" and ?os = "sm_put api h m os'"
  have get: "sm_get ?api h ?os = m" by (simp add: get_put [OF assms(1)])
  have "open_or_create ?api a alive name (Some pb) (Some n) dt delayed os = Some (Inr (Some (h, fresh_header pb n dt)), ?os)"
    using assms(2,3) get init_segment_eq [of pb n ?api h os' a dt] read_initialized [OF assms(2), of dt a]
    by (simp add: open_or_create_def create_segment_def seg_geom_check [OF assms(2)] Let_def header_of_def m_def)
  then show ?thesis
    using writer_bind_fresh [OF assms(2) get [unfolded m_def]]
    by (simp add: os_writer_new_def Let_def m_def)
qed

text \<open>A second creator meets a segment without a header, takes it over and writes.\<close>

lemma second_creator:
  fixes dt :: dtype and n pb :: usize and b :: u64
  assumes ok: "shmem_ok api" and op: "sm_open api name os1 = Some h'" and g: "seg_geom pb n (length m)"
    and m: "sm_get api h' os1 = m" "read_header m = Some (Inr None)" and data: "length data = unat pb"
  defines "hb \<equiv> sm_set_owner api True h'"
  obtains wb os2 wb' os3 where
    "os_writer_new api b alive name (Some pb) (Some n) dt delayed os1 = Some (Inr wb, os2)"
    "os_writer_write api b alive wb data os2 = Some (Inr (), wb', os3)" "os_writer_last_entry_seq wb' = 1"
    "ow_shmem wb' = Some hb" "length (sm_get api hb os3) = length m" "hdr_at (sm_get api hb os3) writer_owner = b"
proof -
  let ?w = "\<lparr>rw_payload_bytes = pb, rw_entry_count = n, rw_current_index = 0, rw_last_entry_seq = 0\<rparr>"
  let ?i = "initialized pb n dt b m"
  let ?os = "sm_put api h' ?i os1"
  let ?os2 = "sm_put api hb (set_hdr ?i writer_owner b) ?os"
  let ?wb = "\<lparr>ow_name = name, ow_dtype = dt, ow_delayed = delayed, ow_inner = Some ?w, ow_shmem = Some hb\<rparr>"
  have get: "sm_get api hb ?os = ?i" by (simp add: hb_def get_put [OF ok] set_owner_facts [OF ok])
  have "open_or_create api b alive name (Some pb) (Some n) dt delayed os1 = Some (Inr (Some (hb, fresh_header pb n dt)), ?os)"
    using open_abandoned [OF ok op, of pb n b alive dt delayed] m g by (simp add: hb_def)
  then have new: "os_writer_new api b alive name (Some pb) (Some n) dt delayed os1 = Some (Inr ?wb, ?os2)"
    using writer_bind_fresh [OF g get] by (simp add: os_writer_new_def Let_def)
  have i: "ow_inner ?wb = Some ?w" "ow_shmem ?wb = Some hb" "\<forall>d \<in> set [data]. length d = unat pb"
    "length [data] < 2 ^ 63" using data by simp_all
  have get2: "sm_get api hb ?os2 = set_hdr ?i writer_owner b" by (simp add: get_put [OF ok])
  from ok g get2 i obtain w os3 where
    w: "os_write_all api b alive ?wb ?os2 [data] = Some (?wb\<lparr>ow_inner := Some w\<rparr>, os3)"
      "flowing [data] w (sm_get api hb os3)" "rw_payload_bytes w = pb" "rw_entry_count w = n"
      "\<forall>x. sm_find api x os3 = sm_find api x ?os2" "length (sm_get api hb os3) = length m"
      "\<forall>off. hdr_off off \<longrightarrow> off \<notin> {OFF_WRITE_INDEX, OFF_LAST_ENTRY_SEQ} \<longrightarrow>
         hdr_at (sm_get api hb os3) off = hdr_at (sm_get api hb ?os2) off"
    by (rule fresh_writer_writes [where alive = alive])
  have "rw_last_entry_seq w = 1" using w(2) by (simp add: flowing_def chan_inv_def word_unat_eq_iff)
  moreover have "hdr_at (sm_get api hb os3) writer_owner = b"
    using w(7) seg_geom_72 [OF g] by (simp add: get_put [OF ok] hdr_at_set_hdr initialized_views(1) [OF g])
  ultimately show ?thesis
    using that [OF new os_write_one [OF w(1)]] w(6) by (simp add: os_writer_last_entry_seq_def)
qed

text \<open>
  C39: Two processes that create one channel at the same time both become its owner and its writer.
  Process \<open>a\<close> has created the segment and not yet written its header. Process \<open>b\<close>, which declares the
  same sizes, finds the name taken and no magic, takes the segment for abandoned although its creator
  is alive, initialises it, becomes owner and writer, and commits an entry. Then \<open>a\<close> continues: it
  initialises the segment again, which erases the committed entry and the writer role of \<open>b\<close>, and
  becomes owner and writer too. Neither call reports an error.
\<close>
theorem creation_race:
  assumes "shmem_ok api" "sm_find api name os = None" "seg_geom pb n (unat (required_bytes pb n))"
    and "sm_create api name (required_bytes pb n) os = (Created h, os1)" "sm_open api name os1 = Some h'"
    and "length data = unat pb"
  shows "\<exists>wb os2 wb' os3 hb wa os4.
     os_writer_new api b alive name (Some pb) (Some n) dt delayed os1 = Some (Inr wb, os2) \<and>
     os_writer_write api b alive wb data os2 = Some (Inr (), wb', os3) \<and> os_writer_last_entry_seq wb' = 1 \<and>
     os_writer_new (create_then api os3) a alive name (Some pb) (Some n) dt delayed os = Some (Inr wa, os4) \<and>
     ow_shmem wb' = Some hb \<and> sm_is_owner api hb \<and> ow_shmem wa = Some h \<and> sm_is_owner api h \<and>
     sm_seg api hb = sm_seg api h \<and> hdr_at (sm_get api hb os3) writer_owner = b \<and>
     hdr_at (sm_get api hb os4) writer_owner = a \<and> (\<forall>i < unat n. seq_at pb (sm_get api hb os4) i = 0)"
proof -
  let ?m = "replicate (unat (required_bytes pb n)) 0 :: mem" and ?hb = "sm_set_owner api True h'"
  have g: "seg_geom pb n (length ?m)" using assms(3) by simp
  from assms(1,2,4) have cr: "sm_is_owner api h" "sm_find api name os1 = Some (sm_seg api h)" "sm_get api h os1 = ?m"
    by (auto elim!: create_free)
  have seg: "sm_seg api h' = sm_seg api h" using open_facts(1) [OF assms(1,5)] cr(2) by simp
  have m': "sm_get api h' os1 = ?m" using get_same_seg [OF assms(1) seg] cr(3) by simp
  note so = set_owner_facts [OF assms(1)]
  from assms(1,5) g m' blank_header [OF seg_geom_72 [OF assms(3)]] assms(6) obtain wb os2 wb' os3 where
    b: "os_writer_new api b alive name (Some pb) (Some n) dt delayed os1 = Some (Inr wb, os2)"
      "os_writer_write api b alive wb data os2 = Some (Inr (), wb', os3)" "os_writer_last_entry_seq wb' = 1"
      "ow_shmem wb' = Some ?hb" "length (sm_get api ?hb os3) = length ?m" "hdr_at (sm_get api ?hb os3) writer_owner = b"
    by (rule second_creator [where b = b and alive = alive and dt = dt and delayed = delayed])
  have g3: "seg_geom pb n (length (sm_get api h os3))"
    using g b(5) get_same_seg [OF assms(1), of ?hb h os3] seg by (simp add: so)
  let ?m4 = "initialized pb n dt a (sm_get api h os3)"
  let ?os4 = "sm_put api h (set_hdr ?m4 writer_owner a) (sm_put api h ?m4 os3)"
  have "sm_get api ?hb ?os4 = set_hdr ?m4 writer_owner a" by (simp add: get_put [OF assms(1)] so seg)
  then have r: "hdr_at (sm_get api ?hb ?os4) writer_owner = a" "\<forall>i < unat n. seq_at pb (sm_get api ?hb ?os4) i = 0"
    using seg_geom_72 [OF g3] g3 by (auto simp: hdr_at_set_hdr initialized_views [OF g3])
  have "fst (sm_create api name (required_bytes pb n) os) = Created h" using assms(4) by simp
  from resumed_creator [OF assms(1) g3 this, of a alive dt delayed] obtain wa where
    "os_writer_new (create_then api os3) a alive name (Some pb) (Some n) dt delayed os = Some (Inr wa, ?os4)"
    "ow_shmem wa = Some h" by simp
  moreover have "sm_is_owner api ?hb" "sm_seg api ?hb = sm_seg api h" by (simp_all add: so seg)
  ultimately show ?thesis using b(1-4,6) r cr(1) by blast
qed

theorem creation_race_witness:
  "\<exists>wb os2 wb' os3 wa os4.
     os_writer_new sim_api 8 (\<lambda>p. True) ''c'' (Some 8) (Some 2) U8 False
       (snd (sm_create sim_api ''c'' (required_bytes 8 2) empty_os)) = Some (Inr wb, os2) \<and>
     os_writer_write sim_api 8 (\<lambda>p. True) wb (replicate 8 5) os2 = Some (Inr (), wb', os3) \<and>
     os_writer_new (create_then sim_api os3) 7 (\<lambda>p. True) ''c'' (Some 8) (Some 2) U8 False empty_os = Some (Inr wa, os4)"
proof -
  let ?h = "\<lparr>ss_seg = 0, ss_name = ''c'', ss_owner = True\<rparr>" and ?h' = "\<lparr>ss_seg = 0, ss_name = ''c'', ss_owner = False\<rparr>"
  let ?os1 = "snd (sm_create sim_api ''c'' (required_bytes 8 2) empty_os)"
  have g: "seg_geom 8 2 (unat (required_bytes 8 2))" by (simp add: seg_geom_def required_bytes_def entry_bytes_def)
  have s: "sm_find sim_api ''c'' empty_os = None"
    "sm_create sim_api ''c'' (required_bytes 8 2) empty_os = (Created ?h, ?os1)" "sm_open sim_api ''c'' ?os1 = Some ?h'"
    by (simp_all add: sim_api_def empty_os_def)
  have "length (replicate 8 5 :: byte list) = unat (8 :: usize)" by simp
  from creation_race [OF sim_ok s(1) g s(2,3) this, of 8 "\<lambda>p. True" U8 False 7] show ?thesis by blast
qed

subsection \<open>The owner of a name that was removed\<close>

text \<open>
  C37: A process that owns a segment removes the name of its successor. A process \<open>a\<close> owns the segment of
  a channel. Someone removes the name with \<open>unlink\<close>, and \<open>b\<close> creates the channel anew, becoming its
  owner and writer. When \<open>a\<close> then drops its writer in good order, its mapping still counts as an owner
  of the name, and so the name of \<open>b\<close>'s channel is removed while \<open>b\<close> is alive and holds the writer role.
\<close>
theorem stale_owner_unlinks_successor:
  assumes "shmem_ok api" "ow_shmem wa = Some ha" "sm_is_owner api ha" "sm_name api ha = name"
    and "72 \<le> length (sm_get api ha os)" "sm_open api name os = Some h"
    and "seg_geom pb n (unat (required_bytes pb n))"
    and "\<And>os e. fst (sm_create api name (required_bytes pb n) os) \<noteq> CreateFailed e" "a \<noteq> b"
  shows "\<exists>os1 wb os2 hb os3. unlink api name os = (Inr (), os1) \<and>
     os_writer_new api b alive name (Some pb) (Some n) dt delayed os1 = Some (Inr wb, os2) \<and>
     ow_shmem wb = Some hb \<and> sm_is_owner api hb \<and> sm_find api name os2 = Some (sm_seg api hb) \<and>
     os_writer_drop api a wa os2 = Some os3 \<and> sm_find api name os3 = None \<and>
     hdr_at (sm_get api hb os3) writer_owner = b"
proof -
  note ok = assms(1)
  let ?os1 = "sm_drop api (sm_set_owner api True h) os" and ?m = "replicate (unat (required_bytes pb n)) 0 :: mem"
  let ?i = "initialized pb n dt b ?m"
  have un: "unlink api name os = (Inr (), ?os1)" using assms(6) by (simp add: unlink_def try_open_def)
  have free: "sm_find api name ?os1 = None"
    using open_facts(2) [OF ok assms(6)] by (simp add: find_drop [OF ok] set_owner_facts [OF ok])
  have g: "seg_geom pb n (length ?m)" using assms(7) by simp
  have 72: "72 \<le> length ?i" using seg_geom_72 [OF g] by (simp add: initialized_views(1) [OF g])
  from ok free assms(7) show ?thesis
  proof (cases rule: open_free [where me = b and alive = alive and dt = dt and delayed = delayed])
    case (failed msg)
    with assms(8) show ?thesis by blast
  next
    case (made hb os0)
    let ?w = "\<lparr>rw_payload_bytes = pb, rw_entry_count = n, rw_current_index = 0, rw_last_entry_seq = 0\<rparr>"
    let ?wb = "\<lparr>ow_name = name, ow_dtype = dt, ow_delayed = delayed, ow_inner = Some ?w, ow_shmem = Some hb\<rparr>"
    let ?mb = "set_hdr ?i writer_owner b"
    let ?os2 = "sm_put api hb ?mb (sm_put api hb ?i os0)"
    let ?ma = "sm_get api ha ?os2"
    let ?m' = "if hdr_at ?ma writer_owner = a then set_hdr ?ma writer_owner 0 else ?ma"
    let ?os3 = "sm_drop api ha (sm_put api ha ?m' ?os2)"
    have new: "os_writer_new api b alive name (Some pb) (Some n) dt delayed ?os1 = Some (Inr ?wb, ?os2)"
      using made(1) writer_bind_fresh [OF g, of api hb "sm_put api hb ?i os0"]
      by (simp add: os_writer_new_def Let_def get_put [OF ok])
    have "72 \<le> length ?ma"
      using assms(5) 72 made(6) [of ha] by (simp add: get_put [OF ok] get_drop [OF ok])
    then have "os_writer_drop api a wa ?os2 = Some ?os3"
      using assms(2) by (simp add: os_writer_drop_def release_role_def)
    moreover have "sm_find api name ?os3 = None" using assms(3,4) by (simp add: find_drop [OF ok])
    moreover have "hdr_at (sm_get api hb ?os3) writer_owner = b"
      using 72 assms(9) by (simp add: get_drop [OF ok] get_put [OF ok] hdr_at_set_hdr)
    ultimately show ?thesis
      using un new made(3,4) by (intro exI conjI) (auto simp: find_put [OF ok])
  qed
qed

theorem stale_owner_unlinks_successor_witness:
  "\<exists>os1 wb os2 os3. unlink sim_api ''c'' (chan_os 5) = (Inr (), os1) \<and>
     os_writer_new sim_api 9 (\<lambda>p. True) ''c'' (Some 8) (Some 2) F64 False os1 = Some (Inr wb, os2) \<and>
     sm_find sim_api ''c'' os2 \<noteq> None \<and>
     os_writer_drop sim_api 5 \<lparr>ow_name = ''c'', ow_dtype = F64, ow_delayed = False, ow_inner = None,
       ow_shmem = Some (chan_shmem\<lparr>ss_owner := True\<rparr>)\<rparr> os2 = Some os3 \<and> sm_find sim_api ''c'' os3 = None"
proof -
  let ?ha = "chan_shmem\<lparr>ss_owner := True\<rparr>"
  let ?wa = "\<lparr>ow_name = ''c'', ow_dtype = F64, ow_delayed = False, ow_inner = None, ow_shmem = Some ?ha\<rparr>"
  have a: "ow_shmem ?wa = Some ?ha" "sm_is_owner sim_api ?ha" "sm_name sim_api ?ha = ''c''"
    by (simp_all add: sim_api_def chan_shmem_def)
  have "sm_get sim_api ?ha (chan_os 5) = sm_get sim_api chan_shmem (chan_os 5)" by (simp add: sim_api_def)
  then have len: "72 \<le> length (sm_get sim_api ?ha (chan_os 5))"
    using chan_geom by (simp add: chan_os_facts initialized_views(1) [OF chan_geom])
  have g: "seg_geom 8 2 (unat (required_bytes 8 2))"
    by (simp add: seg_geom_def required_bytes_def entry_bytes_def)
  have c: "fst (sm_create sim_api ''c'' (required_bytes 8 2) os) \<noteq> CreateFailed e" for os e
    by (simp add: sim_api_def split: option.split)
  from stale_owner_unlinks_successor [OF sim_ok a len chan_os_facts(1) g c, of 5 9 "\<lambda>p. True" F64 False]
  show ?thesis by auto
qed

subsection \<open>Slots of a dead reader\<close>

text \<open>A ring of which every slot is held.\<close>

definition all_held :: "usize \<Rightarrow> usize \<Rightarrow> mem \<Rightarrow> bool" where
  "all_held pb n m \<longleftrightarrow> seg_geom pb n (length m) \<and> seqs_unique (ring_of pb n m) \<and>
     (\<forall>i < unat n. held (seq_at pb m i))"

lemma all_held_seqs: "all_held pb n m \<Longrightarrow> v \<in> set (rg_seqs (ring_of pb n m)) \<Longrightarrow> held v"
  by (auto simp: all_held_def ring_of_def)

lemma all_held_set_hdr:
  assumes "all_held pb n m" "hdr_off off" "off \<noteq> OFF_WRITE_INDEX" "off \<noteq> OFF_LAST_ENTRY_SEQ"
  shows "all_held pb n (set_hdr m off v)"
  using assms seg_geom_72 [of pb n "length m"] ring_of_set_hdr_other [of pb n m off v]
  by (auto simp: all_held_def)

lemma all_held_write:
  assumes "shmem_ok api" "ow_inner wr = Some w" "ow_shmem wr = Some h" "rw_wf w (sm_get api h os)"
    and "all_held (rw_payload_bytes w) (rw_entry_count w) (sm_get api h os)" "length data = unat (rw_payload_bytes w)"
  shows "os_writer_write api me alive wr data os = Some (Inl (busy_error w), wr, os)"
proof -
  let ?m = "sm_get api h os"
  have "rg_seqs (rw_ring w ?m) \<noteq> []" using assms(4) by (simp add: rw_ring_def rw_wf_def seg_geom_def flip: length_greater_0_conv)
  with all_held_seqs [OF assms(5)] have "ring_free_slot (unat (rw_current_index w)) (rw_ring w ?m) = None"
    by (simp add: ring_free_slot_None rw_ring_def)
  with raw_writer_write_eq [OF assms(4,6)] have "raw_writer_write w ?m data = Some (Inl (busy_error w), w, ?m)" by simp
  from connected_write [OF assms(2,3) this, of me alive] show ?thesis
    using assms(2) by (simp add: put_get [OF assms(1)])
qed

lemma all_held_read:
  assumes "shmem_ok api" "or_inner rd = Some r" "or_shmem rd = Some h" "or_zero_copy rd" "rr_wf r (sm_get api h os)"
    and "all_held (rr_payload_bytes r) (rr_entry_count r) (sm_get api h os)" "length dst = unat (rr_payload_bytes r)"
  shows "os_reader_try_acquire api me alive rd fr os = Some (Inr None, rd, os)"
    "os_reader_read_into api me alive rd dst fr os = Some (Inr None, rd, dst, os)"
proof -
  let ?m = "sm_get api h os"
  have "ring_next wm (rr_ring r ?m) = None" for wm
    using all_held_seqs [OF assms(6)] by (force simp: ring_next_None rr_ring_def)
  then have none: "read_next r ?m fr = None" by (simp add: read_next_def Let_def)
  have u: "seqs_unique (rr_ring r ?m)" using assms(6) by (simp add: all_held_def rr_ring_def)
  have rd: "rd\<lparr>or_inner := Some r\<rparr> = rd" using assms(2) by simp
  from try_acquire_still [OF assms(5) u, of 0 fr] none obtain t where
    "raw_reader_try_acquire r (still ?m) 0 fr = Some (Inr None, r, ?m, t)" by auto
  with assms(2-4) rd show "os_reader_try_acquire api me alive rd fr os = Some (Inr None, rd, os)"
    by (simp add: os_reader_try_acquire_def conn_defs put_get [OF assms(1)])
  from read_into_still [OF assms(5) u assms(7), of 0 fr] none obtain t where
    "raw_reader_read_into r (still ?m) 0 dst fr = Some (Inr None, r, dst, t)" by auto
  from connected_read [OF assms(2,3) this] rd show "os_reader_read_into api me alive rd dst fr os = Some (Inr None, rd, dst, os)"
    by simp
qed

text \<open>Participants that attach to such a channel, once the roles' holders are gone or dead.\<close>

lemma raw_reader_attach_geom:
  "rr_payload_bytes (raw_reader_attach hx) = hdr_payload_bytes hx" "rr_entry_count (raw_reader_attach hx) = hdr_entry_count hx"
  by (simp_all add: raw_reader_attach_def)

lemma read_header_writer_owner:
  assumes "72 \<le> length m"
  shows "read_header (set_hdr m writer_owner v) = read_header m"
  using assms by (simp add: read_header_def hdr_at_set_hdr)

lemma attach_pair:
  assumes "sm_open api name os = Some h" "read_header (sm_get api h os) = Some (Inr (Some hx))"
    and "check_dtype hx dt = Inr ()" "all_held (hdr_payload_bytes hx) (hdr_entry_count hx) (sm_get api h os)"
  shows "open_or_create api me alive name None None dt delayed os = Some (Inr (Some (h, hx)), os)"
  using assms by (auto simp: open_defs all_held_def seg_geom_def)

lemma attach_writer:
  assumes "sm_open api name os = Some h" "read_header (sm_get api h os) = Some (Inr (Some hx))"
    and "check_dtype hx dt = Inr ()" "all_held (hdr_payload_bytes hx) (hdr_entry_count hx) (sm_get api h os)"
    and "\<not> alive (ucast (hdr_at (sm_get api h os) writer_owner))"
  obtains wr w where
    "os_writer_new api me alive name None None dt delayed os =
       Some (Inr wr, sm_put api h (set_hdr (sm_get api h os) writer_owner me) os)"
    "ow_inner wr = Some w" "ow_shmem wr = Some h" "rw_payload_bytes w = hdr_payload_bytes hx"
    "rw_entry_count w = hdr_entry_count hx" "rw_wf w (set_hdr (sm_get api h os) writer_owner me)"
proof -
  have 72: "72 \<le> length (sm_get api h os)" using assms(2) by (rule read_header_72)
  then have "seg_geom (hdr_payload_bytes hx) (hdr_entry_count hx) (length (set_hdr (sm_get api h os) writer_owner me))"
    using assms(4) by (simp add: all_held_def)
  from attach_typed [OF this] that show ?thesis
    using attach_pair [OF assms(1-4), of me alive delayed] writer_bind_eq [OF 72, of me alive] assms(5)
    by (auto simp: os_writer_new_def Let_def simp del: cell_addrs)
qed

lemma attach_zc_reader:
  fixes me :: u64
  assumes "shmem_ok api" "sm_open api name os = Some h" "read_header (sm_get api h os) = Some (Inr (Some hx))"
    and "check_dtype hx dt = Inr ()" "all_held (hdr_payload_bytes hx) (hdr_entry_count hx) (sm_get api h os)"
    and "\<not> alive (ucast (hdr_at (sm_get api h os) zc_reader_owner))"
  defines "m \<equiv> set_hdr (sm_get api h os) zc_reader_owner me"
  obtains rd where
    "os_reader_new_zero_copy api me alive name None None dt delayed os = Some (Inr rd, sm_put api h m os)"
    "or_inner rd = Some (raw_reader_attach hx)" "or_shmem rd = Some h" "or_zero_copy rd" "rr_wf (raw_reader_attach hx) m"
proof -
  have 72: "72 \<le> length (sm_get api h os)" using assms(3) by (rule read_header_72)
  then have "rr_wf (raw_reader_attach hx) m"
    using assms(5) by (simp add: all_held_def raw_reader_attach_def rr_wf_def seg_geom_def m_def)
  with that show ?thesis
    using attach_pair [OF assms(2-5), of me alive delayed] reader_bind_eq [OF assms(1) 72, of me alive] assms(6)
    by (simp add: os_reader_new_zero_copy_def os_reader_open_def Let_def m_def del: cell_addrs)
qed

text \<open>
  C40: Slots held by a zero-copy reader that died are never given back. Let every slot of a channel be
  held and the processes in the role cells be dead. A new writer attaches, and so does a new zero-copy
  reader, which adopts the role; but each write fails with \<open>Busy\<close>, each acquisition and each read
  returns nothing, and nothing changes. Since every call leaves the system as it was, retrying does
  not help: the channel is unusable until its name is removed.
\<close>
theorem dead_reader_wedges:
  assumes ok: "shmem_ok api" and op: "sm_open api name os = Some h"
    and again: "\<And>os'. sm_find api name os' = sm_find api name os \<Longrightarrow> sm_open api name os' \<noteq> None"
    and rh: "read_header (sm_get api h os) = Some (Inr (Some hx))" and dt: "check_dtype hx dt = Inr ()"
    and held: "all_held (hdr_payload_bytes hx) (hdr_entry_count hx) (sm_get api h os)"
    and dead: "\<not> alive (ucast (hdr_at (sm_get api h os) writer_owner))"
      "\<not> alive (ucast (hdr_at (sm_get api h os) zc_reader_owner))"
    and len: "length data = unat (hdr_payload_bytes hx)"
  shows "\<exists>wr w os1 rd os2.
     os_writer_new api me alive name None None dt delayed os = Some (Inr wr, os1) \<and> ow_inner wr = Some w \<and>
     os_reader_new_zero_copy api me' alive name None None dt delayed os1 = Some (Inr rd, os2) \<and>
     hdr_at (sm_get api h os2) zc_reader_owner = me' \<and>
     os_writer_write api me alive wr data os2 = Some (Inl (busy_error w), wr, os2) \<and>
     os_reader_try_acquire api me' alive rd fr os2 = Some (Inr None, rd, os2) \<and>
     os_reader_read_into api me' alive rd data fr os2 = Some (Inr None, rd, data, os2)"
proof -
  let ?m = "sm_get api h os" and ?pb = "hdr_payload_bytes hx" and ?n = "hdr_entry_count hx"
  let ?m1 = "set_hdr ?m writer_owner me"
  let ?m2 = "set_hdr ?m1 zc_reader_owner me'" and ?os1 = "sm_put api h ?m1 os"
  have 72: "72 \<le> length ?m" using rh by (rule read_header_72)
  have h1: "all_held ?pb ?n ?m1" by (rule all_held_set_hdr [OF held]) simp_all
  have h2: "all_held ?pb ?n ?m2" by (rule all_held_set_hdr [OF h1]) simp_all
  from op rh dt held dead(1) obtain wr w where
    w: "os_writer_new api me alive name None None dt delayed os = Some (Inr wr, ?os1)" "ow_inner wr = Some w"
      "ow_shmem wr = Some h" "rw_payload_bytes w = ?pb" "rw_entry_count w = ?n" "rw_wf w ?m1" by (rule attach_writer)
  from again [of ?os1] obtain h' where op': "sm_open api name ?os1 = Some h'" by (auto simp: find_put [OF ok])
  have seg: "sm_seg api h' = sm_seg api h"
    using open_facts(1) [OF ok op] open_facts(1) [OF ok op'] by (simp add: find_put [OF ok])
  have get: "sm_get api h' ?os1 = ?m1" by (simp add: get_put [OF ok] seg)
  have rh': "read_header (sm_get api h' ?os1) = Some (Inr (Some hx))"
    using rh unfolding get read_header_writer_owner [OF 72] .
  have z: "\<not> alive (ucast (hdr_at (sm_get api h' ?os1) zc_reader_owner))" 
    unfolding get using dead(2) 72 by (simp add: hdr_at_set_hdr)
  have "all_held ?pb ?n (sm_get api h' ?os1)" unfolding get by (rule h1)
  with ok op' rh' dt obtain rd where
    "os_reader_new_zero_copy api me' alive name None None dt delayed ?os1 =
       Some (Inr rd, sm_put api h' (set_hdr (sm_get api h' ?os1) zc_reader_owner me') ?os1)"
    "or_inner rd = Some (raw_reader_attach hx)" "or_shmem rd = Some h'" "or_zero_copy rd"
    "rr_wf (raw_reader_attach hx) (set_hdr (sm_get api h' ?os1) zc_reader_owner me')"
    using z by (rule attach_zc_reader)
  note rd = this [unfolded get]
  let ?os2 = "sm_put api h' ?m2 ?os1"
  have get2: "sm_get api h ?os2 = ?m2" "sm_get api h' ?os2 = ?m2" by (simp_all add: get_put [OF ok] seg)
  have hh: "all_held ?pb ?n (sm_get api h ?os2)" "all_held ?pb ?n (sm_get api h' ?os2)" unfolding get2 by (rule h2)+
  have rr: "rr_wf (raw_reader_attach hx) (sm_get api h' ?os2)" unfolding get2 by (rule rd(5))
  have "rw_wf w (sm_get api h ?os2)" unfolding get2 using w(6) 72 by (simp add: rw_wf_def)
  from all_held_write [OF ok w(2,3) this, unfolded w(4,5), OF hh(1) len]
  have "os_writer_write api me alive wr data ?os2 = Some (Inl (busy_error w), wr, ?os2)" .
  moreover have "os_reader_try_acquire api me' alive rd fr ?os2 = Some (Inr None, rd, ?os2)"
    "os_reader_read_into api me' alive rd data fr ?os2 = Some (Inr None, rd, data, ?os2)"
    using all_held_read [OF ok rd(2-4) rr, of data me' alive fr] hh(2) len by (simp_all only: raw_reader_attach_geom)
  moreover have "hdr_at (sm_get api h ?os2) zc_reader_owner = me'" 
    unfolding get2 using 72 by (simp add: hdr_at_set_hdr)
  ultimately show ?thesis using w(1,2) rd(1) by blast
qed

text \<open>A channel of one slot, committed under number 1 and held, whose participants are gone.\<close>

definition held_mem :: mem where
  "held_mem = set_seq 8 (initialized 8 1 U8 1 (replicate 88 0)) 0 (- 1)"

definition held_os :: sim_os where
  "held_os = \<lparr>so_names = [''c'' \<mapsto> 0], so_segs = (\<lambda>_. held_mem), so_next = 1\<rparr>"

lemma held_mem_facts:
  "all_held 8 1 held_mem" "read_header held_mem = Some (Inr (Some (fresh_header 8 1 U8)))"
proof -
  let ?m = "initialized 8 1 U8 1 (replicate 88 0)"
  have g: "seg_geom 8 1 (length (replicate 88 (0 :: byte)))" by (simp add: seg_geom_def)
  have len: "length ?m = 88" by (simp add: initialized_views(1) [OF g])
  then have g': "seg_geom 8 1 (length ?m)" by (simp add: seg_geom_def)
  note v = initialized_views [OF g]
  have "hdr_at held_mem off = hdr_at ?m off" if "hdr_off off" for off
    using that g' by (simp add: held_mem_def)
  moreover have l: "length held_mem = 88" using length_set_seq [OF g'] len by (simp add: held_mem_def)
  ultimately show "read_header held_mem = Some (Inr (Some (fresh_header 8 1 U8)))"
    using v by (simp add: read_header_valid fresh_header_def)
  have "rg_seqs (ring_of 8 1 held_mem) = [- 1]"
    using ring_of_set_seq [OF g', of 0 "- 1"] by (simp add: held_mem_def ring_of_def)
  moreover have "seq_at 8 held_mem 0 = - 1" using calculation by (simp add: ring_of_def)
  ultimately show "all_held 8 1 held_mem"
    using l by (simp add: all_held_def seqs_unique_def seg_geom_def)
qed

theorem dead_reader_wedges_witness:
  "\<exists>wr w os1 rd os2. os_writer_new sim_api 7 (\<lambda>p. False) ''c'' None None U8 False held_os = Some (Inr wr, os1) \<and>
     os_reader_new_zero_copy sim_api 8 (\<lambda>p. False) ''c'' None None U8 False os1 = Some (Inr rd, os2) \<and>
     os_writer_write sim_api 7 (\<lambda>p. False) wr (replicate 8 5) os2 = Some (Inl (busy_error w), wr, os2)"
proof -
  have o: "sm_open sim_api ''c'' held_os = Some chan_shmem" "sm_get sim_api chan_shmem held_os = held_mem"
    by (simp_all add: sim_api_def held_os_def chan_shmem_def)
  have again: "sm_open sim_api ''c'' os' \<noteq> None" if "sm_find sim_api ''c'' os' = sm_find sim_api ''c'' held_os" for os'
    using that by (simp add: sim_api_def held_os_def)
  have f: "hdr_payload_bytes (fresh_header 8 1 U8) = 8" "hdr_entry_count (fresh_header 8 1 U8) = 1"
    "check_dtype (fresh_header 8 1 U8) U8 = Inr ()" by (simp_all add: fresh_header_def check_dtype_def)
  from dead_reader_wedges [OF sim_ok o(1) again held_mem_facts(2) [folded o(2)] f(3),
      of "\<lambda>p. False" "replicate 8 5" 7 False 8 None] held_mem_facts(1)
  show ?thesis unfolding f o(2) by auto
qed

end
