(* ===== verification/Zc_Wrappers.thy ===== *)
theory Zc_Wrappers
  imports Zc_Sessions
begin

text \<open>
  The typed wrappers \<open>Writer<T>\<close> and \<open>Reader<T>\<close> (\<open>zerochannel/src/lib.rs\<close>): sizes in elements, and
  the element type declared to the channel. The type parameter is an argument; the wrapper itself
  is the endpoint it wraps. Methods that only forward keep the endpoint's definition.
\<close>

definition saturating_mul :: "usize \<Rightarrow> usize \<Rightarrow> usize" where
  "saturating_mul a b = (if unat a * unat b < 2 ^ 64 then a * b else - 1)"

subsection \<open>The writer\<close>

definition writer_new ::
    "('os, 'h) shmem_api \<Rightarrow> u64 \<Rightarrow> (u32 \<Rightarrow> bool) \<Rightarrow> dtype \<Rightarrow> string \<Rightarrow> usize option \<Rightarrow> usize option \<Rightarrow> bool \<Rightarrow>
     'os \<Rightarrow> (('h os_writer) zc_result \<times> 'os) option" where
  "writer_new api me alive d name entry_length entry_count delayed_connect os =
     (let payload_bytes = map_option (\<lambda>n. saturating_mul n (size_of d)) entry_length in
      os_writer_new api me alive name payload_bytes entry_count d delayed_connect os)"

definition writer_entry_length :: "dtype \<Rightarrow> 'h os_writer \<Rightarrow> usize" where
  "writer_entry_length d raw = os_writer_payload_bytes raw div size_of d"

definition writer_last_entry_seq :: "'h os_writer \<Rightarrow> u64" where
  "writer_last_entry_seq raw = os_writer_last_entry_seq raw"

definition writer_write ::
    "('os, 'h) shmem_api \<Rightarrow> u64 \<Rightarrow> (u32 \<Rightarrow> bool) \<Rightarrow> dtype \<Rightarrow> 'h os_writer \<Rightarrow> u64 list \<Rightarrow> 'os \<Rightarrow>
     (unit zc_result \<times> 'h os_writer \<times> 'os) option" where
  "writer_write api me alive d raw data os = os_writer_write api me alive raw (slice_bytes d data) os"

definition writer_try_acquire where
  "writer_try_acquire api me alive raw os = os_writer_try_acquire api me alive raw os"

definition writer_commit where
  "writer_commit api raw handle os = os_writer_commit api raw handle os"

subsection \<open>The reader\<close>

definition reader_new ::
    "('os, 'h) shmem_api \<Rightarrow> u64 \<Rightarrow> (u32 \<Rightarrow> bool) \<Rightarrow> dtype \<Rightarrow> string \<Rightarrow> usize option \<Rightarrow> usize option \<Rightarrow> bool \<Rightarrow>
     'os \<Rightarrow> (('h os_reader) zc_result \<times> 'os) option" where
  "reader_new api me alive d name entry_length entry_count delayed_connect os =
     (let payload_bytes = map_option (\<lambda>n. saturating_mul n (size_of d)) entry_length in
      os_reader_new api me alive name payload_bytes entry_count d delayed_connect os)"

definition reader_new_zero_copy ::
    "('os, 'h) shmem_api \<Rightarrow> u64 \<Rightarrow> (u32 \<Rightarrow> bool) \<Rightarrow> dtype \<Rightarrow> string \<Rightarrow> usize option \<Rightarrow> usize option \<Rightarrow> bool \<Rightarrow>
     'os \<Rightarrow> (('h os_reader) zc_result \<times> 'os) option" where
  "reader_new_zero_copy api me alive d name entry_length entry_count delayed_connect os =
     (let payload_bytes = map_option (\<lambda>n. saturating_mul n (size_of d)) entry_length in
      os_reader_new_zero_copy api me alive name payload_bytes entry_count d delayed_connect os)"

definition reader_entry_length :: "dtype \<Rightarrow> 'h os_reader \<Rightarrow> usize" where
  "reader_entry_length d raw = os_reader_payload_bytes raw div size_of d"

definition reader_last_entry_seq :: "'h os_reader \<Rightarrow> u64" where
  "reader_last_entry_seq raw = os_reader_last_entry_seq raw"

definition reader_writer_entry_seq where
  "reader_writer_entry_seq api raw os = os_reader_writer_entry_seq api raw os"

definition reader_read where
  "reader_read api me alive d raw from_entry_seq os = os_reader_read_as api me alive d raw from_entry_seq os"

definition reader_read_into where
  "reader_read_into api me alive d raw dst from_entry_seq os =
     os_reader_read_into_as api me alive d raw dst from_entry_seq os"

definition reader_try_acquire where
  "reader_try_acquire api me alive raw from_entry_seq os =
     os_reader_try_acquire api me alive raw from_entry_seq os"

definition reader_release where
  "reader_release api raw handle os = os_reader_release api raw handle os"

subsection \<open>Oversized entries\<close>

lemma saturating_mul_cases:
  "unat a * unat b < 2 ^ 64 \<Longrightarrow> unat (saturating_mul a b) = unat a * unat b"
  "\<not> unat a * unat b < 2 ^ 64 \<Longrightarrow> saturating_mul a b = - 1"
  by (simp_all add: saturating_mul_def unat_mult_no_wrap)

lemma check_geometry_saturated: "\<exists>msg. check_geometry (- 1) n = Inl (InvalidArgument msg)"
  by (simp add: check_geometry_def is_multiple_of_def SLOT_ALIGN_def)

lemma open_oversized:
  "\<exists>msg. open_or_create api me alive name (Some (- 1)) (Some n) dt delayed os = Some (Inl (InvalidArgument msg), os)"
  using check_geometry_saturated [of n] by (auto simp: open_or_create_def)

text \<open>
  An entry length whose size in bytes exceeds the address space is refused, not wrapped: for
  all three typed constructors, whenever the number of elements times the element size does not fit
  64 bits, the result is an invalid-argument error and nothing is created, opened or changed.
\<close>
theorem oversized_entry_refused:
  assumes "2 ^ 64 \<le> unat len * unat (size_of d)"
  shows "(\<exists>msg. writer_new api me alive d name (Some len) (Some n) delayed os = Some (Inl (InvalidArgument msg), os)) \<and>
     (\<exists>msg. reader_new api me alive d name (Some len) (Some n) delayed os = Some (Inl (InvalidArgument msg), os)) \<and>
     (\<exists>msg. reader_new_zero_copy api me alive d name (Some len) (Some n) delayed os = Some (Inl (InvalidArgument msg), os))"
proof -
  have "saturating_mul len (size_of d) = - 1" using assms by (intro saturating_mul_cases(2)) simp
  then show ?thesis
    using open_oversized [of api me alive name n d delayed os]
    by (auto simp: writer_new_def reader_new_def reader_new_zero_copy_def os_writer_new_def os_reader_new_def
        os_reader_new_zero_copy_def os_reader_open_def Let_def)
qed

theorem oversized_entry_refused_witness:
  "\<exists>msg. writer_new sim_api 7 (\<lambda>p. True) F64 ''c'' (Some (2 ^ 61)) (Some 2) False empty_os =
     Some (Inl (InvalidArgument msg), empty_os)"
  using oversized_entry_refused [of "2 ^ 61" F64 sim_api 7 "\<lambda>p. True" "''c''" 2 False empty_os] by simp

subsection \<open>From a typed writer to a typed reader\<close>

text \<open>After a write the new entry is the only one above the writer's previous number.\<close>

lemma ring_next_written:
  assumes inv: "ring_inv log g" and i: "i < length (rg_seqs g)" and len: "Suc (length log) < 2 ^ 63"
  defines "s \<equiv> word_of_nat (Suc (length log))"
  shows "ring_next (word_of_nat (length log)) (ring_write i x s g) = Some (i, s)"
proof -
  let ?g = "ring_write i x s g"
  have us: "unat s = Suc (length log)" "unat (word_of_nat (length log) :: u64) = length log"
    using len by (simp_all add: s_def unat_of_nat_u64 del: of_nat_Suc)
  have old: "unat (unsigned_abs (rg_seqs g ! j)) \<le> length log" if "j < length (rg_seqs g)" for j
    using inv that by (cases "rg_seqs g ! j = 0") (auto simp: ring_inv_def)
  have gj: "rg_seqs ?g ! j = (if j = i then s else rg_seqs g ! j)" if "j < length (rg_seqs g)" for j
    using that by (simp add: ring_write_seqs)
  have above: "j = i" if "j < length (rg_seqs g)" "committed (rg_seqs ?g ! j)" "length log < unat (rg_seqs ?g ! j)" for j
    using that old [of j] gj [of j] by (auto split: if_splits)
  have "ring_next (word_of_nat (length log)) ?g = Some (i, rg_seqs ?g ! i)"
  proof (rule ring_next_unique)
    show "i < length (rg_seqs ?g)" using i by (simp add: ring_write_seqs)
    show c: "committed (rg_seqs ?g ! i)" using gj [OF i] len unfolding s_def by (simp add: committed_of_nat del: of_nat_Suc)
    show "word_of_nat (length log) < rg_seqs ?g ! i" using gj [OF i] us by (simp add: word_less_nat_alt)
    show "j = i" if "j < length (rg_seqs ?g)" "rg_seqs ?g ! j = rg_seqs ?g ! i" for j
      using that above [of j] c gj [OF i] us by (simp add: ring_write_seqs)
    show "rg_seqs ?g ! i \<le> v" if v: "v \<in> set (rg_seqs ?g)" "committed v" "word_of_nat (length log) < v" for v
    proof -
      from v(1) obtain j where j: "j < length (rg_seqs g)" "v = rg_seqs ?g ! j"
        by (auto simp: in_set_conv_nth ring_write_seqs)
      with above [of j] v(2,3) us(2) show ?thesis by (simp add: word_less_nat_alt)
    qed
  qed
  with gj [OF i] show ?thesis by simp
qed

lemma connected_read_as:
  assumes "or_inner this = Some r" "or_shmem this = Some h"
    and "raw_reader_read_as r (still (sm_get api h os)) 0 d fr = Some (res, r', t)"
  shows "os_reader_read_as api me alive d this fr os = Some (res, this\<lparr>or_inner := Some r'\<rparr>, os)"
  using assms by (simp add: os_reader_read_as_def conn_defs)

lemma read_as_written:
  fixes d :: dtype
  assumes inv: "chan_inv log w m" and sg: "same_geom w r" and len: "Suc (length log) < 2 ^ 63"
    and xs: "length xs * unat (size_of d) = unat (rw_payload_bytes w)" "\<forall>x \<in> set xs. elem_ok d x"
    and free: "ring_free_slot (unat (rw_current_index w)) (rw_ring w m) = Some i"
  defines "bs \<equiv> slice_bytes d xs"
  defines "m' \<equiv> published_mem w (filled_mem w m i bs) i" and "s \<equiv> rw_last_entry_seq w + 1"
  shows "\<exists>r' t'. raw_reader_read_as r (still m') 0 d (Some (rw_last_entry_seq w)) = Some (Inr (Some (s, xs)), r', t')"
proof -
  have bl: "length bs = unat (rw_payload_bytes w)" using xs(1) by (simp add: bs_def)
  note c = write_chan_inv_cases [OF inv bl len free] and wf = chan_invD(1) [OF inv]
  have i: "i < unat (rw_entry_count w)" using ring_free_slot_bound [OF wf free] .
  have sg': "same_geom (committed_writer w i) r" using sg by (simp add: same_geom_def)
  note ci = c(1) [folded m'_def] and rr = same_geom_reader(2) [OF c(1) sg', folded m'_def]
  have last: "rw_last_entry_seq w = word_of_nat (length log)" "s = word_of_nat (Suc (length log))"
    using last_succ [OF inv len] by (simp_all add: s_def del: of_nat_Suc flip: chan_invD(3) [OF inv])
  have "rr_ring r m' = ring_write i bs s (rw_ring w m)"
    unfolding rr using rw_ring_written [OF wf i bl] by (simp add: m'_def s_def)
  then have "ring_next (rw_last_entry_seq w) (rr_ring r m') = Some (i, s)"
    using ring_next_written [OF chan_invD(2) [OF inv] _ len, of i bs] i last by (simp del: of_nat_Suc)
  moreover have "\<not> rg_wmark (rr_ring r m') \<le> rw_last_entry_seq w"
    using c(2) [folded m'_def] c(3) chan_invD(3) [OF inv] by (simp add: chan_sync_def rr word_le_nat_alt)
  ultimately have rn: "read_next r m' (Some (rw_last_entry_seq w)) = Some (i, s)" by (simp add: read_next_def)
  note st = read_as_still [OF ci sg', where d = d]
  have "slice_elems d (unat (rr_payload_bytes r div size_of d)) bs = xs"
    by (rule slice_elems_unique [OF _ st(3) meta_eq_to_obj_eq [OF bs_def] xs(2)]) (use st(2) bl sg in \<open>simp add: same_geom_def\<close>)
  moreover have "(log @ [bs]) ! (unat s - 1) = bs" using c(3) by (simp add: s_def)
  moreover obtain t' where "raw_reader_read_as r (still m') 0 d (Some (rw_last_entry_seq w)) =
      Some (Inr (Some (s, slice_elems d (unat (rr_payload_bytes r div size_of d)) ((log @ [bs]) ! (unat s - 1)))),
        r\<lparr>rr_last_entry_seq := s, rr_last_read_idx := word_of_nat i\<rparr>, t')"
    using st(1) [of 0 "Some (rw_last_entry_seq w)"] rn by auto
  ultimately show ?thesis by auto
qed

text \<open>
  C19: From a typed writer to a typed reader. On a channel with log \<open>log\<close> on which not every slot is
  held, a connected typed writer writes a slice \<open>xs\<close> of the channel's entry length, and the write is
  entry number \<open>length log + 1\<close>. A connected typed reader of the same element type that then reads
  from the writer's previous number receives that number and exactly the slice \<open>xs\<close>.
\<close>
theorem typed_write_read:
  assumes ok: "shmem_ok api" and wr: "ow_inner wr = Some w" "ow_shmem wr = Some h"
    and rd: "or_inner rd = Some r" "or_shmem rd = Some h'" "sm_seg api h' = sm_seg api h"
    and inv: "chan_inv log w (sm_get api h os)" "same_geom w r" "Suc (length log) < 2 ^ 63"
    and xs: "length xs * unat (size_of d) = unat (rw_payload_bytes w)" "\<forall>x \<in> set xs. elem_ok d x"
    and free: "\<exists>v \<in> set (rg_seqs (rw_ring w (sm_get api h os))). \<not> held v"
  shows "\<exists>wr' os' rd'. writer_write api me alive d wr xs os = Some (Inr (), wr', os') \<and>
     unat (writer_last_entry_seq wr') = Suc (length log) \<and>
     reader_read api me' alive' d rd (Some (writer_last_entry_seq wr)) os' =
       Some (Inr (Some (writer_last_entry_seq wr', xs)), rd', os')"
proof -
  let ?m = "sm_get api h os" and ?bs = "slice_bytes d xs"
  have ne: "rg_seqs (rw_ring w ?m) \<noteq> []" using free by auto
  have "ring_free_slot (unat (rw_current_index w)) (rw_ring w ?m) \<noteq> None"
    using free ring_free_slot_None [OF ne] by blast
  then obtain i where i: "ring_free_slot (unat (rw_current_index w)) (rw_ring w ?m) = Some i" by blast
  let ?m' = "published_mem w (filled_mem w ?m i ?bs) i"
  let ?wr = "wr\<lparr>ow_inner := Some (committed_writer w i)\<rparr>" and ?os = "sm_put api h ?m' os"
  have bl: "length ?bs = unat (rw_payload_bytes w)" using xs(1) by simp
  have "raw_writer_write w ?m ?bs = Some (Inr (), committed_writer w i, ?m')"
    using raw_writer_write_eq [OF chan_invD(1) [OF inv(1)] bl] i by simp
  then have "writer_write api me alive d wr xs os = Some (Inr (), ?wr, ?os)"
    using connected_write [OF wr] by (simp add: writer_write_def)
  moreover have seq: "writer_last_entry_seq ?wr = rw_last_entry_seq w + 1" "writer_last_entry_seq wr = rw_last_entry_seq w"
    using wr(1) by (simp_all add: writer_last_entry_seq_def os_writer_last_entry_seq_def)
  moreover have "unat (rw_last_entry_seq w + 1) = Suc (length log)"
    using write_chan_inv_cases(3) [OF inv(1) bl inv(3) i] .
  moreover have "sm_get api h' ?os = ?m'" using rd(3) by (simp add: get_put [OF ok])
  then have "\<exists>rd'. reader_read api me' alive' d rd (Some (rw_last_entry_seq w)) ?os =
      Some (Inr (Some (rw_last_entry_seq w + 1, xs)), rd', ?os)"
    using read_as_written [OF inv xs i] connected_read_as [OF rd(1,2), of api ?os d] by (fastforce simp: reader_read_def)
  ultimately show ?thesis by (metis (no_types, lifting))
qed

text \<open>The demonstration channel as the only segment of a simulated system.\<close>

definition demo_os :: sim_os where
  "demo_os = \<lparr>so_names = [''c'' \<mapsto> 0], so_segs = \<lambda>_. demo_mem, so_next = 1\<rparr>"

theorem typed_write_read_witness:
  "\<exists>wr' os' rd'. writer_write sim_api 7 (\<lambda>p. True) F64
       \<lparr>ow_name = ''c'', ow_dtype = F64, ow_delayed = False, ow_inner = Some demo_writer, ow_shmem = Some chan_shmem\<rparr>
       [42] demo_os = Some (Inr (), wr', os') \<and>
     reader_read sim_api 8 (\<lambda>p. True) F64
       \<lparr>or_name = ''c'', or_dtype = F64, or_delayed = False, or_zero_copy = False,
        or_inner = Some demo_reader, or_shmem = Some chan_shmem\<rparr> (Some 0) os' =
       Some (Inr (Some (writer_last_entry_seq wr', [42])), rd', os')"
proof -
  have get: "sm_get sim_api chan_shmem demo_os = demo_mem" by (simp add: sim_api_def demo_os_def)
  let ?wr = "\<lparr>ow_name = ''c'', ow_dtype = F64, ow_delayed = False, ow_inner = Some demo_writer, ow_shmem = Some chan_shmem\<rparr>"
  have "writer_last_entry_seq ?wr = 0" by (simp add: writer_last_entry_seq_def os_writer_last_entry_seq_def)
  moreover have "same_geom demo_writer demo_reader" by (simp add: same_geom_def)
  ultimately show ?thesis
    using typed_write_read [OF sim_ok, of ?wr demo_writer chan_shmem
        "\<lparr>or_name = ''c'', or_dtype = F64, or_delayed = False, or_zero_copy = False,
          or_inner = Some demo_reader, or_shmem = Some chan_shmem\<rparr>" demo_reader chan_shmem "[]" demo_os
        "[42]" F64 7 "\<lambda>p. True" 8 "\<lambda>p. True"] demo_chan
    by (auto simp: get demo_ring elem_ok_def)
qed

end
