(* ===== verification/Zc_Views.thy ===== *)
theory Zc_Views
  imports Zc_Wrappers Zc_Transition
begin

text \<open>
  The Python zero-copy handles (\<open>zerochannel/src/python/zerocopy.rs\<close>) and the exceptions they raise
  (\<open>python/errors.rs\<close>). A handle exports its slot through the buffer protocol; every export is
  counted, and the slot is given back (or published) only while no export is alive.

  The interpreter is a parameter: whether the object or the endpoint is borrowed at the moment of a
  call is an argument, and \<open>flags\<close> is the record of the four tests \<open>flags & X == X\<close> the code makes. The
  endpoint that a handle refers to is passed beside it.
\<close>

subsection \<open>Exceptions\<close>

datatype py_err =
    PyValueError string
  | PyOSError string
  | PyBlockingIOError string
  | ChannelRoleConflict string
  | PyBufferError string
  | PyBorrowError
  | PyBorrowMutError

type_synonym 'a py_result = "py_err + 'a"

fun to_py_err :: "zc_error \<Rightarrow> py_err" where
  "to_py_err (InvalidArgument msg) = PyValueError msg"
| "to_py_err (OsError msg) = PyOSError msg"
| "to_py_err (Busy msg) = PyBlockingIOError msg"
| "to_py_err (RoleConflict msg) = ChannelRoleConflict msg"

definition or_py :: "'a zc_result \<Rightarrow> 'a py_result" where
  "or_py r = (case r of Inl e \<Rightarrow> Inl (to_py_err e) | Inr x \<Rightarrow> Inr x)"

subsection \<open>Buffer views\<close>

definition F64_BYTES :: usize where
  "F64_BYTES = 8"

record layout =
  ly_itemsize :: usize
  ly_format :: string

definition FORMAT_U8 :: string where
  "FORMAT_U8 = [CHR ''B'', CHR 0x00]"

definition FORMAT_F64 :: string where
  "FORMAT_F64 = [CHR ''d'', CHR 0x00]"

definition LAYOUT_BYTES :: layout where
  "LAYOUT_BYTES = \<lparr>ly_itemsize = 1, ly_format = FORMAT_U8\<rparr>"

definition LAYOUT_FLOAT64 :: layout where
  "LAYOUT_FLOAT64 = \<lparr>ly_itemsize = F64_BYTES, ly_format = FORMAT_F64\<rparr>"

record buf_flags =
  bf_writable :: bool
  bf_format :: bool
  bf_nd :: bool
  bf_strides :: bool

text \<open>The \<open>Py_buffer\<close>; null pointers are \<open>None\<close>. \<open>internal\<close> owns the shape and stride allocation.\<close>

record py_buffer =
  pv_buf :: usize
  pv_len :: usize
  pv_readonly :: bool
  pv_itemsize :: usize
  pv_format :: "string option"
  pv_ndim :: nat
  pv_shape :: "usize option"
  pv_strides :: "usize option"
  pv_internal :: "(usize \<times> usize) option"

definition fill_view :: "bool \<Rightarrow> buf_flags \<Rightarrow> usize \<Rightarrow> usize \<Rightarrow> layout \<Rightarrow> bool \<Rightarrow> py_buffer py_result" where
  "fill_view view_is_null flags data len layout readonly =
     (if view_is_null then Inl (PyBufferError ''buffer view is null'')
      else if readonly \<and> bf_writable flags
      then Inl (PyBufferError ''a read handle exports a read-only buffer'')
      else
        let dims = (len div ly_itemsize layout, ly_itemsize layout) in
        Inr \<lparr>pv_buf = data, pv_len = len, pv_readonly = readonly, pv_itemsize = ly_itemsize layout,
             pv_format = (if bf_format flags then Some (ly_format layout) else None), pv_ndim = 1,
             pv_shape = (if bf_nd flags then Some (fst dims) else None),
             pv_strides = (if bf_strides flags then Some (snd dims) else None),
             pv_internal = Some dims\<rparr>)"

definition free_view :: "py_buffer option \<Rightarrow> py_buffer option" where
  "free_view view =
     (case view of
        None \<Rightarrow> None
      | Some v \<Rightarrow> Some (if pv_internal v \<noteq> None then v\<lparr>pv_internal := None\<rparr> else v))"

definition outstanding_exports :: "string \<Rightarrow> usize \<Rightarrow> py_err" where
  "outstanding_exports action n =
     PyBufferError (''cannot '' @ action @ '' this handle: '' @ show_u64 n @ '' buffer export'' @
       (if n = 1 then '' is'' else ''s are'') @
       '' still outstanding. Every memoryview or numpy array derived from `payload` '' @
       ''must be dropped first (`del arr`), since the ring slot is recycled as '' @
       ''soon as the handle is finished. Copy the data out (`bytes(...)`, '' @
       ''`numpy.array(...)`) if it needs to outlive the handle.'')"

definition saturating_sub :: "usize \<Rightarrow> usize \<Rightarrow> usize" where
  "saturating_sub a b = (if b \<le> a then a - b else 0)"

subsection \<open>Read handles\<close>

record py_read_handle =
  prh_handle :: "read_handle option"
  prh_entry_seq :: u64
  prh_layout :: layout
  prh_exports :: usize

text \<open>
  \<open>HandleReader::with_raw\<close>: borrow the reader the handle came from, of either class, and run \<open>f\<close> on the
  endpoint inside; \<open>f\<close> may be undefined.
\<close>

definition reader_with_raw :: "bool \<Rightarrow> ('h os_reader \<Rightarrow> 'r option) \<Rightarrow> 'h os_reader \<Rightarrow> 'r py_result option" where
  "reader_with_raw borrowed f inner = (if borrowed then Some (Inl PyBorrowMutError) else map_option Inr (f inner))"

definition read_handle_entry_seq :: "py_read_handle \<Rightarrow> u64" where
  "read_handle_entry_seq this = prh_entry_seq this"

definition read_handle_exports :: "py_read_handle \<Rightarrow> usize" where
  "read_handle_exports this = prh_exports this"

definition read_handle_released :: "py_read_handle \<Rightarrow> bool" where
  "read_handle_released this = (prh_handle this = None)"

definition read_handle_release ::
    "('os, 'h) shmem_api \<Rightarrow> bool \<Rightarrow> 'h os_reader \<Rightarrow> py_read_handle \<Rightarrow> 'os \<Rightarrow>
     (unit py_result \<times> py_read_handle \<times> 'os) option" where
  "read_handle_release api borrowed reader this os =
     (case prh_handle this of
        None \<Rightarrow> Some (Inr (), this, os)
      | Some handle \<Rightarrow>
          if prh_exports this \<noteq> 0
          then Some (Inl (outstanding_exports ''release'' (prh_exports this)), this, os)
          else do {
            r \<leftarrow> reader_with_raw borrowed (\<lambda>raw. os_reader_release api raw handle os) reader;
            Some (case r of
                    Inl e \<Rightarrow> (Inl e, this, os)
                  | Inr os' \<Rightarrow> (Inr (), this\<lparr>prh_handle := None\<rparr>, os'))
          })"

definition read_handle_exit ::
    "('os, 'h) shmem_api \<Rightarrow> bool \<Rightarrow> 'h os_reader \<Rightarrow> py_read_handle \<Rightarrow> 'os \<Rightarrow>
     (bool py_result \<times> py_read_handle \<times> 'os) option" where
  "read_handle_exit api borrowed reader this os =
     do {
       (r, this', os') \<leftarrow> read_handle_release api borrowed reader this os;
       Some (case r of Inl e \<Rightarrow> Inl e | Inr _ \<Rightarrow> Inr False, this', os')
     }"

definition read_handle_getbuffer ::
    "bool \<Rightarrow> bool \<Rightarrow> buf_flags \<Rightarrow> py_read_handle \<Rightarrow> py_buffer py_result \<times> py_read_handle" where
  "read_handle_getbuffer borrowed view_is_null flags this =
     (if borrowed then (Inl PyBorrowError, this)
      else case prh_handle this of
        None \<Rightarrow> (Inl (PyBufferError ''this handle has already been released''), this)
      | Some handle \<Rightarrow>
          (case fill_view view_is_null flags (rh_ptr handle) (rh_len handle) (prh_layout this) True of
             Inl e \<Rightarrow> (Inl e, this)
           | Inr view \<Rightarrow> (Inr view, this\<lparr>prh_exports := prh_exports this + 1\<rparr>)))"

text \<open>
  \<open>payload\<close> wraps the handle in a \<open>memoryview\<close>: \<open>PyMemoryView_FromObject\<close> takes an export on the handle
  through its buffer slot, with flags of its own, or passes on the exception. \<open>__enter__\<close> returns the
  handle itself.
\<close>

definition memoryview_of ::
    "buf_flags \<Rightarrow> (buf_flags \<Rightarrow> 's \<Rightarrow> py_buffer py_result \<times> 's) \<Rightarrow> 's \<Rightarrow> py_buffer py_result \<times> 's" where
  "memoryview_of flags getbuffer obj = getbuffer flags obj"

definition read_handle_payload :: "buf_flags \<Rightarrow> bool \<Rightarrow> py_read_handle \<Rightarrow> py_buffer py_result \<times> py_read_handle" where
  "read_handle_payload flags borrowed this = memoryview_of flags (read_handle_getbuffer borrowed False) this"

definition read_handle_enter :: "py_read_handle \<Rightarrow> py_read_handle" where
  "read_handle_enter this = this"

definition read_handle_releasebuffer :: "py_buffer \<Rightarrow> py_read_handle \<Rightarrow> py_buffer option \<times> py_read_handle" where
  "read_handle_releasebuffer view this =
     (free_view (Some view), this\<lparr>prh_exports := saturating_sub (prh_exports this) 1\<rparr>)"

definition read_handle_drop ::
    "('os, 'h) shmem_api \<Rightarrow> bool \<Rightarrow> 'h os_reader \<Rightarrow> py_read_handle \<Rightarrow> 'os \<Rightarrow> (py_read_handle \<times> 'os) option" where
  "read_handle_drop api borrowed reader this os =
     (if prh_handle this = None then Some (this, os)
      else do {
        (r, this', os') \<leftarrow> read_handle_release api borrowed reader this os;
        Some (this', os')
      })"

subsection \<open>Write handles\<close>

record py_write_handle =
  pwh_handle :: "write_handle option"
  pwh_layout :: layout
  pwh_exports :: usize

definition writer_with_raw :: "bool \<Rightarrow> ('h os_writer \<Rightarrow> 'r option) \<Rightarrow> 'h os_writer \<Rightarrow> 'r py_result option" where
  "writer_with_raw borrowed f inner = (if borrowed then Some (Inl PyBorrowMutError) else map_option Inr (f inner))"

definition write_handle_exports :: "py_write_handle \<Rightarrow> usize" where
  "write_handle_exports this = pwh_exports this"

definition write_handle_committed :: "py_write_handle \<Rightarrow> bool" where
  "write_handle_committed this = (pwh_handle this = None)"

definition write_handle_commit ::
    "('os, 'h) shmem_api \<Rightarrow> bool \<Rightarrow> 'h os_writer \<Rightarrow> py_write_handle \<Rightarrow> 'os \<Rightarrow>
     (u64 py_result \<times> py_write_handle \<times> 'h os_writer \<times> 'os) option" where
  "write_handle_commit api borrowed writer this os =
     (case pwh_handle this of
        None \<Rightarrow> Some (Inl (PyValueError ''handle has already been committed''), this, writer, os)
      | Some handle \<Rightarrow>
          if pwh_exports this \<noteq> 0
          then Some (Inl (outstanding_exports ''commit'' (pwh_exports this)), this, writer, os)
          else do {
            r \<leftarrow> writer_with_raw borrowed (\<lambda>raw. os_writer_commit api raw handle os) writer;
            Some (case r of
                    Inl e \<Rightarrow> (Inl e, this, writer, os)
                  | Inr (entry_seq, writer', os') \<Rightarrow> (Inr entry_seq, this\<lparr>pwh_handle := None\<rparr>, writer', os'))
          })"

definition write_handle_exit ::
    "('os, 'h) shmem_api \<Rightarrow> bool \<Rightarrow> bool \<Rightarrow> 'h os_writer \<Rightarrow> py_write_handle \<Rightarrow> 'os \<Rightarrow>
     (bool py_result \<times> py_write_handle \<times> 'h os_writer \<times> 'os) option" where
  "write_handle_exit api exc_type_is_none borrowed writer this os =
     (if exc_type_is_none \<and> pwh_handle this \<noteq> None
      then do {
        (r, this', writer', os') \<leftarrow> write_handle_commit api borrowed writer this os;
        Some (case r of Inl e \<Rightarrow> Inl e | Inr _ \<Rightarrow> Inr False, this', writer', os')
      }
      else Some (Inr False, this, writer, os))"

definition write_handle_getbuffer ::
    "bool \<Rightarrow> bool \<Rightarrow> buf_flags \<Rightarrow> py_write_handle \<Rightarrow> py_buffer py_result \<times> py_write_handle" where
  "write_handle_getbuffer borrowed view_is_null flags this =
     (if borrowed then (Inl PyBorrowMutError, this)
      else case pwh_handle this of
        None \<Rightarrow> (Inl (PyBufferError ''this handle has already been committed''), this)
      | Some handle \<Rightarrow>
          (case fill_view view_is_null flags (wh_ptr handle) (wh_len handle) (pwh_layout this) False of
             Inl e \<Rightarrow> (Inl e, this)
           | Inr view \<Rightarrow> (Inr view, this\<lparr>pwh_exports := pwh_exports this + 1\<rparr>)))"

definition write_handle_payload :: "buf_flags \<Rightarrow> bool \<Rightarrow> py_write_handle \<Rightarrow> py_buffer py_result \<times> py_write_handle" where
  "write_handle_payload flags borrowed this = memoryview_of flags (write_handle_getbuffer borrowed False) this"

definition write_handle_enter :: "py_write_handle \<Rightarrow> py_write_handle" where
  "write_handle_enter this = this"

lemmas block_defs =
  memoryview_of_def read_handle_payload_def read_handle_enter_def write_handle_payload_def write_handle_enter_def

definition write_handle_releasebuffer :: "py_buffer \<Rightarrow> py_write_handle \<Rightarrow> py_buffer option \<times> py_write_handle" where
  "write_handle_releasebuffer view this =
     (free_view (Some view), this\<lparr>pwh_exports := saturating_sub (pwh_exports this) 1\<rparr>)"

subsection \<open>The life of a handle\<close>

text \<open>
  One handle among its consumers: views are created and dropped, the handle is finished (released or
  committed, by a call, at the end of a \<open>with\<close> block or when the object is collected), at any time and
  in any order, and anything else may happen to the endpoint and to the segments in between. The
  interpreter releases each view once; the number of live views fits the address space. \<open>vs_calls\<close>
  records every attempt to finish the handle, newest first, with the endpoint and the segments before
  and after it.
\<close>

datatype ending = Called | Left_block bool | Collected

record ('s, 'e) view_sys =
  vs_handle :: 's
  vs_views :: "py_buffer list"
  vs_env :: 'e
  vs_calls :: "('e \<times> 'e) list"

inductive view_step ::
    "(bool \<Rightarrow> bool \<Rightarrow> buf_flags \<Rightarrow> 's \<Rightarrow> py_buffer py_result \<times> 's) \<Rightarrow>
     (py_buffer \<Rightarrow> 's \<Rightarrow> py_buffer option \<times> 's) \<Rightarrow> (ending \<Rightarrow> 'e \<Rightarrow> 's \<Rightarrow> (py_err option \<times> 's \<times> 'e) option) \<Rightarrow>
     ('s, 'e) view_sys \<Rightarrow> ('s, 'e) view_sys \<Rightarrow> bool" for get rel fin where
  export:
    "get b n flags (vs_handle x) = (Inr v, s') \<Longrightarrow> Suc (length (vs_views x)) < 2 ^ 64 \<Longrightarrow>
     view_step get rel fin x (x\<lparr>vs_handle := s', vs_views := v # vs_views x\<rparr>)"
| refuse:
    "get b n flags (vs_handle x) = (Inl e, s') \<Longrightarrow> view_step get rel fin x (x\<lparr>vs_handle := s'\<rparr>)"
| drop_view:
    "v \<in> set (vs_views x) \<Longrightarrow> rel v (vs_handle x) = (v', s') \<Longrightarrow>
     view_step get rel fin x (x\<lparr>vs_handle := s', vs_views := remove1 v (vs_views x)\<rparr>)"
| finish:
    "fin how (vs_env x) (vs_handle x) = Some (r, s', e') \<Longrightarrow>
     view_step get rel fin x
       (x\<lparr>vs_handle := s', vs_env := e', vs_calls := (vs_env x, e') # vs_calls x\<rparr>)"
| other: "view_step get rel fin x (x\<lparr>vs_env := e\<rparr>)"

inductive_cases view_stepE: "view_step get rel fin x y"

text \<open>No attempt had an effect; exactly one had, and its effect was \<open>act\<close>.\<close>

definition no_effect :: "('e \<times> 'e) list \<Rightarrow> bool" where
  "no_effect calls \<longleftrightarrow> (\<forall>(e, e') \<in> set calls. e' = e)"

definition one_effect :: "('e \<Rightarrow> 'e option) \<Rightarrow> ('e \<times> 'e) list \<Rightarrow> bool" where
  "one_effect act calls \<longleftrightarrow> (\<exists>a e e' b. calls = a @ (e, e') # b \<and> act e = Some e' \<and> no_effect (a @ b))"

lemma no_effect_Cons [simp]: "no_effect ((e, e') # calls) \<longleftrightarrow> e' = e \<and> no_effect calls" "no_effect []"
  by (auto simp: no_effect_def)

lemma one_effect_same:
  assumes "one_effect act calls"
  shows "one_effect act ((e, e) # calls)"
proof -
  from assms obtain a x x' b where "calls = a @ (x, x') # b" "act x = Some x'" "no_effect (a @ b)"
    unfolding one_effect_def by blast
  then show ?thesis unfolding one_effect_def
    by (intro exI [of _ "(e, e) # a"] exI [of _ x] exI [of _ x'] exI [of _ b]) simp
qed

lemma one_effect_first: "act e = Some e' \<Longrightarrow> no_effect calls \<Longrightarrow> one_effect act ((e, e') # calls)"
  unfolding one_effect_def by (intro exI [of _ "[]"] exI [of _ e] exI [of _ e'] exI [of _ calls]) simp

definition view_inv ::
    "('s \<Rightarrow> 'hd option) \<Rightarrow> ('s \<Rightarrow> usize) \<Rightarrow> ('hd \<Rightarrow> usize) \<Rightarrow> ('hd \<Rightarrow> usize) \<Rightarrow> ('e \<Rightarrow> 'hd \<Rightarrow> 'e option) \<Rightarrow>
     'hd \<Rightarrow> ('s, 'e) view_sys \<Rightarrow> bool" where
  "view_inv slot exports ptr len give hd0 x \<longleftrightarrow>
     unat (exports (vs_handle x)) = length (vs_views x) \<and>
     (\<forall>v \<in> set (vs_views x). pv_buf v = ptr hd0 \<and> pv_len v = len hd0) \<and>
     (case slot (vs_handle x) of
        None \<Rightarrow> vs_views x = [] \<and> one_effect (\<lambda>e. give e hd0) (vs_calls x)
      | Some h \<Rightarrow> h = hd0 \<and> no_effect (vs_calls x))"

lemma unat_saturating_sub_1: "unat (saturating_sub a 1) = unat a - 1"
  by (auto simp: saturating_sub_def word_le_nat_alt unat_sub)

text \<open>
  The contract of a counted handle: what exporting, dropping a view and finishing promise. \<open>give\<close> is
  what the endpoint does to the segment when it takes the slot back.
\<close>

locale counted_handle =
  fixes slot :: "'s \<Rightarrow> 'hd option" and exports :: "'s \<Rightarrow> usize" and ptr len :: "'hd \<Rightarrow> usize"
    and get :: "bool \<Rightarrow> bool \<Rightarrow> buf_flags \<Rightarrow> 's \<Rightarrow> py_buffer py_result \<times> 's"
    and rel :: "py_buffer \<Rightarrow> 's \<Rightarrow> py_buffer option \<times> 's"
    and fin :: "ending \<Rightarrow> 'e \<Rightarrow> 's \<Rightarrow> (py_err option \<times> 's \<times> 'e) option"
    and give :: "'e \<Rightarrow> 'hd \<Rightarrow> 'e option"
  assumes get_ok: "get b n flags s = (Inr v, s') \<Longrightarrow>
      slot s' = slot s \<and> exports s' = exports s + 1 \<and>
      (\<exists>h. slot s = Some h \<and> pv_buf v = ptr h \<and> pv_len v = len h)"
    and get_refused: "get b n flags s = (Inl err, s') \<Longrightarrow> s' = s"
    and rel_ok: "rel v s = (v', s') \<Longrightarrow> slot s' = slot s \<and> exports s' = saturating_sub (exports s) 1"
    and fin_ok: "fin how e s = Some (r, s', e') \<Longrightarrow>
      exports s' = exports s \<and>
      (slot s' = slot s \<and> e' = e \<or>
       exports s = 0 \<and> slot s' = None \<and> (\<exists>h. slot s = Some h \<and> give e h = Some e'))"
begin

lemma inv_view_step:
  "view_inv slot exports ptr len give hd0 x \<Longrightarrow> view_step get rel fin x y \<Longrightarrow> view_inv slot exports ptr len give hd0 y"
proof (erule view_stepE, goal_cases)
  case (1 b n flags v s')
  with get_ok [OF 1(3)] show ?case by (auto simp: view_inv_def unat_add_no_wrap)
next
  case (2 b n flags e s')
  with get_refused [OF 2(3)] show ?case by (simp add: view_inv_def)
next
  case (3 v v' s')
  then have ne: "vs_views x \<noteq> []" by auto
  with 3 rel_ok [OF 3(4)] show ?case
    by (auto simp: view_inv_def unat_saturating_sub_1 length_remove1 dest: notin_set_remove1 split: option.splits)
next
  case (4 how r s' e')
  from fin_ok [OF 4(3)] show ?case
  proof (elim conjE disjE)
    assume "exports s' = exports (vs_handle x)" "slot s' = slot (vs_handle x)" "e' = vs_env x"
    with 4(1,2) show ?case by (auto simp: view_inv_def intro: one_effect_same split: option.splits)
  next
    assume "exports s' = exports (vs_handle x)" "exports (vs_handle x) = 0" "slot s' = None"
      "\<exists>h. slot (vs_handle x) = Some h \<and> give (vs_env x) h = Some e'"
    with 4(1,2) show ?case by (auto simp: view_inv_def intro: one_effect_first)
  qed
next
  case (5 e)
  then show ?case by (simp add: view_inv_def split: option.splits)
qed

end

sublocale counted_handle \<subseteq> step_invariant "view_step get rel fin" "view_inv slot exports ptr len give hd0"
  by unfold_locales (rule inv_view_step)

context counted_handle
begin

text \<open>What a handle guarantees, from its creation on.\<close>

lemma views_pin:
  assumes "(view_step get rel fin)\<^sup>*\<^sup>* x y" "slot (vs_handle x) = Some hd0" "exports (vs_handle x) = 0"
    and "vs_views x = []" "vs_calls x = []"
  shows "unat (exports (vs_handle y)) = length (vs_views y)"
    and "v \<in> set (vs_views y) \<Longrightarrow> slot (vs_handle y) = Some hd0 \<and> exports (vs_handle y) \<noteq> 0 \<and>
      pv_buf v = ptr hd0 \<and> pv_len v = len hd0"
    and "if slot (vs_handle y) = None then one_effect (\<lambda>e. give e hd0) (vs_calls y) else no_effect (vs_calls y)"
proof -
  have "view_inv slot exports ptr len give hd0 x" using assms(2-5) by (simp add: view_inv_def)
  with assms(1) have inv: "view_inv slot exports ptr len give hd0 y" by (rule inv_star)
  then show c: "unat (exports (vs_handle y)) = length (vs_views y)"
    and "if slot (vs_handle y) = None then one_effect (\<lambda>e. give e hd0) (vs_calls y) else no_effect (vs_calls y)"
    by (auto simp: view_inv_def split: option.splits)
  assume v: "v \<in> set (vs_views y)"
  then have "0 < length (vs_views y)" by (cases "vs_views y") auto
  with c have "exports (vs_handle y) \<noteq> 0" by auto
  with inv v show "slot (vs_handle y) = Some hd0 \<and> exports (vs_handle y) \<noteq> 0 \<and> pv_buf v = ptr hd0 \<and> pv_len v = len hd0"
    by (auto simp: view_inv_def split: option.splits)
qed

end

text \<open>The ways a handle ends. A write handle has no destructor: collecting it does nothing.\<close>

fun raised :: "'a py_result \<Rightarrow> py_err option" where
  "raised (Inl e) = Some e"
| "raised (Inr _) = None"

definition read_finish ::
    "('os, 'h) shmem_api \<Rightarrow> ending \<Rightarrow> bool \<times> 'h os_reader \<times> 'os \<Rightarrow> py_read_handle \<Rightarrow>
     (py_err option \<times> py_read_handle \<times> (bool \<times> 'h os_reader \<times> 'os)) option" where
  "read_finish api how = (\<lambda>(borrowed, reader, os) this.
     case how of
       Called \<Rightarrow> map_option (\<lambda>(r, this', os'). (raised r, this', (borrowed, reader, os')))
         (read_handle_release api borrowed reader this os)
     | Left_block exc_type_is_none \<Rightarrow> map_option (\<lambda>(r, this', os'). (raised r, this', (borrowed, reader, os')))
         (read_handle_exit api borrowed reader this os)
     | Collected \<Rightarrow> map_option (\<lambda>(this', os'). (None, this', (borrowed, reader, os')))
         (read_handle_drop api borrowed reader this os))"

definition read_give ::
    "('os, 'h) shmem_api \<Rightarrow> bool \<times> 'h os_reader \<times> 'os \<Rightarrow> read_handle \<Rightarrow> (bool \<times> 'h os_reader \<times> 'os) option" where
  "read_give api = (\<lambda>(borrowed, reader, os) handle.
     if borrowed then None else map_option (\<lambda>os'. (borrowed, reader, os')) (os_reader_release api reader handle os))"

definition write_finish ::
    "('os, 'h) shmem_api \<Rightarrow> ending \<Rightarrow> bool \<times> 'h os_writer \<times> 'os \<Rightarrow> py_write_handle \<Rightarrow>
     (py_err option \<times> py_write_handle \<times> (bool \<times> 'h os_writer \<times> 'os)) option" where
  "write_finish api how = (\<lambda>(borrowed, writer, os) this.
     case how of
       Called \<Rightarrow> map_option (\<lambda>(r, this', writer', os'). (raised r, this', (borrowed, writer', os')))
         (write_handle_commit api borrowed writer this os)
     | Left_block exc_type_is_none \<Rightarrow> map_option (\<lambda>(r, this', writer', os'). (raised r, this', (borrowed, writer', os')))
         (write_handle_exit api exc_type_is_none borrowed writer this os)
     | Collected \<Rightarrow> Some (None, this, (borrowed, writer, os)))"

definition write_give ::
    "('os, 'h) shmem_api \<Rightarrow> bool \<times> 'h os_writer \<times> 'os \<Rightarrow> write_handle \<Rightarrow> (bool \<times> 'h os_writer \<times> 'os) option" where
  "write_give api = (\<lambda>(borrowed, writer, os) handle.
     if borrowed then None
     else map_option (\<lambda>(entry_seq, writer', os'). (borrowed, writer', os')) (os_writer_commit api writer handle os))"

lemma fill_view_Inr:
  "fill_view n flags p l lay ro = Inr v \<Longrightarrow> pv_buf v = p \<and> pv_len v = l"
  by (auto simp: fill_view_def Let_def split: if_splits)

lemma read_handle_release_effect:
  assumes "read_handle_release api b rd s os = Some (r, s', os')"
  shows "prh_exports s' = prh_exports s \<and>
     (prh_handle s' = prh_handle s \<and> os' = os \<or>
      \<not> b \<and> prh_exports s = 0 \<and> prh_handle s' = None \<and>
      (\<exists>h. prh_handle s = Some h \<and> os_reader_release api rd h os = Some os'))"
  using assms
  by (auto simp: read_handle_release_def reader_with_raw_def bind_eq_Some_conv split: if_splits option.splits)

lemma write_handle_commit_effect:
  assumes "write_handle_commit api b wr s os = Some (r, s', wr', os')"
  shows "pwh_exports s' = pwh_exports s \<and>
     (pwh_handle s' = pwh_handle s \<and> wr' = wr \<and> os' = os \<or>
      \<not> b \<and> pwh_exports s = 0 \<and> pwh_handle s' = None \<and>
      (\<exists>h q. pwh_handle s = Some h \<and> os_writer_commit api wr h os = Some (q, wr', os')))"
  using assms
  by (auto simp: write_handle_commit_def writer_with_raw_def bind_eq_Some_conv split: if_splits option.splits)

interpretation read_handles: counted_handle prh_handle prh_exports rh_ptr rh_len read_handle_getbuffer
  read_handle_releasebuffer "read_finish api" "read_give api"
proof (unfold_locales, goal_cases)
  case (1 b n flags s v s')
  then show ?case
    by (auto simp: read_handle_getbuffer_def dest: fill_view_Inr split: if_splits option.splits sum.splits)
next
  case (2 b n flags s e s')
  then show ?case
    by (auto simp: read_handle_getbuffer_def split: if_splits option.splits sum.splits)
next
  case (3 v s v' s')
  then show ?case by (auto simp: read_handle_releasebuffer_def)
next
  case (4 how e s r s' e')
  then show ?case
    by (cases how; cases e)
      (auto simp: read_finish_def read_give_def read_handle_exit_def read_handle_drop_def bind_eq_Some_conv
        dest!: read_handle_release_effect split: if_splits)
qed

interpretation write_handles: counted_handle pwh_handle pwh_exports wh_ptr wh_len write_handle_getbuffer
  write_handle_releasebuffer "write_finish api" "write_give api"
proof (unfold_locales, goal_cases)
  case (1 b n flags s v s')
  then show ?case
    by (auto simp: write_handle_getbuffer_def dest: fill_view_Inr split: if_splits option.splits sum.splits)
next
  case (2 b n flags s e s')
  then show ?case
    by (auto simp: write_handle_getbuffer_def split: if_splits option.splits sum.splits)
next
  case (3 v s v' s')
  then show ?case by (auto simp: write_handle_releasebuffer_def)
next
  case (4 how e s r s' e')
  then show ?case
    by (cases how; cases e)
      (auto simp: write_finish_def write_give_def write_handle_exit_def bind_eq_Some_conv
        dest!: write_handle_commit_effect split: if_splits)
qed

text \<open>
  C11: A read handle pins its slot while it is viewed, and gives it back once. From the creation of
  the handle, through any sequence of exports, dropped views and attempts to end it (a call of
  \<open>release\<close>, the end of a \<open>with\<close> block, the collection of the object), among any other activity: the
  export counter is the number of live views; while one is alive the handle still holds its slot, the
  view addresses exactly that slot's payload, and releasing raises \<open>BufferError\<close> and changes nothing.
  As long as the handle is not released, no attempt to end it has changed the segments. Once it is
  released, exactly one attempt has, by the reader's \<open>release\<close> of exactly this slot, and no attempt
  before or after it has changed anything.
\<close>
theorem read_views_pin_slot:
  assumes "(view_step read_handle_getbuffer read_handle_releasebuffer (read_finish api))\<^sup>*\<^sup>* x y"
    and "prh_handle (vs_handle x) = Some hd0" "prh_exports (vs_handle x) = 0" "vs_views x = []" "vs_calls x = []"
  shows "unat (prh_exports (vs_handle y)) = length (vs_views y) \<and>
     (\<forall>v \<in> set (vs_views y). prh_handle (vs_handle y) = Some hd0 \<and> pv_buf v = rh_ptr hd0 \<and> pv_len v = rh_len hd0 \<and>
        (\<forall>borrowed reader os. \<exists>msg. read_handle_release api borrowed reader (vs_handle y) os =
           Some (Inl (PyBufferError msg), vs_handle y, os))) \<and>
     (if read_handle_released (vs_handle y)
      then \<exists>after reader os os' before.
        vs_calls y = after @ ((False, reader, os), (False, reader, os')) # before \<and>
        os_reader_release api reader hd0 os = Some os' \<and> (\<forall>(e, e') \<in> set (after @ before). e' = e)
      else \<forall>(e, e') \<in> set (vs_calls y). e' = e)"
proof -
  note p = read_handles.views_pin [OF assms]
  have "\<exists>msg. read_handle_release api b rd s os = Some (Inl (PyBufferError msg), s, os)"
    if "prh_handle s = Some hd0" "prh_exports s \<noteq> 0" for b rd s os
    using that by (simp add: read_handle_release_def outstanding_exports_def)
  with p(2) have pin: "\<forall>v \<in> set (vs_views y). prh_handle (vs_handle y) = Some hd0 \<and> pv_buf v = rh_ptr hd0 \<and>
      pv_len v = rh_len hd0 \<and> (\<forall>borrowed reader os. \<exists>msg. read_handle_release api borrowed reader (vs_handle y) os =
           Some (Inl (PyBufferError msg), vs_handle y, os))" by blast
  have "\<exists>after reader os os' before. calls = after @ ((False, reader, os), (False, reader, os')) # before \<and>
      os_reader_release api reader hd0 os = Some os' \<and> no_effect (after @ before)"
    if "one_effect (\<lambda>e. read_give api e hd0) calls" for calls
    using that unfolding one_effect_def read_give_def by (fastforce split: if_splits)
  with pin p(1,3) show ?thesis unfolding read_handle_released_def no_effect_def by (auto split: if_splits)
qed

definition demo_flags :: buf_flags where
  "demo_flags = \<lparr>bf_writable = False, bf_format = True, bf_nd = True, bf_strides = True\<rparr>"

definition demo_read_handle :: py_read_handle where
  "demo_read_handle = \<lparr>prh_handle = Some \<lparr>rh_index = 0, rh_entry_seq = 1, rh_ptr = 80, rh_len = 8\<rparr>,
     prh_entry_seq = 1, prh_layout = LAYOUT_FLOAT64, prh_exports = 0\<rparr>"

theorem read_views_pin_slot_witness:
  "\<exists>v s. read_handle_getbuffer False False demo_flags demo_read_handle = (Inr v, s) \<and> pv_buf v = 80 \<and> pv_len v = 8 \<and>
     (\<exists>msg. read_handle_release sim_api False
        \<lparr>or_name = ''c'', or_dtype = F64, or_delayed = False, or_zero_copy = True, or_inner = None, or_shmem = None\<rparr>
        s empty_os = Some (Inl (PyBufferError msg), s, empty_os))"
proof -
  let ?rd = "\<lparr>or_name = ''c'', or_dtype = F64, or_delayed = False, or_zero_copy = True, or_inner = None, or_shmem = None\<rparr>"
  let ?x = "\<lparr>vs_handle = demo_read_handle, vs_views = [], vs_env = (False, ?rd, empty_os), vs_calls = []\<rparr>"
  obtain v s where g: "read_handle_getbuffer False False demo_flags demo_read_handle = (Inr v, s)"
    by (simp add: read_handle_getbuffer_def demo_read_handle_def fill_view_def demo_flags_def)
  let ?y = "?x\<lparr>vs_handle := s, vs_views := [v]\<rparr>"
  have st: "(view_step read_handle_getbuffer read_handle_releasebuffer (read_finish sim_api))\<^sup>*\<^sup>* ?x ?y"
    using view_step.export [of read_handle_getbuffer False False demo_flags ?x v s] g
    by (intro r_into_rtranclp) simp
  from read_views_pin_slot [OF st, of "\<lparr>rh_index = 0, rh_entry_seq = 1, rh_ptr = 80, rh_len = 8\<rparr>"] g
  show ?thesis by (auto simp: demo_read_handle_def)
qed

text \<open>
  C12: The same for a write handle and \<open>commit\<close>: an entry is never published while a writable view of
  its slot is alive. As long as the handle is not committed, no attempt to end it (a call of \<open>commit\<close>,
  the end of a \<open>with\<close> block with or without an exception, the collection of the object) has changed
  the writer or the segments. Once it is committed, exactly one attempt has, by the writer's \<open>commit\<close>
  of exactly this slot, and no attempt before or after it has changed anything.
\<close>
theorem write_views_pin_slot:
  assumes "(view_step write_handle_getbuffer write_handle_releasebuffer (write_finish api))\<^sup>*\<^sup>* x y"
    and "pwh_handle (vs_handle x) = Some hd0" "pwh_exports (vs_handle x) = 0" "vs_views x = []" "vs_calls x = []"
  shows "unat (pwh_exports (vs_handle y)) = length (vs_views y) \<and>
     (\<forall>v \<in> set (vs_views y). pwh_handle (vs_handle y) = Some hd0 \<and> pv_buf v = wh_ptr hd0 \<and> pv_len v = wh_len hd0 \<and>
        (\<forall>borrowed writer os. \<exists>msg. write_handle_commit api borrowed writer (vs_handle y) os =
           Some (Inl (PyBufferError msg), vs_handle y, writer, os))) \<and>
     (if write_handle_committed (vs_handle y)
      then \<exists>after writer os entry_seq writer' os' before.
        vs_calls y = after @ ((False, writer, os), (False, writer', os')) # before \<and>
        os_writer_commit api writer hd0 os = Some (entry_seq, writer', os') \<and>
        (\<forall>(e, e') \<in> set (after @ before). e' = e)
      else \<forall>(e, e') \<in> set (vs_calls y). e' = e)"
proof -
  note p = write_handles.views_pin [OF assms]
  have "\<exists>msg. write_handle_commit api b wr s os = Some (Inl (PyBufferError msg), s, wr, os)"
    if "pwh_handle s = Some hd0" "pwh_exports s \<noteq> 0" for b wr s os
    using that by (simp add: write_handle_commit_def outstanding_exports_def)
  with p(2) have pin: "\<forall>v \<in> set (vs_views y). pwh_handle (vs_handle y) = Some hd0 \<and> pv_buf v = wh_ptr hd0 \<and>
      pv_len v = wh_len hd0 \<and> (\<forall>borrowed writer os. \<exists>msg. write_handle_commit api borrowed writer (vs_handle y) os =
           Some (Inl (PyBufferError msg), vs_handle y, writer, os))" by blast
  have "\<exists>after writer os entry_seq writer' os' before.
      calls = after @ ((False, writer, os), (False, writer', os')) # before \<and>
      os_writer_commit api writer hd0 os = Some (entry_seq, writer', os') \<and> no_effect (after @ before)"
    if "one_effect (\<lambda>e. write_give api e hd0) calls" for calls
    using that unfolding one_effect_def write_give_def by (fastforce split: if_splits)
  with pin p(1,3) show ?thesis unfolding write_handle_committed_def no_effect_def by (auto split: if_splits)
qed

theorem write_views_pin_slot_witness:
  "\<exists>v s. write_handle_getbuffer False False demo_flags
       \<lparr>pwh_handle = Some \<lparr>wh_index = 0, wh_ptr = 80, wh_len = 8\<rparr>, pwh_layout = LAYOUT_BYTES, pwh_exports = 0\<rparr> = (Inr v, s) \<and>
     (\<exists>msg. write_handle_commit sim_api False
        \<lparr>ow_name = ''c'', ow_dtype = F64, ow_delayed = False, ow_inner = None, ow_shmem = None\<rparr>
        s empty_os = Some (Inl (PyBufferError msg), s,
          \<lparr>ow_name = ''c'', ow_dtype = F64, ow_delayed = False, ow_inner = None, ow_shmem = None\<rparr>, empty_os))"
proof -
  let ?wr = "\<lparr>ow_name = ''c'', ow_dtype = F64, ow_delayed = False, ow_inner = None, ow_shmem = None\<rparr>"
  let ?h = "\<lparr>wh_index = 0, wh_ptr = 80, wh_len = 8\<rparr>"
  let ?s = "\<lparr>pwh_handle = Some ?h, pwh_layout = LAYOUT_BYTES, pwh_exports = 0\<rparr>"
  let ?x = "\<lparr>vs_handle = ?s, vs_views = [], vs_env = (False, ?wr, empty_os), vs_calls = []\<rparr>"
  obtain v s where g: "write_handle_getbuffer False False demo_flags ?s = (Inr v, s)"
    by (simp add: write_handle_getbuffer_def fill_view_def demo_flags_def)
  let ?y = "?x\<lparr>vs_handle := s, vs_views := [v]\<rparr>"
  have st: "(view_step write_handle_getbuffer write_handle_releasebuffer (write_finish sim_api))\<^sup>*\<^sup>* ?x ?y"
    using view_step.export [of write_handle_getbuffer False False demo_flags ?x v s] g
    by (intro r_into_rtranclp) simp
  from write_views_pin_slot [OF st, of ?h] g show ?thesis by auto
qed

end
