(* ===== verification/Zc_Python.thy ===== *)
theory Zc_Python
  imports Zc_Views
begin

text \<open>
  The Python endpoints (\<open>zerochannel/src/python/writer.rs\<close>, \<open>python/reader.rs\<close>, \<open>python/mod.rs\<close>): each
  class is a shell over a named endpoint that raises the exception of \<open>Zc_Views\<close> for its error. A
  \<open>numpy\<close> array is its elements and whether it is contiguous; the array passed as \<open>out\<close> is returned as
  the call leaves it. An element of a \<open>float64\<close> array is its bit pattern. The mutable slice of an array is
  its elements; taking it fails only for an array that is not contiguous, which \<open>check_out\<close> has refused.
\<close>

record 'a ndarray =
  nd_contiguous :: bool
  nd_elems :: "'a list"

definition check_out :: "'a ndarray \<Rightarrow> usize \<Rightarrow> unit py_result" where
  "check_out arr expected =
     (if \<not> nd_contiguous arr then Inl (PyValueError ''out must be a contiguous array'')
      else if length (nd_elems arr) \<noteq> unat expected
      then Inl (PyValueError (''out must hold exactly '' @ show_u64 expected @ '' elements, got '' @
             show_nat (length (nd_elems arr))))
      else Inr ())"

definition py_unlink :: "('os, 'h) shmem_api \<Rightarrow> string \<Rightarrow> 'os \<Rightarrow> unit py_result \<times> 'os" where
  "py_unlink api name os = (let (r, os') = unlink api name os in (or_py r, os'))"

subsection \<open>Writers\<close>

definition bytes_writer_new ::
    "('os, 'h) shmem_api \<Rightarrow> u64 \<Rightarrow> (u32 \<Rightarrow> bool) \<Rightarrow> string \<Rightarrow> usize option \<Rightarrow> usize option \<Rightarrow> bool \<Rightarrow> 'os \<Rightarrow>
     (('h os_writer) py_result \<times> 'os) option" where
  "bytes_writer_new api me alive name entry_length entry_count delayed_connect os =
     do {
       (r, os') \<leftarrow> os_writer_new api me alive name entry_length entry_count U8 delayed_connect os;
       Some (or_py r, os')
     }"

definition float64_writer_new ::
    "('os, 'h) shmem_api \<Rightarrow> u64 \<Rightarrow> (u32 \<Rightarrow> bool) \<Rightarrow> string \<Rightarrow> usize option \<Rightarrow> usize option \<Rightarrow> bool \<Rightarrow> 'os \<Rightarrow>
     (('h os_writer) py_result \<times> 'os) option" where
  "float64_writer_new api me alive name entry_length entry_count delayed_connect os =
     (let payload_bytes = map_option (\<lambda>n. saturating_mul n F64_BYTES) entry_length in
      do {
        (r, os') \<leftarrow> os_writer_new api me alive name payload_bytes entry_count F64 delayed_connect os;
        Some (or_py r, os')
      })"

definition bytes_writer_entry_length :: "'h os_writer \<Rightarrow> usize" where
  "bytes_writer_entry_length inner = os_writer_payload_bytes inner"

definition float64_writer_entry_length :: "'h os_writer \<Rightarrow> usize" where
  "float64_writer_entry_length inner = os_writer_payload_bytes inner div F64_BYTES"

definition bytes_writer_last_entry_seq :: "'h os_writer \<Rightarrow> u64" where
  "bytes_writer_last_entry_seq inner = os_writer_last_entry_seq inner"

definition float64_writer_last_entry_seq :: "'h os_writer \<Rightarrow> u64" where
  "float64_writer_last_entry_seq inner = os_writer_last_entry_seq inner"

definition bytes_writer_write ::
    "('os, 'h) shmem_api \<Rightarrow> u64 \<Rightarrow> (u32 \<Rightarrow> bool) \<Rightarrow> 'h os_writer \<Rightarrow> byte list \<Rightarrow> 'os \<Rightarrow>
     (unit py_result \<times> 'h os_writer \<times> 'os) option" where
  "bytes_writer_write api me alive inner data os =
     do {
       (r, inner', os') \<leftarrow> os_writer_write api me alive inner data os;
       Some (or_py r, inner', os')
     }"

text \<open>\<open>as_slice\<close> of an array that is not contiguous is an error of the \<open>numpy\<close> crate.\<close>

definition float64_writer_write ::
    "('os, 'h) shmem_api \<Rightarrow> u64 \<Rightarrow> (u32 \<Rightarrow> bool) \<Rightarrow> py_err \<Rightarrow> 'h os_writer \<Rightarrow> u64 ndarray \<Rightarrow> 'os \<Rightarrow>
     (unit py_result \<times> 'h os_writer \<times> 'os) option" where
  "float64_writer_write api me alive not_contiguous inner data os =
     (if \<not> nd_contiguous data then Some (Inl not_contiguous, inner, os)
      else do {
        (r, inner', os') \<leftarrow> os_writer_write api me alive inner (slice_bytes F64 (nd_elems data)) os;
        Some (or_py r, inner', os')
      })"

definition py_writer_try_acquire ::
    "layout \<Rightarrow> ('os, 'h) shmem_api \<Rightarrow> u64 \<Rightarrow> (u32 \<Rightarrow> bool) \<Rightarrow> 'h os_writer \<Rightarrow> 'os \<Rightarrow>
     ((py_write_handle option) py_result \<times> 'h os_writer \<times> 'os) option" where
  "py_writer_try_acquire layout api me alive inner os =
     do {
       (r, inner', os') \<leftarrow> os_writer_try_acquire api me alive inner os;
       Some (case r of
               Inl e \<Rightarrow> Inl (to_py_err e)
             | Inr None \<Rightarrow> Inr None
             | Inr (Some handle) \<Rightarrow>
                 Inr (Some \<lparr>pwh_handle = Some handle, pwh_layout = layout, pwh_exports = 0\<rparr>),
             inner', os')
     }"

definition bytes_writer_try_acquire where
  "bytes_writer_try_acquire api me alive inner os = py_writer_try_acquire LAYOUT_BYTES api me alive inner os"

definition float64_writer_try_acquire where
  "float64_writer_try_acquire api me alive inner os = py_writer_try_acquire LAYOUT_FLOAT64 api me alive inner os"

subsection \<open>Readers\<close>

definition bytes_reader_new ::
    "('os, 'h) shmem_api \<Rightarrow> u64 \<Rightarrow> (u32 \<Rightarrow> bool) \<Rightarrow> string \<Rightarrow> usize option \<Rightarrow> usize option \<Rightarrow> bool \<Rightarrow> bool \<Rightarrow> 'os \<Rightarrow>
     (('h os_reader) py_result \<times> 'os) option" where
  "bytes_reader_new api me alive name entry_length entry_count delayed_connect enable_zero_copy os =
     (let build = (if enable_zero_copy then os_reader_new_zero_copy api me alive else os_reader_new api me alive) in
      do {
        (r, os') \<leftarrow> build name entry_length entry_count U8 delayed_connect os;
        Some (or_py r, os')
      })"

definition float64_reader_new ::
    "('os, 'h) shmem_api \<Rightarrow> u64 \<Rightarrow> (u32 \<Rightarrow> bool) \<Rightarrow> string \<Rightarrow> usize option \<Rightarrow> usize option \<Rightarrow> bool \<Rightarrow> bool \<Rightarrow> 'os \<Rightarrow>
     (('h os_reader) py_result \<times> 'os) option" where
  "float64_reader_new api me alive name entry_length entry_count delayed_connect enable_zero_copy os =
     (let payload_bytes = map_option (\<lambda>n. saturating_mul n F64_BYTES) entry_length;
          build = (if enable_zero_copy then os_reader_new_zero_copy api me alive else os_reader_new api me alive) in
      do {
        (r, os') \<leftarrow> build name payload_bytes entry_count F64 delayed_connect os;
        Some (or_py r, os')
      })"

definition bytes_reader_entry_length :: "'h os_reader \<Rightarrow> usize" where
  "bytes_reader_entry_length inner = os_reader_payload_bytes inner"

definition float64_reader_entry_length :: "'h os_reader \<Rightarrow> usize" where
  "float64_reader_entry_length inner = os_reader_payload_bytes inner div F64_BYTES"

definition bytes_reader_last_entry_seq :: "'h os_reader \<Rightarrow> u64" where
  "bytes_reader_last_entry_seq inner = os_reader_last_entry_seq inner"

definition float64_reader_last_entry_seq :: "'h os_reader \<Rightarrow> u64" where
  "float64_reader_last_entry_seq inner = os_reader_last_entry_seq inner"

definition bytes_reader_writer_entry_seq :: "('os, 'h) shmem_api \<Rightarrow> 'h os_reader \<Rightarrow> 'os \<Rightarrow> u64 option" where
  "bytes_reader_writer_entry_seq api inner os = os_reader_writer_entry_seq api inner os"

definition float64_reader_writer_entry_seq :: "('os, 'h) shmem_api \<Rightarrow> 'h os_reader \<Rightarrow> 'os \<Rightarrow> u64 option" where
  "float64_reader_writer_entry_seq api inner os = os_reader_writer_entry_seq api inner os"

text \<open>The two branches on \<open>out\<close>: the caller's array, filled in place, or a fresh buffer of zeros.\<close>

definition bytes_reader_read ::
    "('os, 'h) shmem_api \<Rightarrow> u64 \<Rightarrow> (u32 \<Rightarrow> bool) \<Rightarrow> 'h os_reader \<Rightarrow> (byte ndarray) option \<Rightarrow> u64 option \<Rightarrow> 'os \<Rightarrow>
     (((u64 \<times> byte list) option) py_result \<times> 'h os_reader \<times> (byte ndarray) option \<times> 'os) option" where
  "bytes_reader_read api me alive inner out from_entry_seq os =
     do {
       (c, inner, os) \<leftarrow> os_reader_connect api me alive inner os;
       case c of
         Inl e \<Rightarrow> Some (Inl (to_py_err e), inner, out, os)
       | Inr connected \<Rightarrow>
           if \<not> connected then Some (Inr None, inner, out, os)
           else let entry_length = os_reader_payload_bytes inner in
             case out of
               Some arr \<Rightarrow>
                 (case check_out arr entry_length of
                    Inl e \<Rightarrow> Some (Inl e, inner, out, os)
                  | Inr _ \<Rightarrow>
                      do {
                        (res, inner, buf, os) \<leftarrow>
                          os_reader_read_into api me alive inner (nd_elems arr) from_entry_seq os;
                        Some (case or_py res of
                                Inl e \<Rightarrow> Inl e
                              | Inr seq \<Rightarrow> Inr (map_option (\<lambda>s. (s, buf)) seq),
                              inner, Some (arr\<lparr>nd_elems := buf\<rparr>), os)
                      })
             | None \<Rightarrow>
                 do {
                   (res, inner, buf, os) \<leftarrow>
                     os_reader_read_into api me alive inner (replicate (unat entry_length) 0) from_entry_seq os;
                   Some (case or_py res of
                           Inl e \<Rightarrow> Inl e
                         | Inr seq \<Rightarrow> Inr (map_option (\<lambda>s. (s, buf)) seq),
                         inner, None, os)
                 }
     }"

definition float64_reader_read ::
    "('os, 'h) shmem_api \<Rightarrow> u64 \<Rightarrow> (u32 \<Rightarrow> bool) \<Rightarrow> 'h os_reader \<Rightarrow> (u64 ndarray) option \<Rightarrow> u64 option \<Rightarrow> 'os \<Rightarrow>
     (((u64 \<times> u64 list) option) py_result \<times> 'h os_reader \<times> (u64 ndarray) option \<times> 'os) option" where
  "float64_reader_read api me alive inner out from_entry_seq os =
     do {
       (c, inner, os) \<leftarrow> os_reader_connect api me alive inner os;
       case c of
         Inl e \<Rightarrow> Some (Inl (to_py_err e), inner, out, os)
       | Inr connected \<Rightarrow>
           if \<not> connected then Some (Inr None, inner, out, os)
           else let entry_length = os_reader_payload_bytes inner div F64_BYTES in
             case (case out of
                     Some arr \<Rightarrow> (case check_out arr entry_length of Inl e \<Rightarrow> Inl e | Inr _ \<Rightarrow> Inr arr)
                   | None \<Rightarrow> Inr \<lparr>nd_contiguous = True, nd_elems = replicate (unat entry_length) 0\<rparr>) of
               Inl e \<Rightarrow> Some (Inl e, inner, out, os)
             | Inr dst \<Rightarrow>
                 do {
                   (res, inner, buf, os) \<leftarrow>
                     os_reader_read_into_as api me alive F64 inner (nd_elems dst) from_entry_seq os;
                   Some (case or_py res of
                           Inl e \<Rightarrow> Inl e
                         | Inr seq \<Rightarrow> Inr (map_option (\<lambda>s. (s, buf)) seq),
                         inner, map_option (\<lambda>arr. arr\<lparr>nd_elems := buf\<rparr>) out, os)
                 }
     }"

definition py_reader_try_acquire ::
    "layout \<Rightarrow> ('os, 'h) shmem_api \<Rightarrow> u64 \<Rightarrow> (u32 \<Rightarrow> bool) \<Rightarrow> 'h os_reader \<Rightarrow> u64 option \<Rightarrow> 'os \<Rightarrow>
     ((py_read_handle option) py_result \<times> 'h os_reader \<times> 'os) option" where
  "py_reader_try_acquire layout api me alive inner from_entry_seq os =
     do {
       (r, inner', os') \<leftarrow> os_reader_try_acquire api me alive inner from_entry_seq os;
       Some (case r of
               Inl e \<Rightarrow> Inl (to_py_err e)
             | Inr None \<Rightarrow> Inr None
             | Inr (Some handle) \<Rightarrow>
                 Inr (Some \<lparr>prh_handle = Some handle, prh_entry_seq = read_handle_seq handle,
                        prh_layout = layout, prh_exports = 0\<rparr>),
             inner', os')
     }"

definition bytes_reader_try_acquire where
  "bytes_reader_try_acquire api me alive inner from_entry_seq os =
     py_reader_try_acquire LAYOUT_BYTES api me alive inner from_entry_seq os"

definition float64_reader_try_acquire where
  "float64_reader_try_acquire api me alive inner from_entry_seq os =
     py_reader_try_acquire LAYOUT_FLOAT64 api me alive inner from_entry_seq os"

end
