(* ===== verification/Zc_Blocks.thy ===== *)
theory Zc_Blocks
  imports Zc_Python Zc_Machine
begin

text \<open>
  Python programs over the endpoints: the \<open>with\<close> blocks of the zero-copy handles, from the
  acquisition through a buffer view to the exit, and a read into the caller's array. The endpoint is
  connected; \<open>h\<close> is its mapping, and the channel invariant of \<open>Zc_Channel\<close> describes the segment.
\<close>

subsection \<open>Writing in a block\<close>

text \<open>A block that has filled its slot and not committed it leaves the channel as it was.\<close>

lemma chan_inv_filled:
  assumes "chan_inv log w m" "i < unat (rw_entry_count w)" "length bs = unat (rw_payload_bytes w)"
  shows "chan_inv log w (filled_mem w m i bs)"
proof -
  note c = chan_invD [OF assms(1)]
  note f = filled_mem_facts [OF c(1) assms(2,3)]
  have "ring_inv log (ring_clear i (rw_ring w m))" using c(2) assms(2) by (intro ring_inv_clear) simp_all
  then have "ring_inv log (ring_fill i bs (ring_clear i (rw_ring w m)))"
    using assms(2) by (intro ring_inv_fill) (simp_all add: ring_clear_def)
  with assms(1) f show ?thesis by (simp add: chan_inv_def ring_fill_def ring_clear_def)
qed

lemma commit_filled:
  assumes "chan_inv log w m" "i < unat (rw_entry_count w)" "length bs = unat (rw_payload_bytes w)"
  shows "raw_writer_commit w (filled_mem w m i bs)
       \<lparr>wh_index = word_of_nat i, wh_ptr = p, wh_len = l\<rparr> =
     Some (rw_last_entry_seq w + 1, committed_writer w i, published_mem w (filled_mem w m i bs) i)"
  using publish_published [OF filled_mem_facts(1) [OF chan_invD(1) [OF assms(1)] assms(2,3)] assms(2)]
  by (simp add: raw_writer_commit_def)

lemma connected_acquire:
  assumes "ow_inner wr = Some w" "ow_shmem wr = Some h" "rw_wf w (sm_get api h os)"
    and "ring_free_slot (unat (rw_current_index w)) (rw_ring w (sm_get api h os)) = Some i"
  shows "py_writer_try_acquire lay api me alive wr os =
     Some (Inr (Some \<lparr>pwh_handle = Some \<lparr>wh_index = word_of_nat i,
         wh_ptr = payload_offset (rw_payload_bytes w) (word_of_nat i), wh_len = rw_payload_bytes w\<rparr>,
         pwh_layout = lay, pwh_exports = 0\<rparr>), wr,
       sm_put api h (set_seq (rw_payload_bytes w) (sm_get api h os) i 0) os)"
  using assms
  by (simp add: py_writer_try_acquire_def os_writer_try_acquire_def conn_defs raw_writer_try_acquire_eq)

text \<open>
  C20: A \<open>with\<close> block on a write handle. On a channel with log \<open>log\<close> on which not every slot is held,
  \<open>try_acquire\<close> returns a handle; its buffer is writable and as long as an entry. The block fills the
  buffer with \<open>data\<close> and drops it. If the block ends without an exception, the entry is committed:
  the log becomes \<open>log\<close> followed by \<open>data\<close>. If it ends with an exception, the entry is abandoned:
  the handle, the writer and the log stay as they are. Neither exit suppresses the exception.
\<close>
theorem write_block:
  assumes ok: "shmem_ok api" and wr: "ow_inner wr = Some w" "ow_shmem wr = Some h"
    and inv: "chan_inv log w (sm_get api h os)" and len: "Suc (length log) < 2 ^ 63"
    and free: "\<exists>v \<in> set (rg_seqs (rw_ring w (sm_get api h os))). \<not> held v"
    and data: "length data = unat (rw_payload_bytes w)"
  shows "\<exists>hd0 os1 v hd1 m2 hd3 wr3 os3 w3.
     py_writer_try_acquire lay api me alive wr os = Some (Inr (Some hd0), wr, os1) \<and>
     write_handle_payload flags False (write_handle_enter hd0) = (Inr v, hd1) \<and> \<not> pv_readonly v \<and> pv_len v = rw_payload_bytes w \<and>
     write_bytes (sm_get api h os1) (pv_buf v) data = Some m2 \<and>
     (let hd2 = snd (write_handle_releasebuffer v hd1); os2 = sm_put api h m2 os1 in
      write_handle_exit api True False wr hd2 os2 = Some (Inr False, hd3, wr3, os3) \<and>
      write_handle_committed hd3 \<and> ow_inner wr3 = Some w3 \<and>
      chan_inv (log @ [data]) w3 (sm_get api h os3) \<and>
      write_handle_exit api False False wr hd2 os2 = Some (Inr False, hd2, wr, os2) \<and>
      chan_inv log w (sm_get api h os2))"
proof -
  let ?m = "sm_get api h os" and ?pb = "rw_payload_bytes w"
  have ne: "rg_seqs (rw_ring w ?m) \<noteq> []" using free by auto
  have "ring_free_slot (unat (rw_current_index w)) (rw_ring w ?m) \<noteq> None"
    using free ring_free_slot_None [OF ne] by blast
  then obtain i where i: "ring_free_slot (unat (rw_current_index w)) (rw_ring w ?m) = Some i" by blast
  note wf = chan_invD(1) [OF inv]
  have n: "i < unat (rw_entry_count w)" using ring_free_slot_bound [OF wf i] .
  let ?wh = "\<lparr>wh_index = word_of_nat i, wh_ptr = payload_offset ?pb (word_of_nat i), wh_len = ?pb\<rparr>"
  let ?hd = "\<lparr>pwh_handle = Some ?wh, pwh_layout = lay, pwh_exports = 0\<rparr>"
  let ?os1 = "sm_put api h (set_seq ?pb ?m i 0) os" and ?m2 = "filled_mem w ?m i data"
  let ?os2 = "sm_put api h ?m2 ?os1" and ?m3 = "published_mem w ?m2 i"
  obtain v where v: "write_handle_payload flags False (write_handle_enter ?hd) = (Inr v, ?hd\<lparr>pwh_exports := 1\<rparr>)"
    "\<not> pv_readonly v" "pv_len v = ?pb" "pv_buf v = wh_ptr ?wh"
    by (simp add: block_defs write_handle_getbuffer_def fill_view_def Let_def)
  have fill: "write_bytes (sm_get api h ?os1) (pv_buf v) data = Some ?m2"
    using fill_acquired [OF wf n data] v(4) by (simp add: get_put [OF ok])
  have "write_handle_exit api True False wr ?hd ?os2 =
      Some (Inr False, ?hd\<lparr>pwh_handle := None\<rparr>, wr\<lparr>ow_inner := Some (committed_writer w i)\<rparr>, sm_put api h ?m3 ?os2)"
    using wr commit_filled [OF inv n data]
    by (simp add: write_handle_exit_def write_handle_commit_def writer_with_raw_def os_writer_commit_def conn_defs get_put [OF ok])
  moreover have "write_handle_exit api False False wr ?hd ?os2 = Some (Inr False, ?hd, wr, ?os2)"
    by (simp add: write_handle_exit_def)
  moreover have "chan_inv (log @ [data]) (committed_writer w i) (sm_get api h (sm_put api h ?m3 ?os2))"
    using write_chan_inv_cases(1) [OF inv data len i] by (simp add: get_put [OF ok])
  moreover have "chan_inv log w (sm_get api h ?os2)"
    using chan_inv_filled [OF inv n data] by (simp add: get_put [OF ok])
  ultimately show ?thesis
    using connected_acquire [OF wr wf i, of lay me alive] v(1-3) fill
    by (intro exI [of _ ?hd] exI [of _ ?os1] exI [of _ v] exI [of _ "?hd\<lparr>pwh_exports := 1\<rparr>"] exI [of _ ?m2]
        exI [of _ "?hd\<lparr>pwh_handle := None\<rparr>"] exI [of _ "wr\<lparr>ow_inner := Some (committed_writer w i)\<rparr>"]
        exI [of _ "sm_put api h ?m3 ?os2"] exI [of _ "committed_writer w i"])
      (simp add: Let_def write_handle_releasebuffer_def saturating_sub_def write_handle_committed_def)
qed

definition demo_py_writer :: "sim_shmem os_writer" where
  "demo_py_writer = \<lparr>ow_name = ''c'', ow_dtype = U8, ow_delayed = False, ow_inner = Some demo_writer, ow_shmem = Some chan_shmem\<rparr>"

theorem write_block_witness:
  "\<exists>hd0 os1 v hd1. py_writer_try_acquire LAYOUT_BYTES sim_api 7 (\<lambda>p. True) demo_py_writer demo_os =
       Some (Inr (Some hd0), demo_py_writer, os1) \<and>
     write_handle_payload demo_flags False (write_handle_enter hd0) = (Inr v, hd1) \<and> pv_len v = 8"
proof -
  have get: "sm_get sim_api chan_shmem demo_os = demo_mem" by (simp add: sim_api_def demo_os_def)
  have "\<exists>v \<in> set (rg_seqs (rw_ring demo_writer (sm_get sim_api chan_shmem demo_os))). \<not> held v"
    by (simp add: get demo_ring)
  from write_block [OF sim_ok, of demo_py_writer demo_writer chan_shmem "[]" demo_os "replicate 8 5" LAYOUT_BYTES 7 "\<lambda>p. True" demo_flags]
    this demo_chan
  show ?thesis by (auto simp: get demo_py_writer_def)
qed

subsection \<open>A view that outlives its block\<close>

text \<open>A write takes the slot of an acquisition that was not committed.\<close>

lemma write_after_acquire:
  assumes "rw_wf w m" "ring_free_slot (unat (rw_current_index w)) (rw_ring w m) = Some i"
    and "length data = unat (rw_payload_bytes w)"
  shows "raw_writer_write w (set_seq (rw_payload_bytes w) m i 0) data =
     Some (Inr (), committed_writer w i, published_mem w (filled_mem w m i data) i)"
proof -
  have n: "i < unat (rw_entry_count w)" using ring_free_slot_bound [OF assms(1,2)] .
  then have ne: "rg_seqs (rw_ring w m) \<noteq> []" by (auto simp: rw_ring_def simp flip: length_greater_0_conv)
  have "ring_free_slot (unat (rw_current_index w)) (rw_ring w (set_seq (rw_payload_bytes w) m i 0)) = Some i"
    using ring_free_slot_clear [OF assms(2) ne] n by (simp add: rw_ring_set_seq [OF assms(1)] ring_clear_def)
  moreover have "filled_mem w (set_seq (rw_payload_bytes w) m i 0) i data = filled_mem w m i data"
    using assms(1) slot_off_in [of "rw_payload_bytes w" "rw_entry_count w" "length m" i] n
    by (simp add: filled_mem_def set_seq_def poke_poke_same rw_wf_def)
  ultimately show ?thesis using raw_writer_write_eq [OF rw_wf_set_seq [OF assms(1) n] assms(3)] by simp
qed

text \<open>
  C38: A view can write into a published entry. A block on a write handle that ends with an exception
  abandons the entry even while a view of the slot is alive, and without an error. The writer's next
  \<open>write\<close> takes the same slot and commits an entry there, and a store through the view then replaces
  the bytes of the committed entry, under its number. (The same happens without a block, when the
  writer writes while a handle is open.)
\<close>
theorem live_view_corrupts_entry:
  assumes ok: "shmem_ok api" and wr: "ow_inner wr = Some w" "ow_shmem wr = Some h"
    and inv: "chan_inv log w (sm_get api h os)" and len: "Suc (length log) < 2 ^ 63"
    and free: "\<exists>v \<in> set (rg_seqs (rw_ring w (sm_get api h os))). \<not> held v"
    and data: "length data = unat (rw_payload_bytes w)" and junk: "length junk = unat (rw_payload_bytes w)"
  shows "\<exists>hd0 os1 v hd1 wr2 w2 os2 m3 i.
     py_writer_try_acquire lay api me alive wr os = Some (Inr (Some hd0), wr, os1) \<and>
     write_handle_payload flags False (write_handle_enter hd0) = (Inr v, hd1) \<and> write_handle_exports hd1 = 1 \<and>
     write_handle_exit api False False wr hd1 os1 = Some (Inr False, hd1, wr, os1) \<and>
     os_writer_write api me alive wr data os1 = Some (Inr (), wr2, os2) \<and> ow_inner wr2 = Some w2 \<and>
     chan_inv (log @ [data]) w2 (sm_get api h os2) \<and>
     write_bytes (sm_get api h os2) (pv_buf v) junk = Some m3 \<and> i < rw_entry_count w \<and>
     load_u64 m3 (seq_cell (rw_payload_bytes w) i) = Some (word_of_nat (Suc (length log))) \<and>
     read_bytes m3 (payload_offset (rw_payload_bytes w) i) (rw_payload_bytes w) = Some junk"
proof -
  let ?m = "sm_get api h os" and ?pb = "rw_payload_bytes w" and ?c = "unat (rw_current_index w)"
  have ne: "rg_seqs (rw_ring w ?m) \<noteq> []" using free by auto
  from free ring_free_slot_None [OF ne] obtain i where i: "ring_free_slot ?c (rw_ring w ?m) = Some i" by blast
  note wf = chan_invD(1) [OF inv]
  have n: "i < unat (rw_entry_count w)" using ring_free_slot_bound [OF wf i] .
  let ?m1 = "set_seq ?pb ?m i 0" and ?hd = "\<lparr>pwh_handle = Some \<lparr>wh_index = word_of_nat i,
      wh_ptr = payload_offset ?pb (word_of_nat i), wh_len = ?pb\<rparr>, pwh_layout = lay, pwh_exports = 0\<rparr>"
  let ?os1 = "sm_put api h ?m1 os" and ?w2 = "committed_writer w i"
  let ?m2 = "published_mem w (filled_mem w ?m i data) i"
  let ?wr2 = "wr\<lparr>ow_inner := Some ?w2\<rparr>" and ?os2 = "sm_put api h ?m2 ?os1"
  obtain v where v: "write_handle_payload flags False (write_handle_enter ?hd) = (Inr v, ?hd\<lparr>pwh_exports := 1\<rparr>)"
    "pv_buf v = payload_offset ?pb (word_of_nat i)"
    by (simp add: block_defs write_handle_getbuffer_def fill_view_def Let_def)
  from write_after_acquire [OF wf i data] have w: "os_writer_write api me alive wr data ?os1 = Some (Inr (), ?wr2, ?os2)"
    using wr by (simp add: os_writer_write_def conn_defs get_put [OF ok])
  note c = write_chan_inv_cases [OF inv data len i]
  have g: "seg_geom ?pb (rw_entry_count w) (length ?m2)" using chan_invD(1) [OF c(1)] by (simp add: rw_wf_def)
  let ?m3 = "set_pay ?pb ?m2 i junk"
  have "rg_seqs (rw_ring ?w2 ?m2) ! i = word_of_nat (Suc (length log))"
    using n by (simp add: rw_ring_written [OF wf n data] last_succ [OF inv len] ring_write_def ring_publish_def ring_fill_def)
  then have "seq_at ?pb ?m2 i = word_of_nat (Suc (length log))" using n by (simp add: rw_ring_nth)
  moreover have "length ?m3 = length ?m2" using g n junk by (simp add: length_set_pay)
  ultimately have "load_u64 ?m3 (seq_cell ?pb (word_of_nat i)) = Some (word_of_nat (Suc (length log)))"
    "read_bytes ?m3 (payload_offset ?pb (word_of_nat i)) ?pb = Some junk"
    "write_bytes ?m2 (payload_offset ?pb (word_of_nat i)) junk = Some ?m3"
    using g n junk by (simp_all add: unat_of_nat_below slots.gseq_spay slots.gpay_spay)
  moreover have "write_handle_exit api False False wr (?hd\<lparr>pwh_exports := 1\<rparr>) ?os1 = Some (Inr False, ?hd\<lparr>pwh_exports := 1\<rparr>, wr, ?os1)"
    by (simp add: write_handle_exit_def)
  ultimately show ?thesis
    using connected_acquire [OF wr wf i, of lay me alive] v w c(1) n
    by (intro exI [of _ ?hd] exI [of _ ?os1] exI [of _ v] exI [of _ "?hd\<lparr>pwh_exports := 1\<rparr>"] exI [of _ ?wr2]
        exI [of _ ?w2] exI [of _ ?os2] exI [of _ ?m3] exI [of _ "word_of_nat i"])
      (simp add: write_handle_exports_def get_put [OF ok] word_less_nat_alt unat_of_nat_below)
qed

theorem live_view_corrupts_entry_witness:
  "\<exists>hd0 os1 v hd1 wr2 os2 m3.
     py_writer_try_acquire LAYOUT_BYTES sim_api 7 (\<lambda>p. True) demo_py_writer demo_os = Some (Inr (Some hd0), demo_py_writer, os1) \<and>
     write_handle_payload demo_flags False (write_handle_enter hd0) = (Inr v, hd1) \<and>
     write_handle_exit sim_api False False demo_py_writer hd1 os1 = Some (Inr False, hd1, demo_py_writer, os1) \<and>
     os_writer_write sim_api 7 (\<lambda>p. True) demo_py_writer (replicate 8 5) os1 = Some (Inr (), wr2, os2) \<and>
     write_bytes (sm_get sim_api chan_shmem os2) (pv_buf v) (replicate 8 6) = Some m3"
proof -
  have get: "sm_get sim_api chan_shmem demo_os = demo_mem" by (simp add: sim_api_def demo_os_def)
  have "\<exists>v \<in> set (rg_seqs (rw_ring demo_writer (sm_get sim_api chan_shmem demo_os))). \<not> held v"
    by (simp add: get demo_ring)
  from live_view_corrupts_entry [OF sim_ok, of demo_py_writer demo_writer chan_shmem "[]" demo_os "replicate 8 5"
      "replicate 8 6" LAYOUT_BYTES 7 "\<lambda>p. True" demo_flags] this demo_chan
  show ?thesis by (auto simp: get demo_py_writer_def)
qed

subsection \<open>Reading in a block\<close>

lemma py_acquire_raw:
  assumes "or_inner rd = Some r" "or_shmem rd = Some h"
    and "py_reader_try_acquire lay api me alive rd fr os = Some (Inr (Some hd0), rd1, os1)"
  obtains rh r1 m1 t where "or_zero_copy rd"
    "raw_reader_try_acquire r (still (sm_get api h os)) 0 fr = Some (Inr (Some rh), r1, m1, t)"
    "hd0 = \<lparr>prh_handle = Some rh, prh_entry_seq = rh_entry_seq rh, prh_layout = lay, prh_exports = 0\<rparr>"
    "rd1 = rd\<lparr>or_inner := Some r1\<rparr>" "os1 = sm_put api h m1 os"
proof -
  have zc: "or_zero_copy rd"
    by (rule ccontr) (use assms(3) in \<open>simp add: py_reader_try_acquire_def os_reader_try_acquire_def\<close>)
  note run = assms(3) [unfolded py_reader_try_acquire_def os_reader_try_acquire_def conn_defs]
  from zc assms(1,2) run obtain x r1 m1 t where x:
    "raw_reader_try_acquire r (still (sm_get api h os)) 0 fr = Some (x, r1, m1, t)"
    by (auto simp: bind_eq_Some_conv)
  show ?thesis
  proof (cases x)
    case (Inl e)
    with zc assms(1,2) run x show ?thesis by simp
  next
    case (Inr y)
    with zc assms(1,2) run x show ?thesis by (cases y) (auto intro!: that)
  qed
qed

definition slot_layout :: "layout \<Rightarrow> bool" where
  "slot_layout lay \<longleftrightarrow> lay = LAYOUT_BYTES \<or> lay = LAYOUT_FLOAT64"

lemma slot_layout_items:
  assumes "slot_layout lay" "8 dvd unat len"
  shows "unat (len div ly_itemsize lay) * unat (ly_itemsize lay) = unat len"
  using assms by (auto simp: slot_layout_def LAYOUT_BYTES_def LAYOUT_FLOAT64_def F64_BYTES_def unat_div_distrib)

text \<open>
  C21: A \<open>with\<close> block on a read handle. When \<open>try_acquire\<close> on a channel with log \<open>log\<close> returns a
  handle, a request for a read-only buffer succeeds; the buffer addresses exactly the payload
  committed under the handle's number, its items fill it completely, and a request for a writable
  buffer is refused. Leaving the block while the buffer is alive raises \<open>BufferError\<close> and keeps the
  slot; leaving it after the buffer is gone gives the slot back, and the segment is, byte for byte,
  what it was before the acquisition.
\<close>
theorem read_block:
  assumes ok: "shmem_ok api" and rd: "or_inner rd = Some r" "or_shmem rd = Some h"
    and inv: "chan_inv log w (sm_get api h os)" "same_geom w r" and lay: "slot_layout lay"
    and acq: "py_reader_try_acquire lay api me alive rd fr os = Some (Inr (Some hd0), rd1, os1)"
    and ro: "\<not> bf_writable flags"
  shows "\<exists>v hd1. read_handle_payload flags False (read_handle_enter hd0) = (Inr v, hd1) \<and> pv_readonly v \<and>
     0 < unat (prh_entry_seq hd0) \<and> unat (prh_entry_seq hd0) \<le> length log \<and>
     read_bytes (sm_get api h os1) (pv_buf v) (pv_len v) = Some (log ! (unat (prh_entry_seq hd0) - 1)) \<and>
     (\<forall>k. pv_shape v = Some k \<longrightarrow> unat k * unat (pv_itemsize v) = unat (pv_len v)) \<and>
     (\<exists>msg. read_handle_getbuffer False False (flags\<lparr>bf_writable := True\<rparr>) hd0 = (Inl (PyBufferError msg), hd0)) \<and>
     (\<exists>msg. read_handle_exit api False rd1 hd1 os1 = Some (Inl (PyBufferError msg), hd1, os1)) \<and>
     (\<exists>hd3 os3. read_handle_exit api False rd1 (snd (read_handle_releasebuffer v hd1)) os1 = Some (Inr False, hd3, os3) \<and>
        read_handle_released hd3 \<and> sm_get api h os3 = sm_get api h os)"
proof -
  let ?m = "sm_get api h os"
  from rd acq obtain rh r1 m1 t where zc: "or_zero_copy rd"
    and a: "raw_reader_try_acquire r (still ?m) 0 fr = Some (Inr (Some rh), r1, m1, t)"
    and e: "hd0 = \<lparr>prh_handle = Some rh, prh_entry_seq = rh_entry_seq rh, prh_layout = lay, prh_exports = 0\<rparr>"
      "rd1 = rd\<lparr>or_inner := Some r1\<rparr>" "os1 = sm_put api h m1 os" by (rule py_acquire_raw)
  note sg = same_geom_reader [OF inv]
  note f = acquire_release_roundtrip_facts [OF sg(1,3) a]
  have len: "rh_len rh = rr_payload_bytes r"
    using a try_acquire_still [OF sg(1,3), of 0 fr] by (auto split: option.splits)
  have g: "8 dvd unat (rh_len rh)" using sg(1) len by (simp add: rr_wf_def seg_geom_def)
  from f(1) obtain wm where "ring_next wm (rw_ring w ?m) = Some (unat (rh_index rh), rh_entry_seq rh)"
    by (auto simp: read_next_def Let_def sg(2) split: if_splits)
  note n = ring_inv_next [OF chan_invD(2) [OF inv(1)] this]
  have bytes: "read_bytes m1 (rh_ptr rh) (rh_len rh) = Some (log ! (unat (rh_entry_seq rh) - 1))"
    using f(6) n(3) by (simp add: rh_as_bytes_def sg(2))
  let ?hd1 = "hd0\<lparr>prh_exports := 1\<rparr>"
  obtain v where v: "fill_view False flags (rh_ptr rh) (rh_len rh) lay True = Inr v" "pv_readonly v"
      "pv_buf v = rh_ptr rh" "pv_len v = rh_len rh" "pv_itemsize v = ly_itemsize lay"
      "pv_shape v = None \<or> pv_shape v = Some (rh_len rh div ly_itemsize lay)"
    using ro by (auto simp: fill_view_def Let_def)
  then have get: "read_handle_payload flags False (read_handle_enter hd0) = (Inr v, ?hd1)"
    by (simp add: block_defs read_handle_getbuffer_def e(1))
  have "\<exists>msg. read_handle_getbuffer False False (flags\<lparr>bf_writable := True\<rparr>) hd0 = (Inl (PyBufferError msg), hd0)"
    by (simp add: read_handle_getbuffer_def e(1) fill_view_def)
  moreover have "\<exists>msg. read_handle_exit api False rd1 ?hd1 os1 = Some (Inl (PyBufferError msg), ?hd1, os1)"
    by (simp add: read_handle_exit_def read_handle_release_def e(1) outstanding_exports_def)
  moreover have "snd (read_handle_releasebuffer v ?hd1) = hd0"
    by (simp add: read_handle_releasebuffer_def saturating_sub_def e(1))
  moreover have "read_handle_exit api False rd1 hd0 os1 = Some (Inr False, hd0\<lparr>prh_handle := None\<rparr>, sm_put api h ?m os1)"
    using rd(2) f(7)
    by (simp add: read_handle_exit_def read_handle_release_def reader_with_raw_def os_reader_release_def e get_put [OF ok])
  ultimately show ?thesis
    using get v bytes n(1,2) slot_layout_items [OF lay g]
    by (intro exI [of _ v] exI [of _ ?hd1]) (auto simp: e get_put [OF ok] read_handle_released_def)
qed

text \<open>The demonstration channel with one entry as the only segment of a simulated system.\<close>

definition written_os :: sim_os where
  "written_os = demo_os\<lparr>so_segs := \<lambda>_. demo_written\<rparr>"

definition demo_py_reader :: "sim_shmem os_reader" where
  "demo_py_reader = \<lparr>or_name = ''c'', or_dtype = U8, or_delayed = False, or_zero_copy = True,
     or_inner = Some demo_reader, or_shmem = Some chan_shmem\<rparr>"

lemma demo_py_reader_facts:
  "or_inner demo_py_reader = Some demo_reader" "or_shmem demo_py_reader = Some chan_shmem" "or_zero_copy demo_py_reader"
  "sm_get sim_api chan_shmem written_os = demo_written"
  "same_geom (committed_writer demo_writer 0) demo_reader"
  by (simp_all add: demo_py_reader_def written_os_def sim_api_def same_geom_def)

theorem read_block_witness:
  "\<exists>hd0 rd1 os1 v hd1. py_reader_try_acquire LAYOUT_BYTES sim_api 7 (\<lambda>p. True) demo_py_reader None written_os =
       Some (Inr (Some hd0), rd1, os1) \<and>
     read_handle_payload demo_flags False (read_handle_enter hd0) = (Inr v, hd1) \<and>
     read_bytes (sm_get sim_api chan_shmem os1) (pv_buf v) (pv_len v) = Some (replicate 8 9)"
proof -
  obtain rh r1 m1 t where a: "raw_reader_try_acquire demo_reader (still demo_written) 0 None =
      Some (Inr (Some rh), r1, m1, t)" and q: "rh_entry_seq rh = 1"
    using try_acquire_still [OF demo_reader_wf demo_reader_unique, of 0 None] by (auto simp: demo_read_next)
  let ?hd = "\<lparr>prh_handle = Some rh, prh_entry_seq = rh_entry_seq rh, prh_layout = LAYOUT_BYTES, prh_exports = 0\<rparr>"
  have acq: "py_reader_try_acquire LAYOUT_BYTES sim_api 7 (\<lambda>p. True) demo_py_reader None written_os =
      Some (Inr (Some ?hd), demo_py_reader\<lparr>or_inner := Some r1\<rparr>, sm_put sim_api chan_shmem m1 written_os)"
    using a by (simp add: py_reader_try_acquire_def os_reader_try_acquire_def conn_defs demo_py_reader_facts)
  have "slot_layout LAYOUT_BYTES" "\<not> bf_writable demo_flags" by (simp_all add: slot_layout_def demo_flags_def)
  from read_block [OF sim_ok demo_py_reader_facts(1,2) _ demo_py_reader_facts(5) this(1) acq this(2), of "[replicate 8 9]"]
    demo_chan_written acq q
  show ?thesis by (auto simp: demo_py_reader_facts(4))
qed

subsection \<open>Reading into the caller's array\<close>

lemma reader_unmoved: "or_inner rd = Some r \<Longrightarrow> rd\<lparr>or_inner := Some r\<rparr> = rd"
  by (cases rd) simp

lemma connected_read_entry:
  assumes rd: "or_inner rd = Some r" "or_shmem rd = Some h"
    and inv: "chan_inv log w (sm_get api h os)" "same_geom w r" and len: "length dst = unat (rr_payload_bytes r)"
  obtains (none) "os_reader_read_into api me alive rd dst fr os = Some (Inr None, rd, dst, os)"
    | (entry) s r' where
        "os_reader_read_into api me alive rd dst fr os =
           Some (Inr (Some s), rd\<lparr>or_inner := Some r'\<rparr>, log ! (unat s - 1), os)"
        "rr_last_entry_seq r' = s" "0 < unat s" "unat s \<le> length log"
proof -
  let ?m = "sm_get api h os"
  note sg = same_geom_reader [OF inv]
  obtain t where raw: "raw_reader_read_into r (still ?m) 0 dst fr =
     Some (case read_next r ?m fr of
         None \<Rightarrow> (Inr None, r, dst, t)
       | Some (i, s) \<Rightarrow> (Inr (Some s), r\<lparr>rr_last_entry_seq := s, rr_last_read_idx := word_of_nat i\<rparr>,
                        rg_pays (rr_ring r ?m) ! i, t))"
    using read_into_still [OF sg(1,3) len] by blast
  show ?thesis
  proof (cases "read_next r ?m fr")
    case None
    with raw have "raw_reader_read_into r (still ?m) 0 dst fr = Some (Inr None, r, dst, t)" by simp
    from connected_read [OF rd this, of me alive] show ?thesis
      by (intro that(1)) (simp add: reader_unmoved [OF rd(1)])
  next
    case (Some p)
    obtain i s where p: "p = (i, s)" by (cases p)
    with Some obtain wm where "ring_next wm (rw_ring w ?m) = Some (i, s)"
      by (auto simp: read_next_def Let_def sg(2) split: if_splits)
    note n = ring_inv_next [OF chan_invD(2) [OF inv(1)] this]
    let ?r = "r\<lparr>rr_last_entry_seq := s, rr_last_read_idx := word_of_nat i\<rparr>"
    have "raw_reader_read_into r (still ?m) 0 dst fr = Some (Inr (Some s), ?r, log ! (unat s - 1), t)"
      using raw Some p n(3) sg(2) by simp
    from entry [OF connected_read [OF rd this]] n(1,2) show ?thesis by simp
  qed
qed

text \<open>
  C22: \<open>BytesReader.read(out=arr)\<close> on a connected reader of a channel with log \<open>log\<close>. An array that is
  not contiguous or not exactly as long as an entry is rejected with \<open>ValueError\<close>, and no entry is
  lost: the reader's position, the array and the segment are unchanged. Otherwise the call returns
  nothing, and then position and array are unchanged, or the number and bytes of a committed entry,
  and then the array holds exactly these bytes.
\<close>
theorem py_read_out:
  assumes rd: "or_inner rd = Some r" "or_shmem rd = Some h"
    and inv: "chan_inv log w (sm_get api h os)" "same_geom w r"
  shows "(\<not> nd_contiguous arr \<or> length (nd_elems arr) \<noteq> unat (bytes_reader_entry_length rd) \<longrightarrow>
       (\<exists>msg. bytes_reader_read api me alive rd (Some arr) fr os = Some (Inl (PyValueError msg), rd, Some arr, os))) \<and>
     (nd_contiguous arr \<and> length (nd_elems arr) = unat (bytes_reader_entry_length rd) \<longrightarrow>
       (\<exists>res rd' arr'. bytes_reader_read api me alive rd (Some arr) fr os = Some (Inr res, rd', Some arr', os) \<and>
          (case res of
             None \<Rightarrow> rd' = rd \<and> arr' = arr
           | Some (s, bytes) \<Rightarrow> 0 < unat s \<and> unat s \<le> length log \<and> bytes = log ! (unat s - 1) \<and>
               arr' = arr\<lparr>nd_elems := bytes\<rparr> \<and> os_reader_last_entry_seq rd' = s)))"
proof (intro conjI impI)
  have c: "os_reader_connect api me alive rd os = Some (Inr True, rd, os)"
    using rd(1) by (simp add: os_reader_connect_def conn_defs)
  have el: "bytes_reader_entry_length rd = rr_payload_bytes r" "os_reader_payload_bytes rd = rr_payload_bytes r"
    using rd(1) by (simp_all add: bytes_reader_entry_length_def os_reader_payload_bytes_def)
  note run = bytes_reader_read_def [of api me alive rd "Some arr" fr os, unfolded c]
  show "\<exists>msg. bytes_reader_read api me alive rd (Some arr) fr os = Some (Inl (PyValueError msg), rd, Some arr, os)"
    if "\<not> nd_contiguous arr \<or> length (nd_elems arr) \<noteq> unat (bytes_reader_entry_length rd)"
    using that el by (auto simp: run check_out_def Let_def)
  assume a: "nd_contiguous arr \<and> length (nd_elems arr) = unat (bytes_reader_entry_length rd)"
  then have "length (nd_elems arr) = unat (rr_payload_bytes r)" by (simp add: el)
  with rd inv show "\<exists>res rd' arr'. bytes_reader_read api me alive rd (Some arr) fr os = Some (Inr res, rd', Some arr', os) \<and>
      (case res of None \<Rightarrow> rd' = rd \<and> arr' = arr
       | Some (s, bytes) \<Rightarrow> 0 < unat s \<and> unat s \<le> length log \<and> bytes = log ! (unat s - 1) \<and>
           arr' = arr\<lparr>nd_elems := bytes\<rparr> \<and> os_reader_last_entry_seq rd' = s)"
    by (cases rule: connected_read_entry [where me = me and alive = alive and fr = fr])
      (use a el in \<open>simp_all add: run check_out_def Let_def or_py_def os_reader_last_entry_seq_def\<close>)
qed

theorem py_read_out_witness:
  "\<exists>msg. bytes_reader_read sim_api 7 (\<lambda>p. True) demo_py_reader
     (Some \<lparr>nd_contiguous = True, nd_elems = [0, 0]\<rparr>) None written_os =
     Some (Inl (PyValueError msg), demo_py_reader, Some \<lparr>nd_contiguous = True, nd_elems = [0, 0]\<rparr>, written_os)"
proof -
  have "bytes_reader_entry_length demo_py_reader = 8"
    by (simp add: bytes_reader_entry_length_def os_reader_payload_bytes_def demo_py_reader_facts)
  with py_read_out [OF demo_py_reader_facts(1,2) _ demo_py_reader_facts(5), of "[replicate 8 9]" sim_api written_os
      "\<lparr>nd_contiguous = True, nd_elems = [0, 0]\<rparr>" 7 "\<lambda>p. True" None] demo_chan_written
  show ?thesis by (simp add: demo_py_reader_facts(4))
qed

end
