(* ===== verification/Spec2Isabelle.thy ===== *)
theory Spec2Isabelle
  imports Zc_Attach Zc_Stream Zc_Races Zc_Blocks
begin

text \<open>
  ZeroChannel is a channel of fixed-size entries in a shared-memory segment: one writer, any number
  of one-copy readers and at most one zero-copy reader, in different processes, without locks. A
  ring of slots follows a header; each slot is a signed control word and a payload. The control word
  is 0 while the slot is being filled, the positive number of the entry when it is committed, and
  the negated number while the zero-copy reader holds it. This library models the two crates of the
  repository and states what makes them correct.

  \<^bold>\<open>Parts and theories.\<close> In the order of the imports:

  \<^item> \<open>Zc_Prelude\<close>: word arithmetic, little-endian encoding, decimal printing, the theorem collections.
  \<^item> \<open>Zc_Memory\<close>: a segment as a list of bytes; aligned 64-bit loads, stores and compare-and-swap, byte
    copies; every access outside the segment is undefined (\<open>None\<close>). The locale \<open>word_store\<close> states the
    laws of the word accesses. A \<open>view\<close> is the segment at each moment, and \<open>still m\<close> one that
    does not change.
  \<^item> \<open>Zc_Error\<close>, \<open>Zc_Metadata\<close> (\<open>zerochannel-core/src/error.rs\<close>, \<open>metadata.rs\<close>): the error type, the
    constants, element types, geometry, header checks, \<open>init_header\<close> and \<open>read_header\<close>.
  \<^item> \<open>Zc_Segment\<close>, \<open>Zc_Layout\<close>: slots by position (locale \<open>slot_array\<close>: what each slot update leaves
    alone), and the properties of geometry and header.
  \<^item> \<open>Zc_Handles\<close> (\<open>zerocopy.rs\<close> of the core): the write and read handles.
  \<^item> \<open>Zc_Ring\<close>: the abstract ring (control words, payloads, write index, watermark), the reference
    definition of the free slot and of the next entry.
  \<^item> \<open>Zc_Writer\<close>, \<open>Zc_Reader\<close>, \<open>Zc_Typed\<close> (\<open>writer.rs\<close>, \<open>reader.rs\<close> of the core): recovery, claim, publication,
    one-copy and zero-copy writes; search, one-copy reads, acquire and release; typed reads.
  \<^item> \<open>Zc_Channel\<close>: the channel as a log of committed payloads and the invariant \<open>chan_inv\<close>.
    \<open>Zc_Delivery\<close>: writes and reads from end to end.
  \<^item> \<open>Zc_Transition\<close>, \<open>Zc_Machine\<close>, \<open>Zc_Concurrent\<close>, \<open>Zc_Acquire\<close>: the writer one memory access at a time
    (\<open>wstep\<close>), interleaved with holds and releases (\<open>sys_step\<close>), crashes, one-copy reads and
    acquisitions that make each access at a moment of its own. The locales \<open>step_invariant\<close> and
    \<open>stable_predicate\<close> carry invariants along runs and paths. \<open>Zc_Stream\<close>: what a reader receives that
    polls such a channel. \<open>Zc_Attach\<close>: \<open>init_header\<close> one access at a time (\<open>init_step\<close>), and \<open>read_header\<close> with
    each load at a moment of its own (\<open>read_header_view\<close>).
  \<^item> \<open>Zc_Roles\<close>, \<open>Zc_Lifecycle\<close> (\<open>zerochannel/src/lifecycle.rs\<close>): liveness of processes, exclusive roles
    (locale \<open>role_cell\<close>, interpreted on both role words of the header), creation, adoption and
    removal of segments.
  \<^item> \<open>Zc_Endpoints\<close>, \<open>Zc_Sessions\<close> (\<open>zerochannel/src/writer.rs\<close>, \<open>reader.rs\<close>): the named endpoints with
    deferred connection, and sessions of several endpoints.
  \<^item> \<open>Zc_Named\<close>: a system whose segments are sound, and the locale \<open>named_endpoint\<close>, which derives from
    the binding of an endpoint that its construction, its late connection and its calls keep it well
    typed. \<open>Zc_Writer_Safety\<close> and \<open>Zc_Reader_Safety\<close> interpret it on the named writer and the named
    reader, and follow each through all sequences of calls (\<open>writer_step\<close>, \<open>reader_step\<close>).
  \<^item> \<open>Zc_Races\<close>: bids for the segment deed among other accesses (\<open>deed_step\<close>), two creators at the same
    time, an owner whose name was removed and created anew, and a channel whose slots a dead reader
    holds.
  \<^item> \<open>Zc_Wrappers\<close> (\<open>zerochannel/src/lib.rs\<close>): \<open>Writer<T>\<close> and \<open>Reader<T>\<close>.
  \<^item> \<open>Zc_Views\<close>, \<open>Zc_Python\<close>, \<open>Zc_Blocks\<close> (\<open>zerochannel/src/python/\<close>): exceptions, zero-copy handles and the
    buffer protocol (locale \<open>counted_handle\<close>, interpreted on both handles), the Python endpoints, and
    \<open>with\<close> blocks.

  \<^bold>\<open>How code corresponds to definitions.\<close> A Rust \<open>struct\<close> is a record, \<open>Result\<close> a sum with \<open>Inl\<close> for the
  error, and a method a function that returns the changed object; an outer \<open>None\<close> is undefined
  behaviour or a panic, so an equation with \<open>Some\<close> also says that there is none. \<open>usize\<close> and \<open>u64\<close>
  are 64-bit words with wrapping arithmetic, as in a release build. Functions that only the caller's
  process affects take the segment; functions that race with others take a view and the moment
  they start at.

  \<^bold>\<open>What the groups of lemmas show.\<close> Layout: an accepted geometry has all its slots inside the
  allocation exactly if its size does not wrap, and then they are aligned and disjoint; a header is
  complete or not there, also for a process that decodes it while it is being written. Ring: a write
  is the abstract ring write, the fast search equals the reference search, and a zero-copy write is
  the one-copy write of whatever its stores leave in the slot. Channel: the ring is a window of the
  log, every write extends it, a drain delivers the newest entries in order. Concurrency: the reader
  stays inside the segment and returns whatever the bytes are, and passes over no entry that was
  there all the time. As long as no zero-copy reader takes a slot between the writer's probe and its
  clearing store, no read is torn, what a polling reader is given is a subsequence of the log, a held
  entry does not change, an acquisition is atomic, and every crash of a writer that is in step with
  its header can be recovered from. Lifecycle: roles are exclusive, refused opens are harmless, who
  owns a segment, and on sound segments, with sizes that do not overflow, an endpoint is well typed
  after any sequence of its calls, so that no call panics or leaves the segment. Python: views pin
  their slot, a handle gives its slot back or publishes it exactly once, blocks commit or abandon.
  Eight properties state flaws: the claim of a slot is not atomic (\<open>claim_race\<close>), the size computation
  wraps (\<open>geometry_inside_iff\<close>), a second crash can reuse a number (\<open>second_crash_reuses_number\<close>), a refused
  writer can remove a live channel (\<open>conflict_unlinks_live_channel\<close>), so can the owner of an earlier
  channel of that name (\<open>stale_owner_unlinks_successor\<close>), a Python view can write into a committed entry
  (\<open>live_view_corrupts_entry\<close>), two processes that create one channel at the same time both own it
  (\<open>creation_race\<close>), and slots held by a dead reader are never given back (\<open>dead_reader_wedges\<close>).
  That two acquisitions without a commit alias is the lemma \<open>try_acquire_twice_aliases\<close>.

  \<^bold>\<open>Bounds.\<close> Logs are shorter than \<open>2 ^ 63\<close> entries, since the control word is signed. Loops over the
  slots are recursions over the list of positions; the retry loops of the reader run \<open>READ_RETRIES\<close>
  times as in the code, so no fuel is chosen. \<open>claim_role\<close> and \<open>claim_segment\<close> may retry for ever while
  other processes keep changing the cell; they are partial functions, and return once it settles.

  \<^bold>\<open>Hypotheses.\<close> The \<open>shared_memory\<close> crate is the record \<open>shmem_api\<close> with the laws \<open>shmem_ok\<close>, which the
  simulated system \<open>sim_api\<close> satisfies; the liveness of a process, the borrow state of Python objects
  and the tests on buffer flags are arguments. Memory is sequentially consistent: the orderings of
  the atomics are not modelled. In \<open>sys_step False\<close> the zero-copy reader does not take the very slot
  the writer has just probed; \<open>claim_race\<close> shows what happens otherwise. Process identifiers are not
  reused.

  \<^bold>\<open>Not modelled.\<close> The crate roots and the registration of the Python module (no behaviour of their
  own), the interpreter lock, the interpreter's side of a \<open>memoryview\<close> (its creation is the export it takes),
  the tests. In \<open>Zc_Lifecycle\<close> creation and adoption of a segment run without interruption, except for
  the claims, which make each access at a moment of its own; \<open>creation_race\<close> suspends a creator, and
  \<open>Zc_Attach\<close> interleaves the initialisation of a header with its decoding.
\<close>

end
